(* ===== verification/Varin_Prelude.thy ===== *)
theory Varin_Prelude
  imports Main "HOL-Library.Word" "HOL-Library.AList" "HOL-Library.Sublist"
begin

text \<open>
  Shared vocabulary of the development.

  \<^item> JavaScript failures are values: a computation that may throw has type \<open>('e, 'a) outcome\<close>,
    with \<open>Inl\<close> for the thrown error and \<open>Inr\<close> for the returned value; \<open>obind\<close> sequences two
    computations and \<open>ocollect\<close> runs a list of them left to right, as \<open>array.map\<close> of a throwing
    callback does.
  \<^item> A JavaScript \<open>number\<close> whose integrality the code tests is a \<open>jsnum\<close>: an integer, or one of
    the values (fractions, NaN, infinities) on which \<open>Number.isInteger\<close> answers false.
  \<^item> \<open>dec\<close> is \<open>String(n)\<close> for a non-negative integer; \<open>split_on\<close> and \<open>join_with\<close> are
    \<open>String.prototype.split\<close> by one character and \<open>Array.prototype.join\<close>.
  \<^item> A JavaScript \<open>Map\<close> whose iteration order matters is an association list in insertion order,
    read by \<open>map_of\<close> and changed by \<open>AList.update\<close> and \<open>AList.delete\<close>.
\<close>

section \<open>Collections of facts\<close>

named_theorems outcome_simps "case analysis of throwing computations"
named_theorems byte_simps "byte and word arithmetic of the codecs"

section \<open>Computations that may throw\<close>

type_synonym ('e, 'a) outcome = "'e + 'a"

fun obind :: "('e, 'a) outcome \<Rightarrow> ('a \<Rightarrow> ('e, 'b) outcome) \<Rightarrow> ('e, 'b) outcome" where
  "obind (Inl e) f = Inl e"
| "obind (Inr x) f = f x"

fun ocollect :: "('e, 'a) outcome list \<Rightarrow> ('e, 'a list) outcome" where
  "ocollect [] = Inr []"
| "ocollect (r # rs) = obind r (\<lambda>x. obind (ocollect rs) (\<lambda>xs. Inr (x # xs)))"

lemma obind_Inr_iff [outcome_simps]: "obind r f = Inr y \<longleftrightarrow> (\<exists>x. r = Inr x \<and> f x = Inr y)"
  by (cases r) auto

lemma obind_Inl_iff [outcome_simps]:
  "obind r f = Inl e \<longleftrightarrow> r = Inl e \<or> (\<exists>x. r = Inr x \<and> f x = Inl e)"
  by (cases r) auto

lemma obind_Inr_right [simp]: "obind r Inr = r"
  by (cases r) auto

lemma ocollect_Inr_iff:
  "ocollect rs = Inr xs \<longleftrightarrow> rs = map Inr xs"
proof (induction rs arbitrary: xs)
  case Nil
  then show ?case by auto
next
  case (Cons r rs)
  then show ?case by (cases r; cases xs) (auto simp: outcome_simps)
qed

lemma ocollect_map_Inr [simp]: "ocollect (map (\<lambda>x. Inr (f x)) xs) = Inr (map f xs)"
  by (induction xs) auto

section \<open>Numbers\<close>

datatype jsnum = JInt int | JNonInt

text \<open>Decimal digits of a natural number, most significant first.\<close>

definition digit_char :: "nat \<Rightarrow> char" where
  "digit_char d = char_of (48 + d)"

fun dec :: "nat \<Rightarrow> string" where
  "dec n = (if n < 10 then [digit_char n] else dec (n div 10) @ [digit_char (n mod 10)])"

declare dec.simps [simp del]

definition is_digit :: "char \<Rightarrow> bool" where
  "is_digit c \<longleftrightarrow> 48 \<le> (of_char c :: nat) \<and> (of_char c :: nat) \<le> 57"

lemma digit_char_is_digit [simp]: "d < 10 \<Longrightarrow> is_digit (digit_char d)"
  by (simp add: is_digit_def digit_char_def)

lemma of_char_digit_char: "d < 10 \<Longrightarrow> (of_char (digit_char d) :: nat) = 48 + d"
  by (simp add: digit_char_def)

lemma digit_char_inject: "a < 10 \<Longrightarrow> b < 10 \<Longrightarrow> digit_char a = digit_char b \<longleftrightarrow> a = b"
  using of_char_digit_char by (metis add_left_cancel)

lemma dec_nonempty [simp]: "dec n \<noteq> []" "[] \<noteq> dec n"
  by (subst dec.simps, simp)+

lemma dec_digits: "\<forall>c \<in> set (dec n). is_digit c"
proof (induction n rule: dec.induct)
  case (1 n)
  then show ?case by (subst dec.simps) auto
qed

lemma dec_inject [simp]: "dec m = dec n \<longleftrightarrow> m = n"
proof (induction m arbitrary: n rule: dec.induct)
  case (1 m)
  have step: "dec k = (if k < 10 then [] else dec (k div 10)) @ [digit_char (k mod 10)]" for k
    by (subst dec.simps) simp
  show ?case
  proof
    assume eq: "dec m = dec n"
    then have low: "m mod 10 = n mod 10"
      by (simp add: step [of m] step [of n] digit_char_inject)
    from eq have high: "(if m < 10 then [] else dec (m div 10)) = (if n < 10 then [] else dec (n div 10))"
      by (simp add: step [of m] step [of n])
    show "m = n"
    proof (cases "m < 10")
      case True
      with high low show ?thesis by (auto split: if_splits)
    next
      case False
      with high have "dec (m div 10) = dec (n div 10)"
        by (auto split: if_splits)
      then have "m div 10 = n div 10"
        by (rule "1.IH" [OF False, THEN iffD1])
      with low show ?thesis by (metis div_mult_mod_eq)
    qed
  qed simp
qed

section \<open>Strings\<close>

text \<open>\<open>s.split(c)\<close>: the empty string splits into one empty piece.\<close>

fun split_on :: "'a \<Rightarrow> 'a list \<Rightarrow> 'a list list" where
  "split_on c [] = [[]]"
| "split_on c (x # xs) =
     (if x = c then [] # split_on c xs
      else (case split_on c xs of [] \<Rightarrow> [[x]] | p # ps \<Rightarrow> (x # p) # ps))"

fun join_with :: "'a list \<Rightarrow> 'a list list \<Rightarrow> 'a list" where
  "join_with sep [] = []"
| "join_with sep [p] = p"
| "join_with sep (p # q # ps) = p @ sep @ join_with sep (q # ps)"

lemma split_on_nonempty [simp]: "split_on c xs \<noteq> []"
  by (induction xs) (auto split: list.splits)

lemma split_on_no_sep: "p \<in> set (split_on c xs) \<Longrightarrow> c \<notin> set p"
  by (induction xs arbitrary: p) (fastforce split: list.splits if_splits)+

lemma join_with_split_on: "join_with [c] (split_on c xs) = xs"
proof (induction xs)
  case Nil
  then show ?case by simp
next
  case (Cons x xs)
  obtain p ps where sp: "split_on c xs = p # ps"
    by (cases "split_on c xs") auto
  with Cons show ?case by (cases ps) auto
qed

lemma split_on_clean [simp]: "c \<notin> set p \<Longrightarrow> split_on c p = [p]"
  by (induction p) auto

lemma split_on_append_sep: "c \<notin> set p \<Longrightarrow> split_on c (p @ c # rest) = p # split_on c rest"
  by (induction p) auto

lemma split_on_join_with:
  "ps \<noteq> [] \<Longrightarrow> \<forall>p \<in> set ps. c \<notin> set p \<Longrightarrow> split_on c (join_with [c] ps) = ps"
  by (induction "[c]" ps rule: join_with.induct) (auto simp: split_on_append_sep)

lemma join_with_Cons: "join_with sep (p # ps) = p @ (if ps = [] then [] else sep @ join_with sep ps)"
  by (cases ps) auto

lemma prefix_sep_split:
  assumes "c \<notin> set p" and "c \<notin> set q" and "p @ c # r = q @ c # s"
  shows "p = q \<and> r = s"
  using assms
proof (induction p arbitrary: q)
  case Nil
  then show ?case by (cases q) auto
next
  case (Cons x p)
  then show ?case by (cases q) auto
qed

section \<open>Values of unknown shape\<close>

text \<open>
  A value the code receives as \<open>unknown\<close>: the JSON values and \<open>undefined\<close>. An object is the list of its
  own properties; \<open>prop_of\<close> is the property read \<open>value.key\<close> (a name that is inherited from
  \<open>Object.prototype\<close> never holds a string, an array or a plain object, and every reader below tests for
  one of those).
\<close>

datatype jsval =
    JUndefined
  | JNull
  | JBool bool
  | JNumber jsnum
  | JString string
  | JArray "jsval list"
  | JObject "(string \<times> jsval) list"

fun is_object :: "jsval \<Rightarrow> bool" where
  "is_object (JArray vs) = True"
| "is_object (JObject ps) = True"
| "is_object v = False"

fun is_array :: "jsval \<Rightarrow> bool" where
  "is_array (JArray vs) = True"
| "is_array v = False"

definition own_prop :: "(string \<times> jsval) list \<Rightarrow> string \<Rightarrow> jsval" where
  "own_prop ps k = (case map_of ps k of None \<Rightarrow> JUndefined | Some v \<Rightarrow> v)"

fun prop_of :: "jsval \<Rightarrow> string \<Rightarrow> jsval" where
  "prop_of (JObject ps) k = own_prop ps k"
| "prop_of v k = JUndefined"

text \<open>The white space \<open>String.prototype.trim\<close> removes, and \<open>!s.trim()\<close>.\<close>

definition js_space :: "char \<Rightarrow> bool" where
  "js_space c \<longleftrightarrow> (of_char c :: nat) \<in> {9, 10, 11, 12, 13, 32, 160}"

definition blank :: "string \<Rightarrow> bool" where
  "blank s \<longleftrightarrow> list_all js_space s"

text \<open>The names every object inherits from \<open>Object.prototype\<close>.\<close>

definition object_prototype_names :: "string list" where
  "object_prototype_names =
     [''constructor'', ''hasOwnProperty'', ''isPrototypeOf'', ''propertyIsEnumerable'', ''toLocaleString'',
      ''toString'', ''valueOf'', ''__proto__'', ''__defineGetter__'', ''__defineSetter__'',
      ''__lookupGetter__'', ''__lookupSetter__'']"

section \<open>First match\<close>

text \<open>A loop over a list that returns at the first element that gives a result.\<close>

fun first_some :: "('a \<Rightarrow> 'b option) \<Rightarrow> 'a list \<Rightarrow> 'b option" where
  "first_some f [] = None"
| "first_some f (x # xs) = (case f x of None \<Rightarrow> first_some f xs | Some y \<Rightarrow> Some y)"

lemma first_some_append [simp]:
  "first_some f (xs @ ys) = (case first_some f xs of None \<Rightarrow> first_some f ys | Some y \<Rightarrow> Some y)"
  by (induction xs) (auto split: option.split)

lemma first_some_SomeD: "first_some f xs = Some y \<Longrightarrow> \<exists>x \<in> set xs. f x = Some y"
  by (induction xs) (auto split: option.splits)

lemma first_some_None_iff: "first_some f xs = None \<longleftrightarrow> (\<forall>x \<in> set xs. f x = None)"
  by (induction xs) (auto split: option.splits)

section \<open>Ordered association maps\<close>

lemma map_of_update [simp]: "map_of (AList.update k v m) = (map_of m)(k \<mapsto> v)"
  by (rule update_conv')

lemma map_of_delete [simp]: "map_of (AList.delete k m) = (map_of m)(k := None)"
  by (rule delete_conv')

lemma distinct_keys_update [simp]: "distinct (map fst m) \<Longrightarrow> distinct (map fst (AList.update k v m))"
  by (rule distinct_update)

lemma distinct_keys_delete [simp]: "distinct (map fst m) \<Longrightarrow> distinct (map fst (AList.delete k m))"
  by (rule distinct_delete)

section \<open>Runs of a stateful service\<close>

text \<open>
  A service is a start state and a step relation labelled with the event that happened. A state is reachable
  when some sequence of events leads to it; what holds at the start and is kept by every step holds in every
  reachable state.
\<close>

inductive reachable :: "'s \<Rightarrow> ('s \<Rightarrow> 'e \<Rightarrow> 's \<Rightarrow> bool) \<Rightarrow> 's \<Rightarrow> bool" for start step where
  reach_start: "reachable start step start"
| reach_step: "reachable start step s \<Longrightarrow> step s e s' \<Longrightarrow> reachable start step s'"

locale invariant_system =
  fixes start :: 's
    and step :: "'s \<Rightarrow> 'e \<Rightarrow> 's \<Rightarrow> bool"
    and inv :: "'s \<Rightarrow> bool"
  assumes inv_start: "inv start"
    and inv_step: "inv s \<Longrightarrow> step s e s' \<Longrightarrow> inv s'"
begin

lemma reachable_inv: "reachable start step s \<Longrightarrow> inv s"
  by (induction rule: reachable.induct) (auto intro: inv_start inv_step)

end

end
