(* ===== verification/Tunnel_Codec.thy ===== *)
theory Tunnel_Codec
  imports Varin_Prelude
begin

unbundle bit_operations_syntax

text \<open>
  The host side of the relay tunnel's frame codec,
  \<^verbatim>\<open>src/packages/web/application-host/lib/relay/tunnel-codec.ts\<close>.

  A tunnel frame is one type byte (its high bit says that more fragments follow), a four byte
  big-endian stream id and a payload. Bytes are \<open>8 word\<close>, the stream id's shifts work on
  \<open>32 word\<close> as JavaScript's \<open>>>>\<close> and \<open><<\<close> do, and every \<open>TunnelCodecError\<close> the code throws is a
  constructor of \<open>tunnel_error\<close>.
\<close>

section \<open>Data\<close>

type_synonym bytes = "8 word list"

datatype tunnel_error =
    InvalidStreamId
  | PayloadTooLarge
  | FrameTooShort
  | UnknownFrameType int
  | InvalidChunkSize
  | FragmentTooLarge
  | EmptyBatch
  | BatchTooLarge
  | EmptyPlaintext
  | UnknownContainerTag int
  | TruncatedLength
  | TruncatedBody
  | EmptyFrameBatch
  | StreamIdsExhausted

record TunnelFrame =
  frameType :: int
  streamId :: nat
  payload :: bytes
  hasMoreFragments :: bool

definition MAX_PLAINTEXT_FRAME_BYTES :: nat where
  "MAX_PLAINTEXT_FRAME_BYTES = 64 * 1024"

definition TUNNEL_FRAME_HEADER_BYTES :: nat where
  "TUNNEL_FRAME_HEADER_BYTES = 5"

definition TUNNEL_FRAGMENT_FLAG :: "8 word" where
  "TUNNEL_FRAGMENT_FLAG = 0x80"

definition BATCH_CONTAINER_TAG_SINGLE :: "8 word" where
  "BATCH_CONTAINER_TAG_SINGLE = 0x00"

definition BATCH_CONTAINER_TAG_BATCH :: "8 word" where
  "BATCH_CONTAINER_TAG_BATCH = 0x01"

definition BATCH_FRAME_LENGTH_BYTES :: nat where
  "BATCH_FRAME_LENGTH_BYTES = 4"

definition BATCH_ENVELOPE_RESERVED_BYTES :: nat where
  "BATCH_ENVELOPE_RESERVED_BYTES = 1 + BATCH_FRAME_LENGTH_BYTES"

definition MAX_TUNNEL_PAYLOAD_BYTES :: nat where
  "MAX_TUNNEL_PAYLOAD_BYTES =
     MAX_PLAINTEXT_FRAME_BYTES - TUNNEL_FRAME_HEADER_BYTES - BATCH_ENVELOPE_RESERVED_BYTES"

definition MAX_STREAM_ID :: int where
  "MAX_STREAM_ID = 0xffffffff"

lemmas tunnel_constants =
  MAX_PLAINTEXT_FRAME_BYTES_def TUNNEL_FRAME_HEADER_BYTES_def TUNNEL_FRAGMENT_FLAG_def
  BATCH_CONTAINER_TAG_SINGLE_def BATCH_CONTAINER_TAG_BATCH_def BATCH_FRAME_LENGTH_BYTES_def
  BATCH_ENVELOPE_RESERVED_BYTES_def MAX_TUNNEL_PAYLOAD_BYTES_def MAX_STREAM_ID_def

text \<open>The values of the \<open>TunnelFrameType\<close> table, in its order.\<close>

definition TunnelFrameType_values :: "int list" where
  "TunnelFrameType_values = [1, 2, 3, 4, 5, 6, 7, 8, 9, 10, 11, 12]"

definition isTunnelFrameType :: "int \<Rightarrow> bool" where
  "isTunnelFrameType v \<longleftrightarrow> v \<in> set TunnelFrameType_values"

section \<open>Big-endian 32 bit fields\<close>

text \<open>
  \<open>(n >>> 24) & 0xff\<close>, \<open>(n >>> 16) & 0xff\<close>, \<open>(n >>> 8) & 0xff\<close> and \<open>n & 0xff\<close>, each stored into a
  \<open>Uint8Array\<close>; reading is \<open>((b0 << 24) | (b1 << 16) | (b2 << 8) | b3) >>> 0\<close>.
\<close>

definition be32 :: "32 word \<Rightarrow> bytes" where
  "be32 w = [ucast (drop_bit 24 w AND 0xff), ucast (drop_bit 16 w AND 0xff),
             ucast (drop_bit 8 w AND 0xff), ucast (w AND 0xff)]"

definition of_be32 :: "8 word \<Rightarrow> 8 word \<Rightarrow> 8 word \<Rightarrow> 8 word \<Rightarrow> 32 word" where
  "of_be32 b0 b1 b2 b3 =
     push_bit 24 (ucast b0) OR push_bit 16 (ucast b1) OR push_bit 8 (ucast b2) OR ucast b3"

text \<open>\<open>bytes[i] ?? 0\<close>.\<close>

definition byte_at :: "bytes \<Rightarrow> nat \<Rightarrow> 8 word" where
  "byte_at bs i = (if i < length bs then bs ! i else 0)"

definition read_be32 :: "bytes \<Rightarrow> nat \<Rightarrow> 32 word" where
  "read_be32 bs i = of_be32 (byte_at bs i) (byte_at bs (i + 1)) (byte_at bs (i + 2)) (byte_at bs (i + 3))"

text \<open>\<open>bytes.slice(a, b)\<close> for \<open>0 \<le> a \<le> b\<close>.\<close>

definition slice :: "'a list \<Rightarrow> nat \<Rightarrow> nat \<Rightarrow> 'a list" where
  "slice xs a b = take (b - a) (drop a xs)"

section \<open>Frames\<close>

definition encodeTunnelFrame :: "int \<Rightarrow> jsnum \<Rightarrow> bytes \<Rightarrow> bool \<Rightarrow> (tunnel_error, bytes) outcome" where
  "encodeTunnelFrame ft sid pl hasMore =
     (case sid of
        JNonInt \<Rightarrow> Inl InvalidStreamId
      | JInt s \<Rightarrow>
          if s < 0 \<or> s > MAX_STREAM_ID then Inl InvalidStreamId
          else if length pl > MAX_TUNNEL_PAYLOAD_BYTES then Inl PayloadTooLarge
          else Inr ((if hasMore then word_of_int ft OR TUNNEL_FRAGMENT_FLAG else word_of_int ft)
                    # be32 (word_of_int s) @ pl))"

definition decodeTunnelFrame :: "bytes \<Rightarrow> (tunnel_error, TunnelFrame) outcome" where
  "decodeTunnelFrame frame =
     (if length frame < TUNNEL_FRAME_HEADER_BYTES then Inl FrameTooShort
      else
        let rawType = byte_at frame 0;
            hasMore = (rawType AND TUNNEL_FRAGMENT_FLAG \<noteq> 0);
            ft = uint (rawType AND NOT TUNNEL_FRAGMENT_FLAG)
        in if \<not> isTunnelFrameType ft then Inl (UnknownFrameType ft)
           else Inr \<lparr>frameType = ft, streamId = unat (read_be32 frame 1),
                     payload = drop TUNNEL_FRAME_HEADER_BYTES frame, hasMoreFragments = hasMore\<rparr>)"

section \<open>Chunking and fragmentation\<close>

function chunk_loop :: "bytes \<Rightarrow> nat \<Rightarrow> nat \<Rightarrow> bytes list" where
  "chunk_loop bs chunkSize offset =
     (if offset < length bs \<and> 0 < chunkSize
      then slice bs offset (offset + chunkSize) # chunk_loop bs chunkSize (offset + chunkSize)
      else [])"
  by pat_completeness auto
termination
  by (relation "measure (\<lambda>(bs, n, off). length bs - off)") auto

declare chunk_loop.simps [simp del]

definition chunkPayload :: "bytes \<Rightarrow> int \<Rightarrow> (tunnel_error, bytes list) outcome" where
  "chunkPayload bs chunkSize =
     (if chunkSize \<le> 0 \<or> chunkSize > int MAX_TUNNEL_PAYLOAD_BYTES then Inl InvalidChunkSize
      else if bs = [] then Inr [[]]
      else Inr (chunk_loop bs (nat chunkSize) 0))"

definition encodeFragmentedMessage ::
  "int \<Rightarrow> jsnum \<Rightarrow> bytes \<Rightarrow> (tunnel_error, bytes list) outcome" where
  "encodeFragmentedMessage ft sid pl =
     obind (chunkPayload pl (int MAX_TUNNEL_PAYLOAD_BYTES))
       (\<lambda>chunks. ocollect (map (\<lambda>(index, chunk). encodeTunnelFrame ft sid chunk (index < length chunks - 1))
                            (List.enumerate 0 chunks)))"

section \<open>Reassembly\<close>

record pending_entry =
  chunks :: "bytes list"
  totalBytes :: nat

type_synonym pending = "string \<rightharpoonup> pending_entry"

definition fragment_key :: "nat \<Rightarrow> int \<Rightarrow> string" where
  "fragment_key sid ft = dec sid @ '':'' @ dec (nat ft)"

definition DEFAULT_MAX_MESSAGE_BYTES :: nat where
  "DEFAULT_MAX_MESSAGE_BYTES = 16 * 1024 * 1024"

text \<open>\<open>message.set(chunk, offset)\<close> inside the array.\<close>

definition place :: "bytes \<Rightarrow> bytes \<Rightarrow> nat \<Rightarrow> bytes" where
  "place message chunk offset = take offset message @ chunk @ drop (offset + length chunk) message"

fun place_all :: "bytes \<Rightarrow> nat \<Rightarrow> bytes list \<Rightarrow> bytes" where
  "place_all message offset [] = message"
| "place_all message offset (c # cs) = place_all (place message c offset) (offset + length c) cs"

definition push :: "nat \<Rightarrow> pending \<Rightarrow> TunnelFrame \<Rightarrow> pending \<times> (tunnel_error, bytes option) outcome" where
  "push maxMessageBytes pend frame =
     (let key = fragment_key (streamId frame) (frameType frame);
          entry = pend key
      in if \<not> hasMoreFragments frame \<and> entry = None then (pend, Inr (Some (payload frame)))
         else
           let chs = (case entry of None \<Rightarrow> [] | Some e \<Rightarrow> chunks e);
               total = (case entry of None \<Rightarrow> 0 | Some e \<Rightarrow> totalBytes e) + length (payload frame)
           in if total > maxMessageBytes then (pend(key := None), Inl FragmentTooLarge)
              else
                let chs' = chs @ [payload frame]
                in if hasMoreFragments frame
                   then (pend(key \<mapsto> \<lparr>chunks = chs', totalBytes = total\<rparr>), Inr None)
                   else (pend(key := None), Inr (Some (place_all (replicate total 0) 0 chs'))))"

definition dropStream :: "nat \<Rightarrow> pending \<Rightarrow> pending" where
  "dropStream sid pend = (\<lambda>key. if prefix (dec sid @ '':'') key then None else pend key)"

section \<open>Batch envelope\<close>

fun batch_total :: "bytes list \<Rightarrow> nat" where
  "batch_total [] = 0"
| "batch_total (f # fs) = (BATCH_FRAME_LENGTH_BYTES + length f) + batch_total fs"

fun batch_body :: "bytes list \<Rightarrow> bytes" where
  "batch_body [] = []"
| "batch_body (f # fs) = be32 (word_of_nat (length f)) @ f @ batch_body fs"

definition encodeFrameBatch :: "bytes list \<Rightarrow> (tunnel_error, bytes) outcome" where
  "encodeFrameBatch frames =
     (case frames of
        [] \<Rightarrow> Inl EmptyBatch
      | [frame] \<Rightarrow>
          (if 1 + length frame > MAX_PLAINTEXT_FRAME_BYTES then Inl BatchTooLarge
           else Inr (BATCH_CONTAINER_TAG_SINGLE # frame))
      | _ \<Rightarrow>
          (if 1 + batch_total frames > MAX_PLAINTEXT_FRAME_BYTES then Inl BatchTooLarge
           else Inr (BATCH_CONTAINER_TAG_BATCH # batch_body frames)))"

function decode_batch_loop :: "bytes \<Rightarrow> nat \<Rightarrow> (tunnel_error, bytes list) outcome" where
  "decode_batch_loop plaintext offset =
     (if offset < length plaintext then
        (if offset + BATCH_FRAME_LENGTH_BYTES > length plaintext then Inl TruncatedLength
         else
           let len = unat (read_be32 plaintext offset);
               offset' = offset + BATCH_FRAME_LENGTH_BYTES
           in if offset' + len > length plaintext then Inl TruncatedBody
              else obind (decode_batch_loop plaintext (offset' + len))
                     (\<lambda>frames. Inr (slice plaintext offset' (offset' + len) # frames)))
      else Inr [])"
  by pat_completeness auto
termination
  by (relation "measure (\<lambda>(p, off). length p - off)") (auto simp: BATCH_FRAME_LENGTH_BYTES_def)

declare decode_batch_loop.simps [simp del]

definition decodeFrameBatch :: "bytes \<Rightarrow> (tunnel_error, bytes list) outcome" where
  "decodeFrameBatch plaintext =
     (if length plaintext < 1 then Inl EmptyPlaintext
      else
        let tag = byte_at plaintext 0
        in if tag = BATCH_CONTAINER_TAG_SINGLE then Inr [drop 1 plaintext]
           else if tag \<noteq> BATCH_CONTAINER_TAG_BATCH then Inl (UnknownContainerTag (uint tag))
           else obind (decode_batch_loop plaintext 1)
                  (\<lambda>frames. if frames = [] then Inl EmptyFrameBatch else Inr frames))"

section \<open>Runs and invariants\<close>

text \<open>
  \<open>push_all\<close> feeds a sequence of frames to one assembler, as the tunnel's receive loop does;
  \<open>pending_ok\<close> is the assembler's invariant; \<open>fragments\<close> is the frame sequence a list of chunks
  stands for.
\<close>

definition entry_ok :: "nat \<Rightarrow> pending_entry \<Rightarrow> bool" where
  "entry_ok limit e \<longleftrightarrow> totalBytes e = sum_list (map length (chunks e)) \<and> totalBytes e \<le> limit"

definition pending_ok :: "nat \<Rightarrow> pending \<Rightarrow> bool" where
  "pending_ok limit pend \<longleftrightarrow> (\<forall>e \<in> ran pend. entry_ok limit e)"

abbreviation key_of :: "TunnelFrame \<Rightarrow> string" where
  "key_of f \<equiv> fragment_key (streamId f) (frameType f)"

fun push_all :: "nat \<Rightarrow> pending \<Rightarrow> TunnelFrame list \<Rightarrow> pending \<times> (tunnel_error, bytes option) outcome list" where
  "push_all limit pend [] = (pend, [])"
| "push_all limit pend (f # fs) =
     (let (pend', r) = push limit pend f; (pend'', rs) = push_all limit pend' fs in (pend'', r # rs))"

fun fragments :: "int \<Rightarrow> nat \<Rightarrow> bytes list \<Rightarrow> TunnelFrame list" where
  "fragments t s [] = []"
| "fragments t s [c] = [\<lparr>frameType = t, streamId = s, payload = c, hasMoreFragments = False\<rparr>]"
| "fragments t s (c # d # cs) =
     \<lparr>frameType = t, streamId = s, payload = c, hasMoreFragments = True\<rparr> # fragments t s (d # cs)"

section \<open>Big-endian fields: both round trips\<close>

lemma byte_mask: "(255 :: 32 word) = mask 8"
  by (simp add: mask_eq_exp_minus_1)

lemma low_byte [byte_simps]: "(ucast (w AND 255 :: 32 word) :: 8 word) = ucast w"
  by (rule bit_word_eqI) (simp add: byte_mask bit_simps)

lemma bit_byte_high [simp]: "8 \<le> n \<Longrightarrow> \<not> bit (b :: 8 word) n"
  using bit_imp_le_length [of b n] by auto

lemma length_be32 [simp]: "length (be32 w) = 4"
  by (simp add: be32_def)

lemma of_be32_bytes [byte_simps]:
  "of_be32 (ucast (drop_bit 24 w)) (ucast (drop_bit 16 w)) (ucast (drop_bit 8 w)) (ucast w) = w"
proof (rule bit_word_eqI)
  fix n :: nat
  assume "n < LENGTH(32)"
  then consider "n < 8" | "8 \<le> n" "n < 16" | "16 \<le> n" "n < 24" | "24 \<le> n" "n < 32"
    by fastforce
  then show "bit (of_be32 (ucast (drop_bit 24 w)) (ucast (drop_bit 16 w))
      (ucast (drop_bit 8 w)) (ucast w)) n \<longleftrightarrow> bit w n"
    by cases (auto simp: of_be32_def bit_simps)
qed

lemma be32_of_be32 [byte_simps]: "be32 (of_be32 a b c d) = [a, b, c, d]"
  unfolding of_be32_def be32_def low_byte
  by (auto intro!: bit_word_eqI simp: bit_simps)

lemma read_be32_be32 [byte_simps]: "read_be32 (pre @ be32 w @ rest) (length pre) = w"
  by (simp add: read_be32_def byte_at_def be32_def nth_append byte_simps)

lemma be32_read_be32:
  "i + 4 \<le> length bs \<Longrightarrow> be32 (read_be32 bs i) = slice bs i (i + 4)"
  by (simp add: read_be32_def byte_at_def slice_def byte_simps)
    (rule nth_equalityI, auto simp: nth_Cons' less_Suc_eq numeral_eq_Suc)

lemma length_slice [simp]: "b \<le> length xs \<Longrightarrow> length (slice xs a b) = b - a"
  by (simp add: slice_def)

lemma slice_append_right: "slice (pre @ xs @ rest) (length pre) (length pre + length xs) = xs"
  by (simp add: slice_def)

section \<open>Frame round trip\<close>

lemma type_byte:
  assumes "isTunnelFrameType ft"
  shows "uint ((word_of_int ft :: 8 word) AND NOT 0x80) = ft"
    and "(word_of_int ft :: 8 word) AND 0x80 = 0"
    and "uint (((word_of_int ft :: 8 word) OR 0x80) AND NOT 0x80) = ft"
    and "((word_of_int ft :: 8 word) OR 0x80) AND 0x80 \<noteq> 0"
  using assms unfolding isTunnelFrameType_def TunnelFrameType_values_def
  by auto

lemma split_flag:
  assumes "\<And>n. bit f n \<longleftrightarrow> n = 7" and "b AND f = 0 \<longleftrightarrow> \<not> bit b 7"
  shows "(b AND NOT f) OR (if b AND f \<noteq> 0 then f else 0) = (b :: 8 word)"
  by (rule bit_word_eqI) (auto simp: bit_and_iff bit_or_iff bit_not_iff assms)

lemma byte_of_type:
  "word_of_int (uint (b AND NOT 0x80)) OR (if b AND 0x80 \<noteq> 0 then 0x80 else 0) = (b :: 8 word)"
proof -
  have flag: "bit (0x80 :: 8 word) n \<longleftrightarrow> n = 7" for n
  proof (cases "n < 8")
    case True
    then consider "n = 0" | "n = 1" | "n = 2" | "n = 3" | "n = 4" | "n = 5" | "n = 6" | "n = 7"
      by linarith
    then show ?thesis by cases simp_all
  next
    case False
    then show ?thesis by simp
  qed
  have test: "b AND 0x80 = 0 \<longleftrightarrow> \<not> bit b 7"
    using and_exp_eq_0_iff_not_bit [of b 7] by simp
  show ?thesis
    unfolding word_of_int_uint using flag test by (rule split_flag)
qed

lemma header_eq:
  assumes "5 \<le> length frame"
  shows "frame = byte_at frame 0 # be32 (read_be32 frame 1) @ drop 5 frame"
proof -
  have "be32 (read_be32 frame 1) = slice frame 1 5"
    using assms be32_read_be32 [of 1 frame] by simp
  moreover have "frame = take 1 frame @ take 4 (drop 1 frame) @ drop 5 frame"
    using append_take_drop_id [of 1 frame] append_take_drop_id [of 4 "drop 1 frame"] by simp
  moreover have "take 1 frame = [byte_at frame 0]"
    using assms by (cases frame) (auto simp: byte_at_def)
  ultimately show ?thesis
    by (simp add: slice_def)
qed

lemma decode_of_encode:
  assumes "isTunnelFrameType ft" "0 \<le> s" "s \<le> MAX_STREAM_ID"
    and "encodeTunnelFrame ft (JInt s) pl m = Inr frame"
  shows "decodeTunnelFrame frame =
    Inr \<lparr>frameType = ft, streamId = nat s, payload = pl, hasMoreFragments = m\<rparr>"
proof -
  from assms(4) have frame: "frame = (if m then word_of_int ft OR 0x80 else word_of_int ft)
      # be32 (word_of_int s) @ pl"
    by (auto simp: encodeTunnelFrame_def TUNNEL_FRAGMENT_FLAG_def split: if_splits)
  have rd: "read_be32 frame 1 = word_of_int s"
    unfolding frame
    using read_be32_be32 [of "[if m then word_of_int ft OR 0x80 else word_of_int ft]" "word_of_int s" pl]
    by simp
  have sid: "unat (word_of_int s :: 32 word) = nat s"
    using assms(2,3) by (simp add: MAX_STREAM_ID_def unat_eq_nat_uint uint_word_of_int)
  show ?thesis
    unfolding decodeTunnelFrame_def rd Let_def
    using type_byte [OF assms(1)] assms(1)
    by (simp add: frame byte_at_def TUNNEL_FRAME_HEADER_BYTES_def TUNNEL_FRAGMENT_FLAG_def sid)
qed

lemma encode_of_decode:
  assumes "decodeTunnelFrame frame = Inr f" "length (payload f) \<le> MAX_TUNNEL_PAYLOAD_BYTES"
  shows "isTunnelFrameType (frameType f)"
    and "encodeTunnelFrame (frameType f) (JInt (int (streamId f))) (payload f) (hasMoreFragments f) = Inr frame"
proof -
  from assms(1) have len: "5 \<le> length frame"
    and ty: "isTunnelFrameType (uint (byte_at frame 0 AND NOT 0x80))"
    and f: "f = \<lparr>frameType = uint (byte_at frame 0 AND NOT 0x80), streamId = unat (read_be32 frame 1),
      payload = drop 5 frame, hasMoreFragments = (byte_at frame 0 AND 0x80 \<noteq> 0)\<rparr>"
    by (auto simp: decodeTunnelFrame_def Let_def TUNNEL_FRAME_HEADER_BYTES_def
        TUNNEL_FRAGMENT_FLAG_def split: if_splits)
  from f ty show "isTunnelFrameType (frameType f)" by simp
  have bound: "int (unat (read_be32 frame 1)) \<le> MAX_STREAM_ID"
    using unsigned_less [of "read_be32 frame 1", where 'a = int] by (simp add: MAX_STREAM_ID_def)
  show "encodeTunnelFrame (frameType f) (JInt (int (streamId f))) (payload f) (hasMoreFragments f) = Inr frame"
    using assms(2) bound byte_of_type [of "byte_at frame 0"] header_eq [OF len]
    by (simp add: f encodeTunnelFrame_def TUNNEL_FRAGMENT_FLAG_def split: if_splits)
qed
section \<open>Chunking\<close>

lemma chunk_loop_concat: "0 < n \<Longrightarrow> concat (chunk_loop bs n off) = drop off bs"
proof (induction bs n off rule: chunk_loop.induct)
  case (1 bs n off)
  show ?case
  proof (cases "off < length bs")
    case True
    with 1 have "concat (chunk_loop bs n (off + n)) = drop (off + n) bs" by simp
    with True "1.prems" show ?thesis
      by (subst chunk_loop.simps)
        (simp add: slice_def add.commute [of off n] flip: drop_drop)
  next
    case False
    then show ?thesis by (subst chunk_loop.simps) simp
  qed
qed

lemma chunk_loop_sizes: "0 < n \<Longrightarrow> \<forall>c \<in> set (chunk_loop bs n off). c \<noteq> [] \<and> length c \<le> n"
proof (induction bs n off rule: chunk_loop.induct)
  case (1 bs n off)
  then show ?case
    by (subst chunk_loop.simps) (auto simp: slice_def)
qed

lemma chunkPayload_Inr:
  assumes "chunkPayload bs n = Inr cs"
  shows "concat cs = bs" "cs \<noteq> []" "\<forall>c \<in> set cs. int (length c) \<le> n" "n \<le> int MAX_TUNNEL_PAYLOAD_BYTES"
proof -
  from assms have n: "0 < nat n" "n \<le> int MAX_TUNNEL_PAYLOAD_BYTES"
    and cs: "cs = (if bs = [] then [[]] else chunk_loop bs (nat n) 0)"
    by (auto simp: chunkPayload_def split: if_splits)
  from n(1) cs show "concat cs = bs" by (simp add: chunk_loop_concat)
  from n(1) cs chunk_loop_concat [of "nat n" bs 0] show "cs \<noteq> []"
    by (cases "bs = []") auto
  from n(1) cs chunk_loop_sizes [of "nat n" bs 0] show "\<forall>c \<in> set cs. int (length c) \<le> n"
    by auto
  from n(2) show "n \<le> int MAX_TUNNEL_PAYLOAD_BYTES" .
qed

section \<open>Batch envelope\<close>

lemma length_batch_body: "length (batch_body fs) = batch_total fs"
  by (induction fs) (simp_all add: BATCH_FRAME_LENGTH_BYTES_def)

lemma member_batch_total: "f \<in> set fs \<Longrightarrow> length f + 4 \<le> batch_total fs"
  by (induction fs) (auto simp: BATCH_FRAME_LENGTH_BYTES_def)

lemma decode_batch_loop_body:
  assumes "\<forall>f \<in> set fs. length f < 2 ^ 32"
  shows "decode_batch_loop (pre @ batch_body fs) (length pre) = Inr fs"
  using assms
proof (induction fs arbitrary: pre)
  case Nil
  then show ?case by (subst decode_batch_loop.simps) simp
next
  case (Cons f fs)
  let ?hd = "be32 (word_of_nat (length f))"
  let ?p = "pre @ ?hd @ f @ batch_body fs"
  have len: "unat (read_be32 ?p (length pre)) = length f"
    using Cons.prems by (simp add: byte_simps unat_of_nat)
  have body: "slice ?p (length pre + 4) (length pre + 4 + length f) = f"
    using slice_append_right [of "pre @ ?hd" f "batch_body fs"] by simp
  have rest: "decode_batch_loop ?p (length pre + 4 + length f) = Inr fs"
    using Cons.IH [of "pre @ ?hd @ f"] Cons.prems by (simp add: ac_simps)
  show ?case
    using len body rest
    by (subst decode_batch_loop.simps) (simp add: BATCH_FRAME_LENGTH_BYTES_def Let_def)
qed

lemma decode_batch_loop_inverse:
  "decode_batch_loop p off = Inr fs \<Longrightarrow> off \<le> length p \<Longrightarrow> drop off p = batch_body fs"
proof (induction p off arbitrary: fs rule: decode_batch_loop.induct)
  case (1 p off)
  show ?case
  proof (cases "off < length p")
    case False
    with 1 show ?thesis by (simp add: decode_batch_loop.simps [of p off])
  next
    case True
    let ?len = "unat (read_be32 p off)"
    from True "1.prems"(1) obtain gs where
        hd: "off + 4 \<le> length p" and bd: "off + 4 + ?len \<le> length p"
      and gs: "decode_batch_loop p (off + 4 + ?len) = Inr gs"
      and fs: "fs = slice p (off + 4) (off + 4 + ?len) # gs"
      by (auto simp: decode_batch_loop.simps [of p off] BATCH_FRAME_LENGTH_BYTES_def Let_def
          outcome_simps split: if_splits)
    have IH: "drop (off + 4 + ?len) p = batch_body gs"
      using hd bd gs
      by (intro "1.IH" [OF True _ refl refl, unfolded BATCH_FRAME_LENGTH_BYTES_def]) auto
    have "drop off p = take 4 (drop off p) @ take ?len (drop (off + 4) p) @ drop (off + 4 + ?len) p"
      using append_take_drop_id [of 4 "drop off p"] append_take_drop_id [of ?len "drop (off + 4) p"]
      by (simp add: add.commute)
    moreover have "take 4 (drop off p) = be32 (read_be32 p off)"
      using be32_read_be32 [OF hd] by (simp add: slice_def)
    moreover have "word_of_nat (length (slice p (off + 4) (off + 4 + ?len))) = read_be32 p off"
      using bd by simp
    ultimately show ?thesis
      by (simp add: fs IH slice_def)
  qed
qed

lemma encodeFrameBatch_size: "encodeFrameBatch fs = Inr p \<Longrightarrow> length p \<le> MAX_PLAINTEXT_FRAME_BYTES"
  by (auto simp: encodeFrameBatch_def length_batch_body BATCH_FRAME_LENGTH_BYTES_def
      split: list.splits if_splits)

lemma decode_encodeFrameBatch:
  assumes "encodeFrameBatch frames = Inr plaintext"
  shows "decodeFrameBatch plaintext = Inr frames"
proof -
  consider f where "frames = [f]" "plaintext = BATCH_CONTAINER_TAG_SINGLE # f"
    | f g fs where "frames = f # g # fs" "plaintext = BATCH_CONTAINER_TAG_BATCH # batch_body frames"
        "1 + batch_total frames \<le> MAX_PLAINTEXT_FRAME_BYTES"
    using assms by (auto simp: encodeFrameBatch_def split: list.splits if_splits)
  then show ?thesis
  proof cases
    case 1
    then show ?thesis by (simp add: decodeFrameBatch_def byte_at_def)
  next
    case 2
    have small: "\<forall>f \<in> set frames. length f < 2 ^ 32"
      using 2(3) member_batch_total by (fastforce simp: MAX_PLAINTEXT_FRAME_BYTES_def)
    have "decode_batch_loop plaintext 1 = Inr frames"
      using decode_batch_loop_body [OF small, of "[BATCH_CONTAINER_TAG_BATCH]"] 2(2) by simp
    with 2 show ?thesis
      by (simp add: decodeFrameBatch_def byte_at_def BATCH_CONTAINER_TAG_SINGLE_def
          BATCH_CONTAINER_TAG_BATCH_def)
  qed
qed

section \<open>Reassembly\<close>

lemma fragment_key_inject:
  "fragment_key s t = fragment_key s' t' \<longleftrightarrow> s = s' \<and> nat t = nat t'"
proof
  assume "fragment_key s t = fragment_key s' t'"
  then have "dec s @ CHR '':'' # dec (nat t) = dec s' @ CHR '':'' # dec (nat t')"
    by (simp add: fragment_key_def)
  moreover have "CHR '':'' \<notin> set (dec n)" for n
    using dec_digits [of n] by (auto simp: is_digit_def)
  ultimately show "s = s' \<and> nat t = nat t'"
    using prefix_sep_split [of "CHR '':''" "dec s" "dec s'" "dec (nat t)" "dec (nat t')"] by auto
qed (simp add: fragment_key_def)

lemma fragment_key_stream:
  "prefix (dec sid @ '':'') (fragment_key s t) \<longleftrightarrow> s = sid"
proof
  assume "prefix (dec sid @ '':'') (fragment_key s t)"
  then obtain r where "dec s @ CHR '':'' # dec (nat t) = dec sid @ CHR '':'' # r"
    by (auto simp: prefix_def fragment_key_def)
  moreover have "CHR '':'' \<notin> set (dec n)" for n
    using dec_digits [of n] by (auto simp: is_digit_def)
  ultimately show "s = sid"
    using prefix_sep_split [of "CHR '':''" "dec s" "dec sid"] by auto
qed (simp add: prefix_def fragment_key_def)

lemma place_all_concat:
  "length rest = sum_list (map length cs) \<Longrightarrow>
   place_all (done @ rest) (length done) cs = done @ concat cs"
proof (induction cs arbitrary: "done" rest)
  case Nil
  then show ?case by simp
next
  case (Cons c cs)
  have "place (done @ rest) c (length done) = (done @ c) @ drop (length c) rest"
    by (simp add: place_def)
  with Cons.IH [of "drop (length c) rest" "done @ c"] Cons.prems show ?case
    by simp
qed

lemma place_all_message:
  "n = sum_list (map length cs) \<Longrightarrow> place_all (replicate n 0) 0 cs = concat cs"
  using place_all_concat [of "replicate n 0" cs "[]"] by simp

lemma push_ok: "pending_ok limit pend \<Longrightarrow> pending_ok limit (fst (push limit pend f))"
proof -
  assume ok: "pending_ok limit pend"
  have old: "entry_ok limit e" if "pend k = Some e" for k e
    using ok that by (auto simp: pending_ok_def ran_def)
  show ?thesis
    unfolding pending_ok_def
  proof
    fix e
    assume "e \<in> ran (fst (push limit pend f))"
    then obtain k where k: "fst (push limit pend f) k = Some e"
      by (auto simp: ran_def)
    show "entry_ok limit e"
    proof (cases "k = key_of f")
      case False
      with k have "pend k = Some e"
        by (auto simp: push_def Let_def split: if_splits)
      then show ?thesis by (rule old)
    next
      case True
      show ?thesis
        using k True old [of "key_of f"]
        by (auto simp: push_def Let_def entry_ok_def split: if_splits option.splits)
    qed
  qed
qed

lemma push_frame: "k \<noteq> key_of f \<Longrightarrow> fst (push limit pend f) k = pend k"
  by (auto simp: push_def Let_def)

lemma push_local:
  "pend (key_of f) = pend' (key_of f) \<Longrightarrow>
   snd (push limit pend f) = snd (push limit pend' f) \<and>
   fst (push limit pend f) (key_of f) = fst (push limit pend' f) (key_of f)"
  by (auto simp: push_def Let_def)

lemma push_all_demux:
  assumes "pend k = pend' k"
  shows "map snd (filter (\<lambda>(f, r). key_of f = k) (zip fs (snd (push_all limit pend fs))))
           = snd (push_all limit pend' (filter (\<lambda>f. key_of f = k) fs))
       \<and> fst (push_all limit pend fs) k = fst (push_all limit pend' (filter (\<lambda>f. key_of f = k) fs)) k"
  using assms
proof (induction fs arbitrary: pend pend')
  case Nil
  then show ?case by simp
next
  case (Cons f fs)
  show ?case
  proof (cases "key_of f = k")
    case True
    have "fst (push limit pend f) k = fst (push limit pend' f) k"
      "snd (push limit pend f) = snd (push limit pend' f)"
      using push_local [of pend f pend' limit] Cons.prems True by auto
    with Cons.IH [of "fst (push limit pend f)" "fst (push limit pend' f)"] True show ?thesis
      by (simp add: Let_def split_beta)
  next
    case False
    then have "fst (push limit pend f) k = pend' k"
      using push_frame [of k f limit pend] Cons.prems by auto
    with Cons.IH [of "fst (push limit pend f)" pend'] False show ?thesis
      by (simp add: Let_def split_beta)
  qed
qed

lemma push_more:
  assumes "pend (fragment_key s t) = (if cs = [] then None else Some \<lparr>chunks = cs, totalBytes = n\<rparr>)"
    and "n = sum_list (map length cs)" "n + length c \<le> limit"
  shows "push limit pend \<lparr>frameType = t, streamId = s, payload = c, hasMoreFragments = True\<rparr> =
    (pend(fragment_key s t \<mapsto> \<lparr>chunks = cs @ [c], totalBytes = n + length c\<rparr>), Inr None)"
  using assms by (auto simp: push_def Let_def)

lemma push_last:
  assumes "pend (fragment_key s t) = (if cs = [] then None else Some \<lparr>chunks = cs, totalBytes = n\<rparr>)"
    and "n = sum_list (map length cs)" "n + length c \<le> limit"
  shows "push limit pend \<lparr>frameType = t, streamId = s, payload = c, hasMoreFragments = False\<rparr> =
    (pend(fragment_key s t := None), Inr (Some (concat cs @ c)))"
  using assms place_all_message [of "n + length c" "cs @ [c]"]
  by (auto simp: push_def Let_def fun_eq_iff)

lemma push_all_fragments:
  assumes "cs' \<noteq> []"
    and "pend (fragment_key s t) = (if cs = [] then None else Some \<lparr>chunks = cs, totalBytes = n\<rparr>)"
    and "n = sum_list (map length cs)" "n + sum_list (map length cs') \<le> limit"
  shows "push_all limit pend (fragments t s cs') =
    (pend(fragment_key s t := None),
     replicate (length cs' - 1) (Inr None) @ [Inr (Some (concat (cs @ cs')))])"
  using assms
proof (induction t s cs' arbitrary: pend cs n rule: fragments.induct)
  case (1 t s)
  then show ?case by simp
next
  case (2 t s c)
  then show ?case by (simp add: push_last fun_upd_def)
next
  case (3 t s c d cs')
  have "push_all limit (pend(fragment_key s t \<mapsto> \<lparr>chunks = cs @ [c], totalBytes = n + length c\<rparr>))
      (fragments t s (d # cs')) =
    (pend(fragment_key s t := None),
     replicate (length cs') (Inr None) @ [Inr (Some (concat ((cs @ [c]) @ d # cs')))])"
    using "3.prems" "3.IH" [of "pend(fragment_key s t \<mapsto> \<lparr>chunks = cs @ [c], totalBytes = n + length c\<rparr>)"
        "cs @ [c]" "n + length c"]
    by (simp add: ac_simps fun_upd_def cong: if_cong)
  with "3.prems" show ?case
    by (simp add: push_more fun_upd_def cong: if_cong)
qed

lemma encode_fragments:
  assumes "isTunnelFrameType t" "0 \<le> s" "s \<le> MAX_STREAM_ID"
    and "ocollect (map (\<lambda>(i, c). encodeTunnelFrame t (JInt s) c (i < off + length cs - 1))
           (List.enumerate off cs)) = Inr frames"
  shows "map decodeTunnelFrame frames = map Inr (fragments t (nat s) cs)"
  using assms(4)
proof (induction cs arbitrary: off frames)
  case Nil
  then show ?case by simp
next
  case (Cons c cs)
  from Cons.prems obtain fr rest where fr: "encodeTunnelFrame t (JInt s) c (cs \<noteq> []) = Inr fr"
    and rest: "ocollect (map (\<lambda>(i, c). encodeTunnelFrame t (JInt s) c (i < Suc off + length cs - 1))
           (List.enumerate (Suc off) cs)) = Inr rest"
    and frames: "frames = fr # rest"
    by (cases cs) (auto simp: outcome_simps)
  from decode_of_encode [OF assms(1-3) fr] Cons.IH [OF rest] frames show ?case
    by (cases cs) simp_all
qed

section \<open>Properties\<close>

text \<open>
  The frame codec is a bijection between the well-typed frames that fit the payload budget and
  the byte strings that decode to one: a byte string decodes to a frame within the budget exactly
  when that frame has a known type and encodes to the byte string. No information is lost in either
  direction, and the stream id survives at its full 32 bit width.
\<close>

theorem tunnel_frame_roundtrip:
  "decodeTunnelFrame frame = Inr f \<and> length (payload f) \<le> MAX_TUNNEL_PAYLOAD_BYTES \<longleftrightarrow>
   isTunnelFrameType (frameType f) \<and>
   encodeTunnelFrame (frameType f) (JInt (int (streamId f))) (payload f) (hasMoreFragments f) = Inr frame"
  (is "?dec \<longleftrightarrow> ?enc")
proof
  assume ?dec
  then show ?enc using encode_of_decode [of frame f] by simp
next
  assume enc: ?enc
  then have "int (streamId f) \<le> MAX_STREAM_ID" "length (payload f) \<le> MAX_TUNNEL_PAYLOAD_BYTES"
    by (auto simp: encodeTunnelFrame_def split: if_splits)
  with enc show ?dec
    using decode_of_encode [of "frameType f" "int (streamId f)" "payload f" "hasMoreFragments f" frame]
    by simp
qed

text \<open>
  Fragmentation and reassembly are inverse: the frames of one logical message, decoded and
  pushed into an assembler that holds nothing for that stream and type, yield null for every
  fragment but the last, the whole message for the last one, and leave the assembler as it was.
\<close>

theorem fragment_roundtrip:
  assumes "isTunnelFrameType t" "0 \<le> s" "s \<le> MAX_STREAM_ID" "length pl \<le> limit"
    and "pend (fragment_key (nat s) t) = None"
    and "encodeFragmentedMessage t (JInt s) pl = Inr frames"
  shows "\<exists>fs. map decodeTunnelFrame frames = map Inr fs \<and>
    push_all limit pend fs = (pend, replicate (length fs - 1) (Inr None) @ [Inr (Some pl)])"
proof -
  from assms(6) obtain cs where cs: "chunkPayload pl (int MAX_TUNNEL_PAYLOAD_BYTES) = Inr cs"
    and fr: "ocollect (map (\<lambda>(i, c). encodeTunnelFrame t (JInt s) c (i < 0 + length cs - 1))
           (List.enumerate 0 cs)) = Inr frames"
    by (auto simp: encodeFragmentedMessage_def outcome_simps)
  note decoded = encode_fragments [OF assms(1-3) fr]
  have "length (fragments t (nat s) cs) = length cs"
    by (induction t "nat s" cs rule: fragments.induct) auto
  moreover have "sum_list (map length cs) = length pl"
    using chunkPayload_Inr(1) [OF cs] by (metis length_concat)
  ultimately have "push_all limit pend (fragments t (nat s) cs) =
      (pend, replicate (length (fragments t (nat s) cs) - 1) (Inr None) @ [Inr (Some pl)])"
    using push_all_fragments [of cs pend "nat s" t "[]" 0 limit] chunkPayload_Inr(1,2) [OF cs] assms(4,5)
    by (simp add: fun_upd_idem)
  with decoded show ?thesis by blast
qed
theorem fragment_roundtrip_witness:
  "\<exists>fs. map decodeTunnelFrame [[8, 0, 0, 0, 3, 104, 105]] = map Inr fs \<and>
    push_all 100 Map.empty fs =
      (Map.empty, replicate (length fs - 1) (Inr None) @ [Inr (Some [104, 105])])"
proof (rule fragment_roundtrip [of 8 3])
  show "encodeFragmentedMessage 8 (JInt 3) [104, 105] = Inr [[8, 0, 0, 0, 3, 104, 105]]"
    by (simp add: encodeFragmentedMessage_def chunkPayload_def tunnel_constants chunk_loop.simps
        slice_def encodeTunnelFrame_def be32_def)
qed (simp_all add: isTunnelFrameType_def TunnelFrameType_values_def MAX_STREAM_ID_def)

text \<open>
  The assembler demultiplexes: whatever frames of other streams and types are interleaved with
  them, the results for the frames of one key, and the fragments left pending for it, are those the
  key's frames give on their own.
\<close>

theorem assembler_demultiplexes:
  "map snd (filter (\<lambda>(f, r). fragment_key (streamId f) (frameType f) = k)
      (zip frames (snd (push_all limit pend frames)))) =
     snd (push_all limit pend (filter (\<lambda>f. fragment_key (streamId f) (frameType f) = k) frames))
   \<and> fst (push_all limit pend frames) k =
     fst (push_all limit pend (filter (\<lambda>f. fragment_key (streamId f) (frameType f) = k) frames)) k"
  by (rule push_all_demux) (rule refl)

text \<open>
  Dropping a stream forgets exactly that stream's pending fragments, of every frame type, and
  nothing of any other stream, although the code compares decimal string prefixes.
\<close>

theorem dropStream_exact:
  "dropStream sid pend (fragment_key s t) = (if s = sid then None else pend (fragment_key s t))"
  by (simp add: dropStream_def fragment_key_stream)

text \<open>
  The batch envelope round trips: an encoded batch fits one encrypted plaintext and decodes to
  the frames it was made of, in order.
\<close>

theorem frame_batch_roundtrip:
  assumes "encodeFrameBatch frames = Inr plaintext"
  shows "decodeFrameBatch plaintext = Inr frames \<and> length plaintext \<le> MAX_PLAINTEXT_FRAME_BYTES"
  using decode_encodeFrameBatch [OF assms] encodeFrameBatch_size [OF assms] by (rule conjI)

theorem frame_batch_roundtrip_witness:
  "decodeFrameBatch [1, 0, 0, 0, 2, 9, 7, 0, 0, 0, 1, 5] = Inr [[9, 7], [5]] \<and>
   length ([1, 0, 0, 0, 2, 9, 7, 0, 0, 0, 1, 5] :: bytes) \<le> MAX_PLAINTEXT_FRAME_BYTES"
  by (rule frame_batch_roundtrip) (simp add: encodeFrameBatch_def tunnel_constants be32_def)

text \<open>
  The assembler's memory is bounded: starting from entries whose byte counts are exact and
  within the limit, every push keeps them so, whatever frame arrives.
\<close>

theorem assembler_bounded:
  assumes "pending_ok limit pend"
  shows "pending_ok limit (fst (push_all limit pend frames))"
  using assms
proof (induction frames arbitrary: pend)
  case Nil
  then show ?case by simp
next
  case (Cons f fs)
  from Cons.IH [OF push_ok [OF Cons.prems]] show ?case
    by (simp add: Let_def split_beta)
qed

theorem assembler_bounded_witness:
  "pending_ok 3 (fst (push_all 3 Map.empty
     [\<lparr>frameType = 8, streamId = 1, payload = [1, 2], hasMoreFragments = True\<rparr>,
      \<lparr>frameType = 8, streamId = 1, payload = [3, 4], hasMoreFragments = True\<rparr>]))"
  by (rule assembler_bounded) (simp add: pending_ok_def)

end
