(* ===== verification/Frame_Batcher.thy ===== *)
theory Frame_Batcher
  imports Tunnel_Codec
begin

unbundle bit_operations_syntax

text \<open>
  The outbound frame batcher of
  \<^verbatim>\<open>src/packages/web/application-host/lib/relay/tunnel-codec.ts\<close>, \<open>createOutboundFrameBatcher\<close>.

  The closure's variables are the record \<open>batcher\<close>. Every operation returns the new state, the
  plaintexts handed to \<open>sendBatch\<close> in order, and the error that escaped it, if any: a throw inside
  \<open>flush\<close> happens after the buffer was already emptied, and the state says so. The clock is read up
  to three times in one call of \<open>enqueue\<close> (\<open>at\<close>, then once per flush), so the readings are three
  arguments. The pending timer is a flag: \<open>setTimer\<close> arms it, \<open>clearTimer\<close> disarms it, and the
  event \<open>Timer_Fires\<close> may happen only while it is armed.
\<close>

section \<open>State and operations\<close>

record batcher =
  buffer :: "bytes list"
  bufferedBytes :: nat
  timer :: bool
  lastFlushAt :: int
  batcher_disposed :: bool

record batcher_options =
  windowMs :: int
  maxBatchBytes :: int
  maxBatchFrames :: int

type_synonym batcher_result = "batcher \<times> bytes list \<times> tunnel_error option"

definition DEFAULT_BATCHER_OPTIONS :: batcher_options where
  "DEFAULT_BATCHER_OPTIONS = \<lparr>windowMs = 150, maxBatchBytes = 24 * 1024, maxBatchFrames = 32\<rparr>"

text \<open>\<open>HttpBody\<close>, \<open>WsText\<close> and \<open>WsBinary\<close>.\<close>

definition BUFFERED_FRAME_TYPES :: "int list" where
  "BUFFERED_FRAME_TYPES = [2, 8, 9]"

definition createOutboundFrameBatcher :: batcher where
  "createOutboundFrameBatcher =
     \<lparr>buffer = [], bufferedBytes = 0, timer = False, lastFlushAt = 0, batcher_disposed = False\<rparr>"

definition clearPendingTimer :: "batcher \<Rightarrow> batcher" where
  "clearPendingTimer s = (if timer s then s\<lparr>timer := False\<rparr> else s)"

definition flush :: "int \<Rightarrow> batcher \<Rightarrow> batcher_result" where
  "flush now s =
     (let s = clearPendingTimer s
      in if buffer s = [] then (s, [], None)
         else
           let frames = buffer s;
               s = s\<lparr>buffer := [], bufferedBytes := 0, lastFlushAt := now\<rparr>
           in case encodeFrameBatch frames of
                Inl e \<Rightarrow> (s, [], Some e)
              | Inr plaintext \<Rightarrow> (s, [plaintext], None))"

definition is_buffered_frame :: "bytes \<Rightarrow> bool" where
  "is_buffered_frame frame \<longleftrightarrow>
     uint (byte_at frame 0 AND NOT TUNNEL_FRAGMENT_FLAG) \<in> set BUFFERED_FRAME_TYPES"

definition enqueue :: "batcher_options \<Rightarrow> int \<Rightarrow> int \<Rightarrow> int \<Rightarrow> bytes \<Rightarrow> batcher \<Rightarrow> batcher_result" where
  "enqueue opts at now1 now2 frame s =
     (if batcher_disposed s then (s, [], None)
      else if \<not> is_buffered_frame frame then flush now1 (s\<lparr>buffer := buffer s @ [frame]\<rparr>)
      else if buffer s = [] \<and> at - lastFlushAt s \<ge> windowMs opts
        then flush now1 (s\<lparr>buffer := buffer s @ [frame]\<rparr>)
      else
        let frameCost = BATCH_FRAME_LENGTH_BYTES + length frame;
            (s1, sent1, err1) =
              (if buffer s \<noteq> [] \<and> 1 + bufferedBytes s + frameCost > MAX_PLAINTEXT_FRAME_BYTES
               then flush now1 s else (s, [], None))
        in case err1 of
             Some e \<Rightarrow> (s1, sent1, Some e)
           | None \<Rightarrow>
               let s2 = s1\<lparr>buffer := buffer s1 @ [frame], bufferedBytes := bufferedBytes s1 + frameCost\<rparr>
               in if int (bufferedBytes s2) \<ge> maxBatchBytes opts \<or>
                     int (length (buffer s2)) \<ge> maxBatchFrames opts
                  then let (s3, sent2, err2) = flush now2 s2 in (s3, sent1 @ sent2, err2)
                  else (if timer s2 then s2 else s2\<lparr>timer := True\<rparr>, sent1, None))"

definition batcher_dispose :: "batcher \<Rightarrow> batcher" where
  "batcher_dispose s =
     (clearPendingTimer (s\<lparr>batcher_disposed := True\<rparr>))\<lparr>buffer := [], bufferedBytes := 0\<rparr>"

section \<open>Runs\<close>

text \<open>
  A history of the batcher: what its user and the timer do. \<open>batcher_run\<close> returns the final state,
  everything sent, the errors thrown and the frames accepted, in order.
\<close>

datatype batcher_event = Enqueue int int int bytes | Timer_Fires int | Flush int

definition batcher_step :: "batcher_options \<Rightarrow> batcher \<Rightarrow> batcher_event \<Rightarrow> batcher_result" where
  "batcher_step opts s ev =
     (case ev of
        Enqueue at n1 n2 frame \<Rightarrow> enqueue opts at n1 n2 frame s
      | Timer_Fires now \<Rightarrow> if timer s then flush now s else (s, [], None)
      | Flush now \<Rightarrow> flush now s)"

fun batcher_run :: "batcher_options \<Rightarrow> batcher \<Rightarrow> batcher_event list \<Rightarrow> batcher \<times> bytes list \<times> tunnel_error list" where
  "batcher_run opts s [] = (s, [], [])"
| "batcher_run opts s (ev # evs) =
     (let (s1, sent, err) = batcher_step opts s ev;
          (s2, sents, errs) = batcher_run opts s1 evs
      in (s2, sent @ sents, (case err of None \<Rightarrow> errs | Some e \<Rightarrow> e # errs)))"

fun enqueued :: "batcher_event list \<Rightarrow> bytes list" where
  "enqueued [] = []"
| "enqueued (Enqueue at n1 n2 frame # evs) = frame # enqueued evs"
| "enqueued (ev # evs) = enqueued evs"

fun unpack :: "bytes list \<Rightarrow> bytes list" where
  "unpack [] = []"
| "unpack (p # ps) = (case decodeFrameBatch p of Inl e \<Rightarrow> [] | Inr fs \<Rightarrow> fs) @ unpack ps"

text \<open>
  The invariant: the byte estimate is exact, the buffer fits a batch, and a non-empty buffer of a
  live batcher always has its timer armed, so nothing waits for ever.
\<close>

definition batcher_ok :: "batcher_options \<Rightarrow> batcher \<Rightarrow> bool" where
  "batcher_ok opts s \<longleftrightarrow>
     bufferedBytes s = batch_total (buffer s) \<and>
     1 + batch_total (buffer s) \<le> MAX_PLAINTEXT_FRAME_BYTES \<and>
     (buffer s \<noteq> [] \<longrightarrow> timer s \<and> int (bufferedBytes s) < maxBatchBytes opts \<and>
                        int (length (buffer s)) < maxBatchFrames opts)"

definition legal_frame :: "bytes \<Rightarrow> bool" where
  "legal_frame frame \<longleftrightarrow> length frame \<le> TUNNEL_FRAME_HEADER_BYTES + MAX_TUNNEL_PAYLOAD_BYTES"

text \<open>
  Frames that flush at once join whatever is buffered, so they must leave room for it: this is what
  the code needs and does not check.
\<close>

definition roomy_frame :: "batcher_options \<Rightarrow> bytes \<Rightarrow> bool" where
  "roomy_frame opts frame \<longleftrightarrow>
     legal_frame frame \<and>
     (\<not> is_buffered_frame frame \<longrightarrow>
        int (length frame) + maxBatchBytes opts + 4 \<le> int MAX_PLAINTEXT_FRAME_BYTES)"

definition roomy_event :: "batcher_options \<Rightarrow> batcher_event \<Rightarrow> bool" where
  "roomy_event opts ev \<longleftrightarrow> (case ev of Enqueue at n1 n2 frame \<Rightarrow> roomy_frame opts frame | _ \<Rightarrow> True)"

text \<open>What one operation must achieve: no error, the invariant, and nothing lost or reordered.\<close>

definition step_good :: "batcher_options \<Rightarrow> batcher \<Rightarrow> bytes list \<Rightarrow> batcher_result \<Rightarrow> bool" where
  "step_good opts s new r \<longleftrightarrow>
     (case r of (s', sent, err) \<Rightarrow>
        err = None \<and> batcher_ok opts s' \<and> batcher_disposed s' = batcher_disposed s \<and>
        unpack sent @ buffer s' = buffer s @ new)"

section \<open>Lemmas\<close>

lemma batch_total_append [simp]: "batch_total (xs @ ys) = batch_total xs + batch_total ys"
  by (induction xs) auto

lemma encodeFrameBatch_fits:
  "fs \<noteq> [] \<Longrightarrow> 1 + batch_total fs \<le> MAX_PLAINTEXT_FRAME_BYTES \<Longrightarrow> \<exists>p. encodeFrameBatch fs = Inr p"
  by (auto simp: encodeFrameBatch_def BATCH_FRAME_LENGTH_BYTES_def split: list.splits)

lemma unpack_append [simp]: "unpack (xs @ ys) = unpack xs @ unpack ys"
  by (induction xs) auto

lemma flush_fits:
  assumes "1 + batch_total (buffer s) \<le> MAX_PLAINTEXT_FRAME_BYTES"
  obtains s' sent where "flush now s = (s', sent, None)" "buffer s' = []" "unpack sent = buffer s"
    "\<not> timer s'" "batcher_disposed s' = batcher_disposed s"
    "bufferedBytes s' = (if buffer s = [] then bufferedBytes s else 0)"
proof (cases "buffer s = []")
  case True
  show ?thesis
    by (rule that [of "clearPendingTimer s" "[]"]) (auto simp: flush_def clearPendingTimer_def True)
next
  case False
  with encodeFrameBatch_fits [of "buffer s"] assms obtain p where p: "encodeFrameBatch (buffer s) = Inr p"
    by blast
  show ?thesis
    by (rule that [of "(clearPendingTimer s)\<lparr>buffer := [], bufferedBytes := 0, lastFlushAt := now\<rparr>" "[p]"])
      (use False p in \<open>auto simp: flush_def clearPendingTimer_def decode_encodeFrameBatch\<close>)
qed

lemma flush_good:
  assumes "buffer s = buffer s0 @ new" "batcher_disposed s = batcher_disposed s0"
    and "1 + batch_total (buffer s) \<le> MAX_PLAINTEXT_FRAME_BYTES"
    and "buffer s = [] \<Longrightarrow> bufferedBytes s = 0"
  shows "step_good opts s0 new (flush now s)"
proof -
  obtain s' sent where "flush now s = (s', sent, None)" "buffer s' = []" "unpack sent = buffer s"
    "batcher_disposed s' = batcher_disposed s"
    "bufferedBytes s' = (if buffer s = [] then bufferedBytes s else 0)"
    using assms(3) by (rule flush_fits [of s now]) blast
  with assms show ?thesis
    by (simp add: step_good_def batcher_ok_def MAX_PLAINTEXT_FRAME_BYTES_def)
qed

lemma legal_fits: "legal_frame frame \<Longrightarrow> 1 + batch_total [frame] \<le> MAX_PLAINTEXT_FRAME_BYTES"
  by (simp add: legal_frame_def tunnel_constants)

lemma enqueue_good:
  assumes ok: "batcher_ok opts s" and roomy: "roomy_frame opts frame" and live: "\<not> batcher_disposed s"
  shows "step_good opts s [frame] (enqueue opts at now1 now2 frame s)"
proof -
  from roomy have legal: "legal_frame frame" by (simp add: roomy_frame_def)
  note fit = legal_fits [OF legal]
  consider (immediate) "\<not> is_buffered_frame frame"
    | (leading) "is_buffered_frame frame" "buffer s = []" "at - lastFlushAt s \<ge> windowMs opts"
    | (trailing) "is_buffered_frame frame" "\<not> (buffer s = [] \<and> at - lastFlushAt s \<ge> windowMs opts)"
    by blast
  then show ?thesis
  proof cases
    case immediate
    have "1 + batch_total (buffer s @ [frame]) \<le> MAX_PLAINTEXT_FRAME_BYTES"
      using immediate roomy ok fit
      by (cases "buffer s = []") (auto simp: roomy_frame_def batcher_ok_def BATCH_FRAME_LENGTH_BYTES_def)
    with immediate live show ?thesis
      by (simp add: enqueue_def) (rule flush_good, auto)
  next
    case leading
    with fit live show ?thesis
      by (simp add: enqueue_def) (rule flush_good, auto)
  next
    case trailing
    let ?cost = "4 + length frame"
    let ?over = "buffer s \<noteq> [] \<and> 1 + bufferedBytes s + ?cost > MAX_PLAINTEXT_FRAME_BYTES"
    obtain s1 sent1 where s1: "(if ?over then flush now1 s else (s, [], None)) = (s1, sent1, None)"
      and b1: "unpack sent1 @ buffer s1 = buffer s" "batcher_disposed s1 = batcher_disposed s"
        "bufferedBytes s1 = batch_total (buffer s1)"
        "1 + batch_total (buffer s1 @ [frame]) \<le> MAX_PLAINTEXT_FRAME_BYTES"
    proof (cases ?over)
      case True
      from ok have "1 + batch_total (buffer s) \<le> MAX_PLAINTEXT_FRAME_BYTES"
        by (simp add: batcher_ok_def)
      then obtain s' sent where "flush now1 s = (s', sent, None)" "buffer s' = []" "unpack sent = buffer s"
        "batcher_disposed s' = batcher_disposed s"
        "bufferedBytes s' = (if buffer s = [] then bufferedBytes s else 0)"
        by (rule flush_fits [of s now1]) blast
      with True fit show ?thesis by (intro that [of s' sent]) auto
    next
      case False
      with ok fit show ?thesis
        by (intro that [of s "[]"]) (auto simp: batcher_ok_def BATCH_FRAME_LENGTH_BYTES_def)
    qed
    let ?s2 = "s1\<lparr>buffer := buffer s1 @ [frame], bufferedBytes := bufferedBytes s1 + ?cost\<rparr>"
    let ?full = "int (bufferedBytes ?s2) \<ge> maxBatchBytes opts \<or> int (length (buffer ?s2)) \<ge> maxBatchFrames opts"
    have enq: "enqueue opts at now1 now2 frame s =
        (if ?full then let (s3, sent2, err2) = flush now2 ?s2 in (s3, sent1 @ sent2, err2)
         else (if timer ?s2 then ?s2 else ?s2\<lparr>timer := True\<rparr>, sent1, None))"
      using trailing live s1 by (auto simp: enqueue_def Let_def BATCH_FRAME_LENGTH_BYTES_def)
    show ?thesis
    proof (cases ?full)
      case True
      have "1 + batch_total (buffer ?s2) \<le> MAX_PLAINTEXT_FRAME_BYTES"
        using b1(4) by simp
      then obtain s3 sent2 where "flush now2 ?s2 = (s3, sent2, None)" "buffer s3 = []"
        "unpack sent2 = buffer ?s2" "batcher_disposed s3 = batcher_disposed ?s2"
        "bufferedBytes s3 = (if buffer ?s2 = [] then bufferedBytes ?s2 else 0)"
        by (rule flush_fits [of ?s2 now2]) blast
      with True enq b1 show ?thesis
        by (auto simp: step_good_def batcher_ok_def MAX_PLAINTEXT_FRAME_BYTES_def)
    next
      case False
      with enq b1 show ?thesis
        by (auto simp: step_good_def batcher_ok_def BATCH_FRAME_LENGTH_BYTES_def)
    qed
  qed
qed

lemma batcher_step_good:
  assumes "batcher_ok opts s" "roomy_event opts ev" "\<not> batcher_disposed s"
  shows "step_good opts s (enqueued [ev]) (batcher_step opts s ev)"
proof (cases ev)
  case (Enqueue at n1 n2 frame)
  with assms enqueue_good show ?thesis by (simp add: batcher_step_def roomy_event_def)
next
  case (Timer_Fires now)
  then show ?thesis
    using assms flush_good [of s s "[]" opts now]
    by (auto simp: batcher_step_def batcher_ok_def step_good_def)
next
  case (Flush now)
  then show ?thesis
    using assms flush_good [of s s "[]" opts now] by (auto simp: batcher_step_def batcher_ok_def)
qed

lemma batcher_run_good:
  assumes "batcher_ok opts s" "\<forall>ev \<in> set evs. roomy_event opts ev" "\<not> batcher_disposed s"
  shows "\<exists>s' sent. batcher_run opts s evs = (s', sent, []) \<and> batcher_ok opts s' \<and>
    unpack sent @ buffer s' = buffer s @ enqueued evs"
  using assms
proof (induction evs arbitrary: s)
  case Nil
  then show ?case by simp
next
  case (Cons ev evs)
  obtain s1 sent1 where st: "batcher_step opts s ev = (s1, sent1, None)" and ok: "batcher_ok opts s1"
    "\<not> batcher_disposed s1" and un: "unpack sent1 @ buffer s1 = buffer s @ enqueued [ev]"
    using batcher_step_good [of opts s ev] Cons.prems by (auto simp: step_good_def split: prod.splits)
  obtain s2 sent2 where "batcher_run opts s1 evs = (s2, sent2, [])" "batcher_ok opts s2"
    "unpack sent2 @ buffer s2 = buffer s1 @ enqueued evs"
    using Cons.IH [OF ok(1) _ ok(2)] Cons.prems by auto
  moreover have "enqueued (ev # evs) = enqueued [ev] @ enqueued evs" by (cases ev) auto
  ultimately show ?case using st un by auto
qed
section \<open>Properties\<close>

text \<open>
  The batcher neither loses, duplicates nor reorders frames: over any history of enqueues, timer
  expiries and explicit flushes of a live batcher whose immediate frames leave room for the buffer,
  no operation throws, and the frames in the sent batches followed by the frames still buffered are
  exactly the enqueued frames in order. The invariant (exact byte count, a batch that fits, an armed
  timer for a non-empty buffer) holds at the end.
\<close>

theorem batcher_preserves_stream:
  assumes "\<forall>ev \<in> set evs. roomy_event opts ev"
  shows "\<exists>s sent. batcher_run opts createOutboundFrameBatcher evs = (s, sent, []) \<and>
    batcher_ok opts s \<and> unpack sent @ buffer s = enqueued evs"
proof -
  have "batcher_ok opts createOutboundFrameBatcher"
    by (simp add: batcher_ok_def createOutboundFrameBatcher_def MAX_PLAINTEXT_FRAME_BYTES_def)
  then show ?thesis
    using batcher_run_good [OF _ assms, of createOutboundFrameBatcher]
    by (simp add: createOutboundFrameBatcher_def)
qed

theorem batcher_preserves_stream_witness:
  "\<exists>s sent. batcher_run DEFAULT_BATCHER_OPTIONS createOutboundFrameBatcher
      [Enqueue 1000 1000 1000 [2, 0, 0, 0, 1, 65], Enqueue 1010 1010 1010 [2, 0, 0, 0, 1, 66],
       Enqueue 1020 1020 1020 [4, 0, 0, 0, 1], Timer_Fires 1200] = (s, sent, []) \<and>
    batcher_ok DEFAULT_BATCHER_OPTIONS s \<and>
    unpack sent @ buffer s = [[2, 0, 0, 0, 1, 65], [2, 0, 0, 0, 1, 66], [4, 0, 0, 0, 1]]"
  using batcher_preserves_stream [of "[Enqueue 1000 1000 1000 [2, 0, 0, 0, 1, 65],
      Enqueue 1010 1010 1010 [2, 0, 0, 0, 1, 66], Enqueue 1020 1020 1020 [4, 0, 0, 0, 1],
      Timer_Fires 1200]" DEFAULT_BATCHER_OPTIONS]
  by (simp add: roomy_event_def roomy_frame_def legal_frame_def DEFAULT_BATCHER_OPTIONS_def
      tunnel_constants)

text \<open>
  Without that room the stream breaks: when an immediate frame meets a buffer it does not fit
  with, \<open>enqueue\<close> throws, nothing is sent, and the buffered body frames are gone. The witness shows
  it with the default options, a legal body frame and a legal control frame.
\<close>

theorem immediate_frame_overflow_drops_buffer:
  assumes "\<not> batcher_disposed s" "buffer s \<noteq> []" "\<not> is_buffered_frame frame"
    and "1 + batch_total (buffer s @ [frame]) > MAX_PLAINTEXT_FRAME_BYTES"
  shows "\<exists>s'. enqueue opts at now1 now2 frame s = (s', [], Some BatchTooLarge) \<and> buffer s' = []"
proof -
  obtain f g fs where two: "buffer s @ [frame] = f # g # fs"
    using assms(2) by (cases "buffer s"; cases "tl (buffer s)") auto
  have "encodeFrameBatch (buffer s @ [frame]) = Inl BatchTooLarge"
    using assms(4) unfolding two by (simp add: encodeFrameBatch_def)
  with assms(1,3) show ?thesis
    by (auto simp: enqueue_def flush_def clearPendingTimer_def Let_def)
qed

theorem immediate_frame_overflow_drops_buffer_witness:
  "let body = 2 # replicate 20000 0; control = 1 # replicate 60000 0;
       s = fst (enqueue DEFAULT_BATCHER_OPTIONS 10 10 10 body createOutboundFrameBatcher)
   in legal_frame body \<and> legal_frame control \<and> buffer s = [body] \<and>
      (\<exists>s'. enqueue DEFAULT_BATCHER_OPTIONS 20 20 20 control s = (s', [], Some BatchTooLarge) \<and>
            buffer s' = [])"
proof -
  let ?body = "2 # replicate 20000 0 :: bytes" and ?control = "1 # replicate 60000 0 :: bytes"
  let ?s = "fst (enqueue DEFAULT_BATCHER_OPTIONS 10 10 10 ?body createOutboundFrameBatcher)"
  have b: "is_buffered_frame ?body" "\<not> is_buffered_frame ?control"
    by (simp_all add: is_buffered_frame_def byte_at_def TUNNEL_FRAGMENT_FLAG_def BUFFERED_FRAME_TYPES_def)
  have s: "buffer ?s = [?body]" "\<not> batcher_disposed ?s"
    using b(1) by (simp_all add: enqueue_def createOutboundFrameBatcher_def DEFAULT_BATCHER_OPTIONS_def
        Let_def BATCH_FRAME_LENGTH_BYTES_def)
  have "\<exists>s'. enqueue DEFAULT_BATCHER_OPTIONS 20 20 20 ?control ?s = (s', [], Some BatchTooLarge) \<and>
      buffer s' = []"
    by (rule immediate_frame_overflow_drops_buffer)
      (use b s in \<open>simp_all add: tunnel_constants\<close>)
  with s show ?thesis
    by (simp add: Let_def legal_frame_def tunnel_constants)
qed

end
