(* ===== verification/Tunnel_Client.thy ===== *)
theory Tunnel_Client
  imports Tunnel_Codec
begin

unbundle bit_operations_syntax

text \<open>
  The client side of the tunnel codec, \<^verbatim>\<open>src/packages/ui/src/lib/relay/tunnel-codec.ts\<close>, whose
  comment in the host file says the two must stay byte-compatible.

  It is modelled on its own, closer to the machine than the host's model: the frame types are the
  constructors of the protocol's table, arrays are allocated zero-filled and written by index and by
  \<open>set\<close>, and loops accumulate with \<open>push\<close>. The theorems show that both models compute the same bytes.
\<close>

section \<open>Data and operations\<close>

datatype TunnelFrameType =
    HttpRequest | HttpBody | HttpResponse | StreamEnd | StreamAbort | WsOpen
  | WsOpened | WsText | WsBinary | WsClose | Ping | Pong

definition TunnelFrameTypes :: "(TunnelFrameType \<times> int) list" where
  "TunnelFrameTypes =
     [(HttpRequest, 1), (HttpBody, 2), (HttpResponse, 3), (StreamEnd, 4), (StreamAbort, 5), (WsOpen, 6),
      (WsOpened, 7), (WsText, 8), (WsBinary, 9), (WsClose, 10), (Ping, 11), (Pong, 12)]"

fun type_value :: "TunnelFrameType \<Rightarrow> int" where
  "type_value HttpRequest = 1" | "type_value HttpBody = 2" | "type_value HttpResponse = 3"
| "type_value StreamEnd = 4" | "type_value StreamAbort = 5" | "type_value WsOpen = 6"
| "type_value WsOpened = 7" | "type_value WsText = 8" | "type_value WsBinary = 9"
| "type_value WsClose = 10" | "type_value Ping = 11" | "type_value Pong = 12"

record ClientFrame =
  cf_frameType :: TunnelFrameType
  cf_streamId :: nat
  cf_payload :: bytes
  cf_hasMoreFragments :: bool

text \<open>The four stores \<open>a[i] = (n >>> 24) & 0xff\<close>, \<dots>, \<open>a[i + 3] = n & 0xff\<close>.\<close>

definition store_be32 :: "bytes \<Rightarrow> nat \<Rightarrow> 32 word \<Rightarrow> bytes" where
  "store_be32 a i n =
     a[i := ucast (drop_bit 24 n AND 0xff), i + 1 := ucast (drop_bit 16 n AND 0xff),
       i + 2 := ucast (drop_bit 8 n AND 0xff), i + 3 := ucast (n AND 0xff)]"

definition client_encodeTunnelFrame ::
  "TunnelFrameType \<Rightarrow> jsnum \<Rightarrow> bytes \<Rightarrow> bool \<Rightarrow> (tunnel_error, bytes) outcome" where
  "client_encodeTunnelFrame ft sid pl hasMore =
     (case sid of
        JNonInt \<Rightarrow> Inl InvalidStreamId
      | JInt s \<Rightarrow>
          if s < 0 \<or> s > MAX_STREAM_ID then Inl InvalidStreamId
          else if length pl > MAX_TUNNEL_PAYLOAD_BYTES then Inl PayloadTooLarge
          else
            let frame = replicate (TUNNEL_FRAME_HEADER_BYTES + length pl) 0;
                frame = frame[0 := (if hasMore then word_of_int (type_value ft) OR TUNNEL_FRAGMENT_FLAG
                                    else word_of_int (type_value ft))];
                frame = store_be32 frame 1 (word_of_int s)
            in Inr (place frame pl TUNNEL_FRAME_HEADER_BYTES))"

definition client_isTunnelFrameType :: "int \<Rightarrow> TunnelFrameType option" where
  "client_isTunnelFrameType v = map_of (map prod.swap TunnelFrameTypes) v"

definition client_decodeTunnelFrame :: "bytes \<Rightarrow> (tunnel_error, ClientFrame) outcome" where
  "client_decodeTunnelFrame frame =
     (if length frame < TUNNEL_FRAME_HEADER_BYTES then Inl FrameTooShort
      else
        let rawType = frame ! 0;
            ft = uint (rawType AND NOT TUNNEL_FRAGMENT_FLAG)
        in case client_isTunnelFrameType ft of
             None \<Rightarrow> Inl (UnknownFrameType ft)
           | Some t \<Rightarrow>
               Inr \<lparr>cf_frameType = t,
                    cf_streamId = unat (of_be32 (frame ! 1) (frame ! 2) (frame ! 3) (frame ! 4)),
                    cf_payload = drop TUNNEL_FRAME_HEADER_BYTES frame,
                    cf_hasMoreFragments = (rawType AND TUNNEL_FRAGMENT_FLAG \<noteq> 0)\<rparr>)"

function client_chunk_loop :: "bytes \<Rightarrow> nat \<Rightarrow> nat \<Rightarrow> bytes list \<Rightarrow> bytes list" where
  "client_chunk_loop bs chunkSize offset acc =
     (if offset < length bs \<and> 0 < chunkSize
      then client_chunk_loop bs chunkSize (offset + chunkSize) (acc @ [slice bs offset (offset + chunkSize)])
      else acc)"
  by pat_completeness auto
termination
  by (relation "measure (\<lambda>(bs, n, off, acc). length bs - off)") auto

declare client_chunk_loop.simps [simp del]

definition client_chunkPayload :: "bytes \<Rightarrow> int \<Rightarrow> (tunnel_error, bytes list) outcome" where
  "client_chunkPayload bs chunkSize =
     (if chunkSize \<le> 0 \<or> chunkSize > int MAX_TUNNEL_PAYLOAD_BYTES then Inl InvalidChunkSize
      else if length bs = 0 then Inr [[]]
      else Inr (client_chunk_loop bs (nat chunkSize) 0 []))"

definition client_encodeFragmentedMessage ::
  "TunnelFrameType \<Rightarrow> jsnum \<Rightarrow> bytes \<Rightarrow> (tunnel_error, bytes list) outcome" where
  "client_encodeFragmentedMessage ft sid pl =
     obind (client_chunkPayload pl (int MAX_TUNNEL_PAYLOAD_BYTES))
       (\<lambda>cs. ocollect (map (\<lambda>(index, chunk). client_encodeTunnelFrame ft sid chunk (index < length cs - 1))
                        (List.enumerate 0 cs)))"

fun store_frames :: "bytes \<Rightarrow> nat \<Rightarrow> bytes list \<Rightarrow> bytes" where
  "store_frames out offset [] = out"
| "store_frames out offset (f # fs) =
     (let out = store_be32 out offset (word_of_nat (length f));
          offset = offset + BATCH_FRAME_LENGTH_BYTES;
          out = place out f offset
      in store_frames out (offset + length f) fs)"

definition client_encodeFrameBatch :: "bytes list \<Rightarrow> (tunnel_error, bytes) outcome" where
  "client_encodeFrameBatch frames =
     (if length frames = 0 then Inl EmptyBatch
      else if length frames = 1 then
        let out = place ((replicate (1 + length (frames ! 0)) 0)[0 := BATCH_CONTAINER_TAG_SINGLE]) (frames ! 0) 1
        in if length out > MAX_PLAINTEXT_FRAME_BYTES then Inl BatchTooLarge else Inr out
      else
        let total = foldl (\<lambda>total f. total + (BATCH_FRAME_LENGTH_BYTES + length f)) 1 frames
        in if total > MAX_PLAINTEXT_FRAME_BYTES then Inl BatchTooLarge
           else Inr (store_frames ((replicate total 0)[0 := BATCH_CONTAINER_TAG_BATCH]) 1 frames))"

function client_decode_loop :: "bytes \<Rightarrow> nat \<Rightarrow> bytes list \<Rightarrow> (tunnel_error, bytes list) outcome" where
  "client_decode_loop plaintext offset frames =
     (if offset < length plaintext then
        (if offset + BATCH_FRAME_LENGTH_BYTES > length plaintext then Inl TruncatedLength
         else
           let len = unat (of_be32 (plaintext ! offset) (plaintext ! (offset + 1))
                             (plaintext ! (offset + 2)) (plaintext ! (offset + 3)));
               offset' = offset + BATCH_FRAME_LENGTH_BYTES
           in if offset' + len > length plaintext then Inl TruncatedBody
              else client_decode_loop plaintext (offset' + len)
                     (frames @ [slice plaintext offset' (offset' + len)]))
      else Inr frames)"
  by pat_completeness auto
termination
  by (relation "measure (\<lambda>(p, off, fs). length p - off)") (auto simp: BATCH_FRAME_LENGTH_BYTES_def)

declare client_decode_loop.simps [simp del]

definition client_decodeFrameBatch :: "bytes \<Rightarrow> (tunnel_error, bytes list) outcome" where
  "client_decodeFrameBatch plaintext =
     (if length plaintext < 1 then Inl EmptyPlaintext
      else
        let tag = plaintext ! 0
        in if tag = BATCH_CONTAINER_TAG_SINGLE then Inr [drop 1 plaintext]
           else if tag \<noteq> BATCH_CONTAINER_TAG_BATCH then Inl (UnknownContainerTag (uint tag))
           else obind (client_decode_loop plaintext 1 [])
                  (\<lambda>frames. if length frames = 0 then Inl EmptyFrameBatch else Inr frames))"

text \<open>\<open>createStreamIdAllocator\<close>: the counter \<open>next\<close> is the state.\<close>

definition allocator_start :: int where
  "allocator_start = 1"

definition allocator_next :: "int \<Rightarrow> int \<times> (tunnel_error, int) outcome" where
  "allocator_next nxt = (if nxt > MAX_STREAM_ID then (nxt, Inl StreamIdsExhausted) else (nxt + 2, Inr nxt))"

fun allocate_many :: "nat \<Rightarrow> int \<Rightarrow> (tunnel_error, int) outcome list" where
  "allocate_many 0 nxt = []"
| "allocate_many (Suc n) nxt = (case allocator_next nxt of (nxt', r) \<Rightarrow> r # allocate_many n nxt')"

section \<open>Agreement with the host\<close>

definition host_frame :: "ClientFrame \<Rightarrow> TunnelFrame" where
  "host_frame f = \<lparr>frameType = type_value (cf_frameType f), streamId = cf_streamId f,
                   payload = cf_payload f, hasMoreFragments = cf_hasMoreFragments f\<rparr>"

lemma isTunnelFrameType_value [simp]: "isTunnelFrameType (type_value t)"
  by (cases t) (simp_all add: isTunnelFrameType_def TunnelFrameType_values_def)

lemma store_be32_append:
  "length old = 4 \<Longrightarrow> store_be32 (pre @ old @ rest) (length pre) w = pre @ be32 w @ rest"
  by (auto simp: store_be32_def be32_def list_update_append numeral_eq_Suc length_Suc_conv)

lemma place_append: "length old = length new \<Longrightarrow> place (pre @ old @ rest) new (length pre) = pre @ new @ rest"
  by (simp add: place_def)

lemma client_encode_agrees:
  "client_encodeTunnelFrame ft sid pl m = encodeTunnelFrame (type_value ft) sid pl m"
proof -
  have "place (store_be32 ((replicate (5 + length pl) 0)[0 := b]) 1 w) pl 5 = b # be32 w @ pl"
    for b :: "8 word" and w
  proof -
    have "(replicate (5 + length pl) 0)[0 := b] = [b] @ replicate 4 0 @ replicate (length pl) 0"
      by (simp add: replicate_add numeral_eq_Suc)
    then have "store_be32 ((replicate (5 + length pl) 0)[0 := b]) 1 w = [b] @ be32 w @ replicate (length pl) 0"
      using store_be32_append [of "replicate 4 0" "[b]" "replicate (length pl) 0" w] by simp
    then show ?thesis
      using place_append [of "replicate (length pl) 0" pl "b # be32 w" "[]"] by simp
  qed
  then show ?thesis
    by (auto simp: client_encodeTunnelFrame_def encodeTunnelFrame_def Let_def
        TUNNEL_FRAME_HEADER_BYTES_def split: jsnum.split)
qed

lemma client_isTunnelFrameType_Some:
  "client_isTunnelFrameType v = Some t \<longleftrightarrow> v = type_value t"
  by (cases t) (auto simp: client_isTunnelFrameType_def TunnelFrameTypes_def)

lemma client_isTunnelFrameType_None: "client_isTunnelFrameType v = None \<longleftrightarrow> \<not> isTunnelFrameType v"
  by (auto simp: client_isTunnelFrameType_def TunnelFrameTypes_def isTunnelFrameType_def
      TunnelFrameType_values_def)

lemma client_decode_agrees:
  "(case client_decodeTunnelFrame frame of Inl e \<Rightarrow> Inl e | Inr f \<Rightarrow> Inr (host_frame f)) = decodeTunnelFrame frame"
proof (cases "length frame < 5")
  case True
  then show ?thesis
    by (simp add: client_decodeTunnelFrame_def decodeTunnelFrame_def TUNNEL_FRAME_HEADER_BYTES_def)
next
  case False
  then have rd: "byte_at frame 0 = frame ! 0"
    "read_be32 frame 1 = of_be32 (frame ! 1) (frame ! 2) (frame ! 3) (frame ! 4)"
    by (auto simp: byte_at_def read_be32_def numeral_eq_Suc)
  let ?v = "uint (frame ! 0 AND NOT TUNNEL_FRAGMENT_FLAG)"
  show ?thesis
  proof (cases "client_isTunnelFrameType ?v")
    case None
    then have "\<not> isTunnelFrameType ?v" by (simp add: client_isTunnelFrameType_None)
    with None False show ?thesis
      by (simp add: client_decodeTunnelFrame_def decodeTunnelFrame_def TUNNEL_FRAME_HEADER_BYTES_def rd)
  next
    case (Some t)
    then have "isTunnelFrameType ?v" "?v = type_value t"
      using client_isTunnelFrameType_None [of ?v] client_isTunnelFrameType_Some [of ?v t] by auto
    with Some False show ?thesis
      by (simp add: client_decodeTunnelFrame_def decodeTunnelFrame_def TUNNEL_FRAME_HEADER_BYTES_def
          host_frame_def Let_def rd del: One_nat_def)
  qed
qed

lemma client_chunk_loop_agrees:
  "client_chunk_loop bs n off acc = acc @ chunk_loop bs n off"
proof (induction bs n off arbitrary: acc rule: chunk_loop.induct)
  case (1 bs n off)
  then show ?case
    by (subst client_chunk_loop.simps, subst chunk_loop.simps) simp
qed

lemma client_fragments_agree:
  "client_encodeFragmentedMessage ft sid pl = encodeFragmentedMessage (type_value ft) sid pl"
  by (simp add: client_encodeFragmentedMessage_def encodeFragmentedMessage_def client_chunkPayload_def
      chunkPayload_def client_chunk_loop_agrees client_encode_agrees)

lemma store_frames_append:
  "length rest = batch_total fs \<Longrightarrow> store_frames (pre @ rest) (length pre) fs = pre @ batch_body fs"
proof (induction fs arbitrary: pre rest)
  case Nil
  then show ?case by simp
next
  case (Cons f fs)
  let ?w = "be32 (word_of_nat (length f))"
  let ?rest = "drop (length f) (drop 4 rest)"
  have split: "rest = take 4 rest @ take (length f) (drop 4 rest) @ ?rest"
    by (simp flip: drop_drop)
  have lens: "length (take 4 rest) = 4" "length (take (length f) (drop 4 rest)) = length f"
      "length ?rest = batch_total fs"
    using Cons.prems by (auto simp: BATCH_FRAME_LENGTH_BYTES_def)
  have st: "store_be32 (pre @ rest) (length pre) (word_of_nat (length f)) =
      (pre @ ?w) @ take (length f) (drop 4 rest) @ ?rest"
    using store_be32_append [OF lens(1), of pre] split by (metis append_assoc)
  have pl: "place ((pre @ ?w) @ take (length f) (drop 4 rest) @ ?rest) f (length pre + 4) =
      (pre @ ?w @ f) @ ?rest"
    using place_append [OF lens(2), of "pre @ ?w"] by simp
  have "store_frames ((pre @ ?w @ f) @ ?rest) (length pre + 4 + length f) fs =
      (pre @ ?w @ f) @ batch_body fs"
    using Cons.IH [OF lens(3), of "pre @ ?w @ f"] by (simp add: ac_simps)
  with st pl show ?case
    by (simp add: Let_def BATCH_FRAME_LENGTH_BYTES_def)
qed

lemma batch_total_foldl: "foldl (\<lambda>t f. t + (BATCH_FRAME_LENGTH_BYTES + length f)) n fs = n + batch_total fs"
  by (induction fs arbitrary: n) auto

lemma client_encodeFrameBatch_agrees: "client_encodeFrameBatch frames = encodeFrameBatch frames"
proof (cases frames)
  case Nil
  then show ?thesis by (simp add: client_encodeFrameBatch_def encodeFrameBatch_def)
next
  case (Cons f fs)
  have rep: "(replicate (Suc n) 0)[0 := t] = [t] @ replicate n (0 :: 8 word)" for n t by simp
  show ?thesis
  proof (cases fs)
    case Nil
    with Cons place_append [of "replicate (length f) 0" f "[BATCH_CONTAINER_TAG_SINGLE]" "[]"] show ?thesis
      by (simp add: client_encodeFrameBatch_def encodeFrameBatch_def Let_def)
  next
    case (Cons g gs)
    with \<open>frames = f # fs\<close> show ?thesis
      using store_frames_append [of "replicate (batch_total frames) 0" frames "[BATCH_CONTAINER_TAG_BATCH]"]
      by (simp add: client_encodeFrameBatch_def encodeFrameBatch_def Let_def batch_total_foldl rep)
  qed
qed

lemma client_decode_loop_agrees:
  "client_decode_loop p off acc = obind (decode_batch_loop p off) (\<lambda>fs. Inr (acc @ fs))"
proof (induction p off acc rule: client_decode_loop.induct)
  case (1 p off acc)
  show ?case
  proof (cases "off < length p \<and> off + 4 \<le> length p")
    case True
    then have rd: "read_be32 p off = of_be32 (p ! off) (p ! (off + 1)) (p ! (off + 2)) (p ! (off + 3))"
      by (auto simp: read_be32_def byte_at_def)
    let ?n = "unat (read_be32 p off)"
    show ?thesis
    proof (cases "off + 4 + ?n > length p")
      case False
      have IH: "client_decode_loop p (off + 4 + ?n) (acc @ [slice p (off + 4) (off + 4 + ?n)]) =
          obind (decode_batch_loop p (off + 4 + ?n)) (\<lambda>fs. Inr ((acc @ [slice p (off + 4) (off + 4 + ?n)]) @ fs))"
        using True False unfolding rd
        by (intro "1.IH" [OF _ _ refl refl, unfolded BATCH_FRAME_LENGTH_BYTES_def]) auto
      show ?thesis
        using True False IH
        by (subst client_decode_loop.simps, subst decode_batch_loop.simps)
          (cases "decode_batch_loop p (off + 4 + ?n)",
            auto simp: BATCH_FRAME_LENGTH_BYTES_def Let_def rd)
    next
      case over: True
      with True show ?thesis
        by (subst client_decode_loop.simps, subst decode_batch_loop.simps)
          (simp add: BATCH_FRAME_LENGTH_BYTES_def Let_def rd)
    qed
  next
    case False
    then show ?thesis
      by (subst client_decode_loop.simps, subst decode_batch_loop.simps)
        (auto simp: BATCH_FRAME_LENGTH_BYTES_def)
  qed
qed

lemma client_decodeFrameBatch_agrees: "client_decodeFrameBatch p = decodeFrameBatch p"
  by (cases "decode_batch_loop p 1")
    (auto simp: client_decodeFrameBatch_def decodeFrameBatch_def client_decode_loop_agrees byte_at_def Let_def)

section \<open>Channels\<close>

text \<open>
  A channel is an encoder at one peer and a decoder at the other. The law is that what was encoded is
  what is decoded; the two directions of the tunnel are its instances.
\<close>

locale frame_channel =
  fixes send :: "'f list \<Rightarrow> ('e, 'b) outcome"
    and receive :: "'b \<Rightarrow> ('e, 'f list) outcome"
  assumes delivery: "send fs = Inr p \<Longrightarrow> receive p = Inr fs"
begin

lemma send_inject: "send fs = Inr p \<Longrightarrow> send gs = Inr p \<Longrightarrow> fs = gs"
  using delivery by (metis sum.inject(2))

lemma session_delivery:
  assumes "ocollect (map send batches) = Inr ps"
  shows "ocollect (map receive ps) = Inr batches"
proof -
  from assms have "map send batches = map Inr ps"
    by (simp add: ocollect_Inr_iff)
  then have "map receive ps = map Inr batches"
  proof (induction batches arbitrary: ps)
    case Nil
    then show ?case by simp
  next
    case (Cons b batches)
    then show ?case by (cases ps) (auto dest: delivery)
  qed
  then show ?thesis
    by (simp add: ocollect_Inr_iff)
qed

end

interpretation to_client: frame_channel encodeFrameBatch client_decodeFrameBatch
  by unfold_locales (simp add: client_decodeFrameBatch_agrees decode_encodeFrameBatch)

interpretation to_host: frame_channel client_encodeFrameBatch decodeFrameBatch
  by unfold_locales (simp add: client_encodeFrameBatch_agrees decode_encodeFrameBatch)

section \<open>Stream ids\<close>

lemma allocate_many_exhausted:
  "nxt > MAX_STREAM_ID \<Longrightarrow> allocate_many n nxt = replicate n (Inl StreamIdsExhausted)"
  by (induction n) (auto simp: allocator_next_def)

lemma allocate_many_nth:
  "i < n \<Longrightarrow> allocate_many n nxt ! i =
    (if nxt + 2 * int i > MAX_STREAM_ID then Inl StreamIdsExhausted else Inr (nxt + 2 * int i))"
proof (induction n arbitrary: i nxt)
  case 0
  then show ?case by simp
next
  case (Suc n)
  show ?case
  proof (cases "nxt > MAX_STREAM_ID")
    case True
    then show ?thesis
      using allocate_many_exhausted [OF True, of "Suc n"] nth_replicate [OF Suc.prems] by auto
  next
    case False
    then show ?thesis
      using Suc by (cases i) (auto simp: allocator_next_def algebra_simps)
  qed
qed

lemma length_allocate_many [simp]: "length (allocate_many n nxt) = n"
  by (induction n arbitrary: nxt) (auto simp: allocator_next_def)

section \<open>Properties\<close>

text \<open>
  The client's codec and the host's codec are the same function on every input, errors included:
  encoding a frame, decoding one (up to the representation of the frame type), fragmenting a message,
  and encoding and decoding a batch give equal results, so the two files stay byte-compatible.
\<close>

theorem codecs_byte_compatible:
  "client_encodeTunnelFrame ft sid pl m = encodeTunnelFrame (type_value ft) sid pl m
   \<and> map_sum id host_frame (client_decodeTunnelFrame frame) = decodeTunnelFrame frame
   \<and> client_encodeFragmentedMessage ft sid pl = encodeFragmentedMessage (type_value ft) sid pl
   \<and> client_encodeFrameBatch frames = encodeFrameBatch frames
   \<and> client_decodeFrameBatch plaintext = decodeFrameBatch plaintext"
  using client_decode_agrees [of frame]
  by (simp add: client_encode_agrees client_fragments_agree client_encodeFrameBatch_agrees
      client_decodeFrameBatch_agrees map_sum_def id_def split: sum.splits)

text \<open>
  Both directions of a batched tunnel deliver: whatever sequence of frame batches one peer manages
  to encode, the other peer decodes the resulting plaintexts into the same batches in the same order.
\<close>

theorem tunnel_sessions_deliver:
  "(ocollect (map encodeFrameBatch batches) = Inr down \<longrightarrow> ocollect (map client_decodeFrameBatch down) = Inr batches)
   \<and> (ocollect (map client_encodeFrameBatch batches) = Inr up \<longrightarrow> ocollect (map decodeFrameBatch up) = Inr batches)"
  using to_client.session_delivery to_host.session_delivery by blast

theorem tunnel_sessions_deliver_witness:
  "ocollect (map encodeFrameBatch [[[7]], [[1, 2], []]]) = Inr [[0, 7], [1, 0, 0, 0, 2, 1, 2, 0, 0, 0, 0]]
   \<and> ocollect (map client_decodeFrameBatch [[0, 7], [1, 0, 0, 0, 2, 1, 2, 0, 0, 0, 0]]) = Inr [[[7]], [[1, 2], []]]"
proof -
  have "ocollect (map encodeFrameBatch [[[7]], [[1, 2], []]]) = Inr [[0, 7], [1, 0, 0, 0, 2, 1, 2, 0, 0, 0, 0]]"
    by (simp add: encodeFrameBatch_def tunnel_constants be32_def)
  with tunnel_sessions_deliver show ?thesis by blast
qed

text \<open>
  Client stream ids: the \<open>i\<close>-th id handed out is \<open>2 i + 1\<close> as long as that fits 32 bits, so all
  ids are odd, distinct and encodable; from then on every call reports exhaustion, and no id is reused.
\<close>

theorem stream_ids_fresh_until_exhausted:
  "i < n \<Longrightarrow> allocate_many n allocator_start ! i =
     (if i < 2 ^ 31 then Inr (2 * int i + 1) else Inl StreamIdsExhausted)"
  by (auto simp: allocate_many_nth allocator_start_def MAX_STREAM_ID_def)

theorem stream_ids_fresh_until_exhausted_witness:
  "(2 :: nat) < 3 \<and> allocate_many 3 allocator_start ! 2 = Inr 5"
  using stream_ids_fresh_until_exhausted [of 2 3] by simp

end
