(* ===== verification/Permission_Gate.thy ===== *)
theory Permission_Gate
  imports Varin_Prelude
begin

text \<open>
  The permission gate, \<^verbatim>\<open>src/packages/protocol/src/permission-gate.ts\<close>, with the tool table of
  \<^verbatim>\<open>src/packages/protocol/src/harness-tools.ts\<close>.

  Policies and rules arrive as values of unknown shape (\<open>jsval\<close>) and are validated into records.
  JavaScript's regular expression engine is an argument of the definitions that use it: \<open>V p\<close> says that
  \<open>new RegExp(p)\<close> does not throw and \<open>T p s\<close> is \<open>new RegExp(p).test(s)\<close>; the theorems hold for every
  engine. The three literal expressions of the pattern scanner are written out as functions.
\<close>

section \<open>Data\<close>

datatype PermissionMode = Normal | AcceptEdits | Bypass | Smart

datatype PermissionDecision = Allow | Ask | Deny

datatype PermissionAction = Read | Write | Process | Network | Thread | Control | Unknown

record rule_match =
  param :: string
  pattern :: string

record PermissionRule =
  tool :: string
  rmatch :: "rule_match option"
  decision :: PermissionDecision

record PermissionPolicy =
  mode :: PermissionMode
  rules :: "PermissionRule list"

datatype gate_reason =
    InvalidRule string
  | MatchedRule string
  | BypassMode
  | NoMatchingRule
  | UnknownTool

record GateResult =
  gate_decision :: PermissionDecision
  reason :: gate_reason

datatype policy_error = PermissionPolicyValidationError string

datatype HarnessToolMutation = MNone | Journaled | MProcess

datatype ExecutionMode = Parallel | Sequential

record HarnessToolMeta =
  mutation :: HarnessToolMutation
  executionMode :: ExecutionMode
  permissionAction :: "PermissionAction option"

section \<open>Tool table\<close>

definition plain_meta :: "HarnessToolMutation \<Rightarrow> ExecutionMode \<Rightarrow> HarnessToolMeta" where
  "plain_meta m e = \<lparr>mutation = m, executionMode = e, permissionAction = None\<rparr>"

definition HARNESS_TOOL_META :: "(string \<times> HarnessToolMeta) list" where
  "HARNESS_TOOL_META =
    [(''read'', plain_meta MNone Parallel), (''find'', plain_meta MNone Parallel),
     (''ls'', plain_meta MNone Parallel), (''grep'', plain_meta MNone Parallel),
     (''write'', plain_meta Journaled Parallel), (''edit'', plain_meta Journaled Parallel),
     (''apply_patch'', plain_meta Journaled Parallel), (''bash'', plain_meta MProcess Sequential),
     (''write_to_process'', plain_meta MProcess Sequential), (''kill_shell'', plain_meta MNone Sequential),
     (''get_output'', plain_meta MNone Parallel), (''diagnostics'', plain_meta MNone Parallel),
     (''todo'', plain_meta MNone Sequential), (''explore'', plain_meta MNone Parallel),
     (''dispatch'', plain_meta MNone Parallel), (''wait'', plain_meta MNone Sequential),
     (''merge'', plain_meta Journaled Sequential), (''update'', plain_meta Journaled Sequential),
     (''kill'', plain_meta MNone Sequential), (''threads'', plain_meta MNone Parallel),
     (''send'', plain_meta MNone Parallel), (''read_thread'', plain_meta MNone Parallel),
     (''webfetch'', plain_meta MNone Parallel), (''document_read'', plain_meta MNone Parallel),
     (''websearch'', plain_meta MNone Parallel), (''research_search'', plain_meta MNone Parallel),
     (''research_decide'', plain_meta MNone Parallel), (''materials'', plain_meta MNone Parallel),
     (''recall'', plain_meta MNone Parallel), (''related'', plain_meta MNone Parallel),
     (''history'', plain_meta MNone Parallel), (''symbols'', plain_meta MNone Parallel),
     (''definition'', plain_meta MNone Parallel), (''references'', plain_meta MNone Parallel),
     (''experiment'', plain_meta MProcess Sequential), (''resources'', plain_meta MNone Parallel),
     (''research_source'', plain_meta MNone Parallel),
     (''settings_search'', (plain_meta MNone Parallel)\<lparr>permissionAction := Some Read\<rparr>),
     (''settings_read'', (plain_meta MNone Parallel)\<lparr>permissionAction := Some Read\<rparr>),
     (''settings_update'', (plain_meta MNone Sequential)\<lparr>permissionAction := Some Control\<rparr>),
     (''settings_action'', (plain_meta MNone Sequential)\<lparr>permissionAction := Some Control\<rparr>)]"

definition toolMutation :: "string \<Rightarrow> HarnessToolMutation option" where
  "toolMutation name = map_option mutation (map_of HARNESS_TOOL_META name)"

definition toolExecutionMode :: "string \<Rightarrow> ExecutionMode option" where
  "toolExecutionMode name = map_option executionMode (map_of HARNESS_TOOL_META name)"

section \<open>Modes and default decisions\<close>

fun defaultDecisionForAction :: "PermissionAction \<Rightarrow> PermissionMode \<Rightarrow> PermissionDecision" where
  "defaultDecisionForAction action md =
     (if md = Bypass then Allow
      else if action = Read \<or> action = Network \<or> action = Thread then Allow
      else if action = Write then (if md = AcceptEdits then Allow else Ask)
      else Ask)"

definition PERMISSION_MODES :: "(string \<times> PermissionMode) list" where
  "PERMISSION_MODES =
     [(''normal'', Normal), (''accept-edits'', AcceptEdits), (''bypass'', Bypass), (''smart'', Smart)]"

definition validatePermissionMode :: "jsval \<Rightarrow> string \<Rightarrow> (policy_error, PermissionMode) outcome" where
  "validatePermissionMode v source =
     (case v of
        JString s \<Rightarrow>
          (case map_of PERMISSION_MODES s of
             Some md \<Rightarrow> Inr md
           | None \<Rightarrow> Inl (PermissionPolicyValidationError (source @ '' mode is invalid'')))
      | _ \<Rightarrow> Inl (PermissionPolicyValidationError (source @ '' mode is invalid'')))"

section \<open>Pattern scanner\<close>

definition MAX_PERMISSION_PATTERN_LENGTH :: nat where
  "MAX_PERMISSION_PATTERN_LENGTH = 512"

definition backslash :: char where
  "backslash = CHR 0x5C"

text \<open>\<open>/\\(?:[1-9]|k<)/.test(pattern)\<close>\<close>

fun has_backreference :: "string \<Rightarrow> bool" where
  "has_backreference [] = False"
| "has_backreference (c # cs) =
     ((c = backslash \<and> (case cs of [] \<Rightarrow> False
                           | d # ds \<Rightarrow> is_digit d \<and> d \<noteq> CHR ''0'' \<or> prefix ''k<'' (d # ds)))
      \<or> has_backreference cs)"

text \<open>\<open>/\(\?(?:[=!]|<[=!])/.test(pattern)\<close>\<close>

fun has_lookaround :: "string \<Rightarrow> bool" where
  "has_lookaround [] = False"
| "has_lookaround (c # cs) =
     (prefix ''(?='' (c # cs) \<or> prefix ''(?!'' (c # cs) \<or> prefix ''(?<='' (c # cs) \<or> prefix ''(?<!'' (c # cs)
      \<or> has_lookaround cs)"

text \<open>
  \<open>pattern.slice(index).match(/^\{(\d+)(?:,(\d*)?)?\}/)\<close> for a slice that starts with an opening brace:
  the length of the whole match, the first and the second captured group. An iteration of \<open>(\d*)?\<close> that
  matches the empty string is discarded, so the second group of \<open>{2,}\<close> is undefined.
\<close>

definition brace_match :: "string \<Rightarrow> (nat \<times> string \<times> string option) option" where
  "brace_match s =
     (let ds = takeWhile is_digit (tl s); r = dropWhile is_digit (tl s)
      in if ds = [] \<or> r = [] then None
         else if hd r = CHR ''}'' then Some (2 + length ds, ds, None)
         else if hd r = CHR '','' then
           (let es = takeWhile is_digit (tl r); q = dropWhile is_digit (tl r)
            in if q \<noteq> [] \<and> hd q = CHR ''}''
               then Some (3 + length ds + length es, ds, if es = [] then None else Some es) else None)
         else None)"

record group =
  alternation :: bool
  variableQuantifier :: bool

definition QUANTIFIED_GROUP_ISSUE :: string where
  "QUANTIFIED_GROUP_ISSUE = ''quantified groups cannot contain alternation or another variable quantifier''"

text \<open>The loop of \<open>permissionPatternIssue\<close>; the head of \<open>stack\<close> is the last element pushed.\<close>

definition merge_into_parent :: "group \<Rightarrow> group list \<Rightarrow> group list" where
  "merge_into_parent g stack =
     (case stack of
        [] \<Rightarrow> []
      | p # ps \<Rightarrow> \<lparr>alternation = alternation p \<or> alternation g,
                  variableQuantifier = variableQuantifier p \<or> variableQuantifier g\<rparr> # ps)"

definition mark_alternation :: "group list \<Rightarrow> group list" where
  "mark_alternation stack = (case stack of [] \<Rightarrow> [] | p # ps \<Rightarrow> p\<lparr>alternation := True\<rparr> # ps)"

definition quantifiable :: "group option \<Rightarrow> bool" where
  "quantifiable closed = (case closed of None \<Rightarrow> True | Some g \<Rightarrow> \<not> alternation g \<and> \<not> variableQuantifier g)"

definition after_open :: "string \<Rightarrow> string" where
  "after_open cs = (if prefix ''?:'' cs then drop 2 cs else cs)"

text \<open>
  The quantifier test at character \<open>c\<close>: whether it is a variable quantifier, and the characters left after
  it (\<open>index += match[0].length - 1\<close>).
\<close>

definition quantifier_at :: "char \<Rightarrow> string \<Rightarrow> bool \<times> string" where
  "quantifier_at c cs =
     (case (if c = CHR ''{'' then brace_match (c # cs) else None) of
        None \<Rightarrow> (c = CHR ''*'' \<or> c = CHR ''+'' \<or> c = CHR ''?'', cs)
      | Some (n, d, e) \<Rightarrow> (e \<noteq> None \<and> e \<noteq> Some d, drop (n - 1) cs))"

lemma length_after_open [simp]: "length (after_open cs) \<le> length cs"
  by (simp add: after_open_def)

lemma length_quantifier_at: "quantifier_at c cs = (v, rest) \<Longrightarrow> length rest \<le> length cs"
  by (auto simp: quantifier_at_def split: option.splits if_splits)

function scan :: "string \<Rightarrow> group list \<Rightarrow> bool \<Rightarrow> bool \<Rightarrow> group option \<Rightarrow> string option" where
  "scan [] stack inClass escaped closed = None"
| "scan (c # cs) stack inClass escaped closed =
     (if escaped then scan cs stack inClass False None
      else if c = backslash then scan cs stack inClass True closed
      else if c = CHR ''['' \<and> \<not> inClass then scan cs stack True False None
      else if c = CHR '']'' \<and> inClass then scan cs stack False False closed
      else if inClass then scan cs stack inClass False closed
      else if c = CHR ''('' then
        scan (after_open cs) (\<lparr>alternation = False, variableQuantifier = False\<rparr> # stack) inClass False None
      else if c = CHR '')'' then
        (case stack of
           [] \<Rightarrow> scan cs [] inClass False None
         | g # gs \<Rightarrow> scan cs (merge_into_parent g gs) inClass False (Some g))
      else if c = CHR ''|'' then scan cs (mark_alternation stack) inClass False None
      else
        (case quantifier_at c cs of
           (variable, rest) \<Rightarrow>
             if variable then
               (if \<not> quantifiable closed then Some QUANTIFIED_GROUP_ISSUE
                else scan rest (map (\<lambda>g. g\<lparr>variableQuantifier := True\<rparr>) stack) inClass False None)
             else scan rest stack inClass False None))"
  by pat_completeness (simp_all only: prod.inject list.inject list.distinct simp_thms)
termination
  by (relation "measure (\<lambda>(cs, _). length cs)")
    (simp_all add: le_imp_less_Suc length_quantifier_at [OF sym])

declare scan.simps [simp del]

definition permissionPatternIssue :: "(string \<Rightarrow> bool) \<Rightarrow> string \<Rightarrow> string option" where
  "permissionPatternIssue V pat =
     (if length pat > MAX_PERMISSION_PATTERN_LENGTH
      then Some (''pattern exceeds '' @ dec MAX_PERMISSION_PATTERN_LENGTH @ '' characters'')
      else if \<not> V pat then Some ''pattern is not a valid regular expression''
      else if has_backreference pat then Some ''backreferences are not supported''
      else if has_lookaround pat then Some ''lookaround is not supported''
      else scan pat [] False False None)"

section \<open>Rules\<close>

definition throw :: "string \<Rightarrow> string \<Rightarrow> (policy_error, 'a) outcome" where
  "throw source msg = Inl (PermissionPolicyValidationError (source @ msg))"

definition decision_of :: "jsval \<Rightarrow> PermissionDecision option" where
  "decision_of v =
     (if v = JString ''allow'' then Some Allow else if v = JString ''ask'' then Some Ask
      else if v = JString ''deny'' then Some Deny else None)"

definition validate_match ::
  "(string \<Rightarrow> bool) \<Rightarrow> jsval \<Rightarrow> string \<Rightarrow> (policy_error, rule_match option) outcome" where
  "validate_match V m source =
     (if m = JUndefined then Inr None
      else if \<not> is_object m \<or> is_array m then throw source '' rule match must be an object''
      else (case (prop_of m ''param'', prop_of m ''pattern'') of
              (JString prm, JString pat) \<Rightarrow>
                if blank prm then throw source '' rule match must contain param and pattern strings''
                else (case permissionPatternIssue V pat of
                        Some issue \<Rightarrow> throw source ('' rule '' @ issue)
                      | None \<Rightarrow> Inr (Some \<lparr>param = prm, pattern = pat\<rparr>))
            | _ \<Rightarrow> throw source '' rule match must contain param and pattern strings''))"

definition validatePermissionRule ::
  "(string \<Rightarrow> bool) \<Rightarrow> jsval \<Rightarrow> string \<Rightarrow> (policy_error, PermissionRule) outcome" where
  "validatePermissionRule V rule source =
     (if \<not> is_object rule then throw source '' rule must be an object''
      else (case prop_of rule ''tool'' of
              JString t \<Rightarrow>
                (if blank t then throw source '' rule tool must be non-empty''
                 else (case decision_of (prop_of rule ''decision'') of
                         None \<Rightarrow> throw source '' rule has an invalid decision''
                       | Some d \<Rightarrow>
                           obind (validate_match V (prop_of rule ''match'') source)
                             (\<lambda>m. Inr \<lparr>tool = t, rmatch = m, decision = d\<rparr>)))
            | _ \<Rightarrow> throw source '' rule tool must be non-empty''))"

definition indexed_source :: "string \<Rightarrow> nat \<Rightarrow> string" where
  "indexed_source source index = source @ ''['' @ dec index @ '']''"

definition validate_rules ::
  "(string \<Rightarrow> bool) \<Rightarrow> jsval list \<Rightarrow> string \<Rightarrow> (policy_error, PermissionRule list) outcome" where
  "validate_rules V rs source =
     ocollect (map (\<lambda>(index, rule). validatePermissionRule V rule (indexed_source source index))
                (List.enumerate 0 rs))"

section \<open>Gate\<close>

text \<open>One iteration of the loop over the rules: \<open>None\<close> is \<open>continue\<close>.\<close>

definition apply_rule ::
  "(string \<Rightarrow> bool) \<Rightarrow> (string \<Rightarrow> string \<Rightarrow> bool) \<Rightarrow> string \<Rightarrow> (string \<times> jsval) list \<Rightarrow> PermissionRule
   \<Rightarrow> GateResult option" where
  "apply_rule V T tname params rule =
     (if tool rule \<noteq> ''*'' \<and> tool rule \<noteq> tname then None
      else (let matched = Some \<lparr>gate_decision = decision rule, reason = MatchedRule (tool rule)\<rparr>
            in case rmatch rule of
                 None \<Rightarrow> matched
               | Some m \<Rightarrow>
                   (case own_prop params (param m) of
                      JString s \<Rightarrow>
                        (case permissionPatternIssue V (pattern m) of
                           Some issue \<Rightarrow> Some \<lparr>gate_decision = Deny, reason = InvalidRule issue\<rparr>
                         | None \<Rightarrow> if T (pattern m) s then matched else None)
                    | _ \<Rightarrow> None)))"

definition evaluateGate ::
  "(string \<Rightarrow> bool) \<Rightarrow> (string \<Rightarrow> string \<Rightarrow> bool) \<Rightarrow> string \<Rightarrow> (string \<times> jsval) list \<Rightarrow> PermissionPolicy
   \<Rightarrow> GateResult" where
  "evaluateGate V T tname params policy =
     (case first_some (apply_rule V T tname params) (rules policy) of
        Some r \<Rightarrow> r
      | None \<Rightarrow>
          if mode policy = Bypass then \<lparr>gate_decision = Allow, reason = BypassMode\<rparr>
          else \<lparr>gate_decision = Ask,
                reason = (if map_of HARNESS_TOOL_META tname \<noteq> None \<or> tname \<in> set object_prototype_names
                          then NoMatchingRule else UnknownTool)\<rparr>)"

section \<open>High risk\<close>

record risk_entry =
  tools :: "string list"
  risk_param :: string
  risk_pattern :: string

abbreviation (input) esc :: "string \<Rightarrow> string" where
  "esc s \<equiv> backslash # s"

definition DESTRUCTIVE_PATTERN :: string where
  "DESTRUCTIVE_PATTERN = esc ''b(rm|sudo|chmod|chown|mkfs|dd)'' @ esc ''b''"

definition GIT_PATTERN :: string where
  "GIT_PATTERN = esc ''bgit'' @ esc ''s+(push|reset|checkout|rebase|clean)'' @ esc ''b''"

definition INSTALL_PATTERN :: string where
  "INSTALL_PATTERN = esc ''b(npm|bun|yarn|pnpm)'' @ esc ''s+(install|add|remove)'' @ esc ''b''"

definition SECRET_PATTERN :: string where
  "SECRET_PATTERN = esc ''.[Ee][Nn][Vv]|id_rsa|'' @ esc ''.[Ss][Ss][Hh]''"

definition PATCH_PATTERN :: string where
  "PATCH_PATTERN =
     esc ''*'' @ esc ''*'' @ esc ''* (?:Add|Update|Delete) File: .*?(?:'' @ esc ''.[Ee][Nn][Vv]|id_rsa|''
     @ esc ''.[Ss][Ss][Hh])''"

definition HIGH_RISK_PATTERNS :: "risk_entry list" where
  "HIGH_RISK_PATTERNS =
    [\<lparr>tools = [''bash''], risk_param = ''command'', risk_pattern = DESTRUCTIVE_PATTERN\<rparr>,
     \<lparr>tools = [''write_to_process''], risk_param = ''text'', risk_pattern = DESTRUCTIVE_PATTERN\<rparr>,
     \<lparr>tools = [''bash''], risk_param = ''command'', risk_pattern = GIT_PATTERN\<rparr>,
     \<lparr>tools = [''write_to_process''], risk_param = ''text'', risk_pattern = GIT_PATTERN\<rparr>,
     \<lparr>tools = [''bash''], risk_param = ''command'', risk_pattern = INSTALL_PATTERN\<rparr>,
     \<lparr>tools = [''write_to_process''], risk_param = ''text'', risk_pattern = INSTALL_PATTERN\<rparr>,
     \<lparr>tools = [''bash''], risk_param = ''command'', risk_pattern = SECRET_PATTERN\<rparr>,
     \<lparr>tools = [''write_to_process''], risk_param = ''text'', risk_pattern = SECRET_PATTERN\<rparr>,
     \<lparr>tools = [''write'', ''edit'', ''apply_patch''], risk_param = ''path'', risk_pattern = SECRET_PATTERN\<rparr>,
     \<lparr>tools = [''write'', ''edit'', ''apply_patch''], risk_param = ''file_path'', risk_pattern = SECRET_PATTERN\<rparr>,
     \<lparr>tools = [''apply_patch''], risk_param = ''patch'', risk_pattern = PATCH_PATTERN\<rparr>]"

text \<open>An invalid expression throws inside the \<open>try\<close> and is ignored.\<close>

definition isHighRisk ::
  "(string \<Rightarrow> bool) \<Rightarrow> (string \<Rightarrow> string \<Rightarrow> bool) \<Rightarrow> string \<Rightarrow> (string \<times> jsval) list \<Rightarrow> bool" where
  "isHighRisk V T tname params \<longleftrightarrow>
     list_ex (\<lambda>entry. tname \<in> set (tools entry) \<and>
                (case own_prop params (risk_param entry) of
                   JString s \<Rightarrow> V (risk_pattern entry) \<and> T (risk_pattern entry) s
                 | _ \<Rightarrow> False)) HIGH_RISK_PATTERNS"

section \<open>Default rules\<close>

definition risk_rules :: "PermissionRule list" where
  "risk_rules =
     concat (map (\<lambda>entry. map (\<lambda>tname. \<lparr>tool = tname,
                                     rmatch = Some \<lparr>param = risk_param entry, pattern = risk_pattern entry\<rparr>,
                                     decision = Ask\<rparr>) (tools entry)) HIGH_RISK_PATTERNS)"

text \<open>\<open>preset.replace(/[.*+?^${}()|[\]\\]/g, "\\$&")\<close>\<close>

definition meta_chars :: string where
  "meta_chars = ''.*+?^${}()|[]'' @ [backslash]"

definition escape_literal :: "string \<Rightarrow> string" where
  "escape_literal s = concat (map (\<lambda>c. if c \<in> set meta_chars then [backslash, c] else [c]) s)"

definition preset_rules :: "(string \<times> bool) list \<Rightarrow> PermissionRule list" where
  "preset_rules askBefore =
     map (\<lambda>(preset, ask). \<lparr>tool = ''dispatch'',
                           rmatch = Some \<lparr>param = ''preset'', pattern = ''^'' @ escape_literal preset @ ''$''\<rparr>,
                           decision = (if ask then Ask else Allow)\<rparr>) askBefore"

definition plain_rule :: "string \<Rightarrow> PermissionDecision \<Rightarrow> PermissionRule" where
  "plain_rule tname d = \<lparr>tool = tname, rmatch = None, decision = d\<rparr>"

definition meta_rules :: "PermissionMode \<Rightarrow> string \<times> HarnessToolMeta \<Rightarrow> PermissionRule list" where
  "meta_rules md = (\<lambda>(tname, meta).
     (if tname = ''experiment''
      then [\<lparr>tool = tname, rmatch = Some \<lparr>param = ''action'', pattern = ''^(list|get|logs|artifact|wait)$''\<rparr>,
             decision = Allow\<rparr>] else [])
     @ (if permissionAction meta = Some Control then [plain_rule tname (if md = Bypass then Allow else Ask)]
        else case mutation meta of
               MNone \<Rightarrow> [plain_rule tname Allow]
             | Journaled \<Rightarrow> [plain_rule tname (if md = AcceptEdits \<or> md = Bypass then Allow else Ask)]
             | MProcess \<Rightarrow> [plain_rule tname (if md = Bypass then Allow else Ask)]))"

definition defaultRules :: "PermissionMode \<Rightarrow> (string \<times> bool) list \<Rightarrow> PermissionRule list" where
  "defaultRules md askBefore =
     (if md \<noteq> Bypass then risk_rules else [])
     @ preset_rules askBefore
     @ concat (map (meta_rules md) HARNESS_TOOL_META)
     @ (if md = Bypass then [plain_rule ''*'' Allow] else [])"

section \<open>Policies\<close>

definition normalizeFrozenHarnessPermissions ::
  "(string \<Rightarrow> bool) \<Rightarrow> jsval \<Rightarrow> (policy_error, PermissionPolicy) outcome" where
  "normalizeFrozenHarnessPermissions V v =
     (if \<not> is_object v \<or> is_array v then Inr \<lparr>mode = Normal, rules = []\<rparr>
      else
        let hasMode = (case prop_of v ''mode'' of JString s \<Rightarrow> True | _ \<Rightarrow> False);
            hasRules = is_array (prop_of v ''rules'')
        in if \<not> hasMode \<and> \<not> hasRules then Inr \<lparr>mode = Normal, rules = []\<rparr>
           else
             obind (if hasMode then validatePermissionMode (prop_of v ''mode'') ''frozen permission''
                    else Inr Normal) (\<lambda>md.
             obind (case prop_of v ''rules'' of
                      JArray rs \<Rightarrow> validate_rules V rs ''frozen permission''
                    | _ \<Rightarrow> Inr []) (\<lambda>rs.
             Inr \<lparr>mode = md, rules = rs\<rparr>)))"

text \<open>The table \<open>ranks\<close> has no entry for \<open>smart\<close>; a comparison with \<open>undefined\<close> is false.\<close>

fun mode_rank :: "PermissionMode \<Rightarrow> nat option" where
  "mode_rank Bypass = Some 0"
| "mode_rank AcceptEdits = Some 1"
| "mode_rank Normal = Some 2"
| "mode_rank Smart = None"

definition rank_greater :: "nat option \<Rightarrow> nat option \<Rightarrow> bool" where
  "rank_greater a b = (case (a, b) of (Some m, Some n) \<Rightarrow> m > n | _ \<Rightarrow> False)"

definition merge_mode :: "PermissionMode \<Rightarrow> PermissionMode option \<Rightarrow> PermissionMode" where
  "merge_mode userMode requestedMode =
     (case requestedMode of
        None \<Rightarrow> userMode
      | Some req \<Rightarrow>
          if req = Smart then userMode
          else if userMode = Smart then (if req = Normal then Normal else Smart)
          else if rank_greater (mode_rank req) (mode_rank userMode) then req else userMode)"

definition mergePolicies ::
  "(string \<Rightarrow> bool) \<Rightarrow> (string \<times> jsval) list \<Rightarrow> (string \<times> jsval) list
   \<Rightarrow> (policy_error, PermissionPolicy) outcome" where
  "mergePolicies V user workspace =
     (case own_prop user ''rules'' of
        JArray urs \<Rightarrow>
          (if own_prop workspace ''rules'' \<noteq> JUndefined \<and> \<not> is_array (own_prop workspace ''rules'')
           then throw ''workspace'' '' permission rules must be an array''
           else
             obind (validatePermissionMode (own_prop user ''mode'') ''user permission'') (\<lambda>userMode.
             obind (if own_prop workspace ''mode'' = JUndefined then Inr None
                    else obind (validatePermissionMode (own_prop workspace ''mode'') ''workspace permission'')
                           (\<lambda>md. Inr (Some md))) (\<lambda>requestedMode.
             obind (validate_rules V urs ''user permission'') (\<lambda>userRules.
             obind (validate_rules V (case own_prop workspace ''rules'' of JArray wrs \<Rightarrow> wrs | _ \<Rightarrow> [])
                      ''workspace permission'') (\<lambda>workspaceRules.
             Inr \<lparr>mode = merge_mode userMode requestedMode,
                  rules = filter (\<lambda>rule. decision rule \<noteq> Allow) workspaceRules @ userRules\<rparr>)))))
      | _ \<Rightarrow> throw ''user'' '' permission rules must be an array'')"

section \<open>Vocabulary of the properties\<close>

text \<open>
  The strictness order on decisions, the action a table entry stands for, the value a policy is written out
  as, and well-formedness of a rule.
\<close>

fun strictness :: "PermissionDecision \<Rightarrow> nat" where
  "strictness Allow = 0" | "strictness Ask = 1" | "strictness Deny = 2"

fun meta_action :: "HarnessToolMeta \<Rightarrow> PermissionAction" where
  "meta_action meta =
     (if permissionAction meta = Some Control then Control
      else case mutation meta of MNone \<Rightarrow> Read | Journaled \<Rightarrow> Write | MProcess \<Rightarrow> Process)"

fun mode_name :: "PermissionMode \<Rightarrow> string" where
  "mode_name Normal = ''normal''" | "mode_name AcceptEdits = ''accept-edits''"
| "mode_name Bypass = ''bypass''" | "mode_name Smart = ''smart''"

fun decision_name :: "PermissionDecision \<Rightarrow> string" where
  "decision_name Allow = ''allow''" | "decision_name Ask = ''ask''" | "decision_name Deny = ''deny''"

definition rule_value :: "PermissionRule \<Rightarrow> jsval" where
  "rule_value r = JObject ([(''tool'', JString (tool r)), (''decision'', JString (decision_name (decision r)))]
     @ (case rmatch r of None \<Rightarrow> []
        | Some m \<Rightarrow> [(''match'', JObject [(''param'', JString (param m)), (''pattern'', JString (pattern m))])]))"

definition policy_value :: "PermissionPolicy \<Rightarrow> jsval" where
  "policy_value p = JObject [(''mode'', JString (mode_name (mode p))), (''rules'', JArray (map rule_value (rules p)))]"

definition valid_rule :: "(string \<Rightarrow> bool) \<Rightarrow> PermissionRule \<Rightarrow> bool" where
  "valid_rule V r \<longleftrightarrow> \<not> blank (tool r) \<and>
     (case rmatch r of None \<Rightarrow> True
      | Some m \<Rightarrow> \<not> blank (param m) \<and> permissionPatternIssue V (pattern m) = None)"

section \<open>Strictness order\<close>

lemma strictness_inject: "strictness a = strictness b \<longleftrightarrow> a = b"
  by (cases a; cases b) auto

instantiation PermissionDecision :: linorder
begin

definition less_eq_PermissionDecision :: "PermissionDecision \<Rightarrow> PermissionDecision \<Rightarrow> bool" where
  "a \<le> b \<longleftrightarrow> strictness a \<le> strictness b"

definition less_PermissionDecision :: "PermissionDecision \<Rightarrow> PermissionDecision \<Rightarrow> bool" where
  "a < b \<longleftrightarrow> strictness a < strictness b"

instance
  by standard (auto simp: less_eq_PermissionDecision_def less_PermissionDecision_def strictness_inject)

end

lemma builtin_pattern_ok:
  "V DESTRUCTIVE_PATTERN \<Longrightarrow> permissionPatternIssue V DESTRUCTIVE_PATTERN = None"
  "V GIT_PATTERN \<Longrightarrow> permissionPatternIssue V GIT_PATTERN = None"
  "V INSTALL_PATTERN \<Longrightarrow> permissionPatternIssue V INSTALL_PATTERN = None"
  "V SECRET_PATTERN \<Longrightarrow> permissionPatternIssue V SECRET_PATTERN = None"
  "V PATCH_PATTERN \<Longrightarrow> permissionPatternIssue V PATCH_PATTERN = None"
  by (simp_all add: permissionPatternIssue_def MAX_PERMISSION_PATTERN_LENGTH_def DESTRUCTIVE_PATTERN_def
    GIT_PATTERN_def INSTALL_PATTERN_def SECRET_PATTERN_def PATCH_PATTERN_def backslash_def is_digit_def
    scan.simps quantifier_at_def after_open_def mark_alternation_def merge_into_parent_def quantifiable_def)

section \<open>Rules one by one\<close>

lemma apply_rule_cases:
  assumes "apply_rule V T t ps r = Some g"
  shows "gate_decision g = decision r \<and> reason g = MatchedRule (tool r)
    \<or> gate_decision g = Deny \<and> (\<exists>m. rmatch r = Some m \<and> permissionPatternIssue V (pattern m) \<noteq> None)"
  using assms by (auto simp: apply_rule_def Let_def split: if_splits option.splits jsval.splits)

lemma apply_rule_other: "tool r \<noteq> ''*'' \<Longrightarrow> tool r \<noteq> t \<Longrightarrow> apply_rule V T t ps r = None"
  by (simp add: apply_rule_def)

lemma apply_plain_rule:
  "apply_rule V T t ps (plain_rule u d) =
    (if u = ''*'' \<or> u = t then Some \<lparr>gate_decision = d, reason = MatchedRule u\<rparr> else None)"
  by (simp add: apply_rule_def plain_rule_def)

lemma risk_rules_ask: "r \<in> set risk_rules \<Longrightarrow> decision r = Ask"
  by (auto simp: risk_rules_def)

lemma risk_rules_patterns: "r \<in> set risk_rules \<Longrightarrow> rmatch r = Some m \<Longrightarrow>
   \<forall>e \<in> set HIGH_RISK_PATTERNS. V (risk_pattern e) \<Longrightarrow> permissionPatternIssue V (pattern m) = None"
  by (auto simp: risk_rules_def HIGH_RISK_PATTERNS_def builtin_pattern_ok)

lemma risk_rules_first:
  assumes "first_some (apply_rule V T t ps) risk_rules = Some g"
  shows "gate_decision g \<noteq> Allow"
    and "\<forall>e \<in> set HIGH_RISK_PATTERNS. V (risk_pattern e) \<Longrightarrow> gate_decision g = Ask"
proof -
  obtain r where r: "r \<in> set risk_rules" "apply_rule V T t ps r = Some g"
    using first_some_SomeD [OF assms] by blast
  from apply_rule_cases [OF r(2)] risk_rules_ask [OF r(1)]
  show "gate_decision g \<noteq> Allow" by auto
  show "gate_decision g = Ask" if "\<forall>e \<in> set HIGH_RISK_PATTERNS. V (risk_pattern e)"
    using apply_rule_cases [OF r(2)] risk_rules_ask [OF r(1)] risk_rules_patterns [OF r(1) _ that] by auto
qed

lemma risk_rules_fire: "isHighRisk V T t ps \<Longrightarrow> first_some (apply_rule V T t ps) risk_rules \<noteq> None"
  unfolding first_some_None_iff isHighRisk_def list_ex_iff
proof clarify
  fix e
  assume e: "e \<in> set HIGH_RISK_PATTERNS" "t \<in> set (tools e)"
    and s: "case own_prop ps (risk_param e) of JString s \<Rightarrow> V (risk_pattern e) \<and> T (risk_pattern e) s | _ \<Rightarrow> False"
    and none: "\<forall>r \<in> set risk_rules. apply_rule V T t ps r = None"
  let ?r = "\<lparr>tool = t, rmatch = Some \<lparr>param = risk_param e, pattern = risk_pattern e\<rparr>, decision = Ask\<rparr>"
  from e have "?r \<in> set risk_rules"
    by (auto simp: risk_rules_def)
  with none have "apply_rule V T t ps ?r = None" by blast
  with s show False
    by (auto simp: apply_rule_def split: jsval.splits option.splits)
qed

lemma risk_rules_quiet:
  assumes "\<not> isHighRisk V T t ps" "\<forall>e \<in> set HIGH_RISK_PATTERNS. V (risk_pattern e)"
  shows "first_some (apply_rule V T t ps) risk_rules = None"
  unfolding first_some_None_iff
proof
  fix r
  assume r: "r \<in> set risk_rules"
  then obtain e where e: "e \<in> set HIGH_RISK_PATTERNS" "tool r \<in> set (tools e)"
      "rmatch r = Some \<lparr>param = risk_param e, pattern = risk_pattern e\<rparr>"
    by (auto simp: risk_rules_def)
  have "tool r \<noteq> ''*''"
    using e(1,2) by (auto simp: HIGH_RISK_PATTERNS_def)
  moreover have "permissionPatternIssue V (risk_pattern e) = None"
    using risk_rules_patterns [OF r e(3) assms(2)] by simp
  ultimately show "apply_rule V T t ps r = None"
    using assms e by (auto simp: isHighRisk_def list_ex_iff apply_rule_def split: jsval.splits)
qed

lemma preset_rules_quiet: "t \<noteq> ''dispatch'' \<Longrightarrow> first_some (apply_rule V T t ps) (preset_rules ab) = None"
  by (auto simp: first_some_None_iff preset_rules_def intro: apply_rule_other)

lemma meta_rules_tool: "r \<in> set (meta_rules md (u, meta)) \<Longrightarrow> tool r = u"
  by (auto simp: meta_rules_def plain_rule_def split: if_splits HarnessToolMutation.splits)

lemma meta_rules_decide:
  assumes "u \<noteq> ''experiment''"
  shows "first_some (apply_rule V T u ps) (meta_rules md (u, meta)) =
    Some \<lparr>gate_decision = defaultDecisionForAction (meta_action meta) md, reason = MatchedRule u\<rparr>"
  using assms by (auto simp: meta_rules_def apply_plain_rule split: HarnessToolMutation.split)

lemma meta_rules_first:
  assumes "(t, meta) \<in> set xs" "distinct (map fst xs)" "''*'' \<notin> fst ` set xs" "t \<noteq> ''experiment''"
  shows "first_some (apply_rule V T t ps) (concat (map (meta_rules md) xs)) =
    Some \<lparr>gate_decision = defaultDecisionForAction (meta_action meta) md, reason = MatchedRule t\<rparr>"
  using assms
proof (induction xs)
  case Nil
  then show ?case by simp
next
  case (Cons x xs)
  show ?case
  proof (cases "x = (t, meta)")
    case True
    with Cons.prems(4) show ?thesis by (simp add: meta_rules_decide)
  next
    case False
    with Cons.prems have "fst x \<noteq> t" "fst x \<noteq> ''*''" "(t, meta) \<in> set xs" by (auto simp: image_iff)
    then have "first_some (apply_rule V T t ps) (meta_rules md x) = None"
      unfolding first_some_None_iff
      by (cases x) (auto dest!: meta_rules_tool intro: apply_rule_other)
    with Cons \<open>(t, meta) \<in> set xs\<close> show ?thesis by simp
  qed
qed

lemma harness_table_keys: "distinct (map fst HARNESS_TOOL_META)" "''*'' \<notin> fst ` set HARNESS_TOOL_META"
  by (simp_all add: HARNESS_TOOL_META_def)

section \<open>Validation\<close>

lemma validate_match_Inr:
  "validate_match V m src = Inr r \<Longrightarrow>
     (case r of None \<Rightarrow> True | Some m \<Rightarrow> \<not> blank (param m) \<and> permissionPatternIssue V (pattern m) = None)"
  by (auto simp: validate_match_def throw_def split: if_splits jsval.splits option.splits)

lemma validatePermissionRule_valid: "validatePermissionRule V v src = Inr r \<Longrightarrow> valid_rule V r"
  by (auto simp: validatePermissionRule_def throw_def valid_rule_def outcome_simps
      dest: validate_match_Inr split: if_splits jsval.splits option.splits)

lemma validatePermissionRule_value: "valid_rule V r \<Longrightarrow> validatePermissionRule V (rule_value r) src = Inr r"
  by (cases "decision r"; cases "rmatch r")
    (auto simp: valid_rule_def validatePermissionRule_def rule_value_def own_prop_def decision_of_def
      validate_match_def)

lemma validate_rules_valid:
  assumes "validate_rules V vs src = Inr rs" "r \<in> set rs"
  shows "valid_rule V r"
proof -
  have "map (\<lambda>(i, v). validatePermissionRule V v (indexed_source src i)) (List.enumerate 0 vs) = map Inr rs"
    using assms(1) by (simp add: validate_rules_def ocollect_Inr_iff)
  then have "Inr r \<in> set (map (\<lambda>(i, v). validatePermissionRule V v (indexed_source src i)) (List.enumerate 0 vs))"
    using assms(2) by simp
  then show ?thesis
    by (auto dest: validatePermissionRule_valid [OF sym])
qed

lemma validate_rules_value:
  assumes "\<forall>r \<in> set rs. valid_rule V r"
  shows "validate_rules V (map rule_value rs) src = Inr rs"
  unfolding validate_rules_def ocollect_Inr_iff using assms
  by (auto intro!: nth_equalityI simp: nth_enumerate_eq validatePermissionRule_value)

lemma validate_mode_value: "validatePermissionMode (JString (mode_name md)) src = Inr md"
  by (cases md) (auto simp: validatePermissionMode_def PERMISSION_MODES_def)

lemma normalize_valid:
  assumes "normalizeFrozenHarnessPermissions V v = Inr p"
  shows "\<forall>r \<in> set (rules p). valid_rule V r"
  using assms
  by (auto simp: normalizeFrozenHarnessPermissions_def Let_def outcome_simps
      dest: validate_rules_valid split: if_splits jsval.splits)

lemma normalize_value:
  assumes "\<forall>r \<in> set (rules p). valid_rule V r"
  shows "normalizeFrozenHarnessPermissions V (policy_value p) = Inr p"
  using assms
  by (simp add: normalizeFrozenHarnessPermissions_def policy_value_def own_prop_def validate_mode_value
      validate_rules_value)

lemma valid_rule_gate:
  assumes "\<forall>r \<in> set (rules p). valid_rule V r"
  shows "\<nexists>issue. reason (evaluateGate V T t ps p) = InvalidRule issue"
proof (cases "first_some (apply_rule V T t ps) (rules p)")
  case None
  then show ?thesis by (simp add: evaluateGate_def)
next
  case (Some g)
  then obtain r where "r \<in> set (rules p)" "apply_rule V T t ps r = Some g"
    using first_some_SomeD by metis
  with assms Some show ?thesis
    by (auto simp: evaluateGate_def valid_rule_def dest!: apply_rule_cases)
qed

section \<open>Merging\<close>

lemma own_prop_Nil [simp]: "own_prop [] k = JUndefined"
  by (simp add: own_prop_def)

lemma merge_mode_None [simp]: "merge_mode um None = um"
  by (simp add: merge_mode_def)

lemma mergePolicies_Inr:
  assumes "mergePolicies V user ws = Inr p"
  obtains um req urs wrs where
    "mergePolicies V user [] = Inr \<lparr>mode = um, rules = urs\<rparr>"
    "p = \<lparr>mode = merge_mode um req, rules = filter (\<lambda>r. decision r \<noteq> Allow) wrs @ urs\<rparr>"
proof -
  obtain vs where vs: "own_prop user ''rules'' = JArray vs"
    using assms by (cases "own_prop user ''rules''") (auto simp: mergePolicies_def throw_def)
  have "\<exists>um req urs wrs. validatePermissionMode (own_prop user ''mode'') ''user permission'' = Inr um
      \<and> validate_rules V vs ''user permission'' = Inr urs
      \<and> p = \<lparr>mode = merge_mode um req, rules = filter (\<lambda>r. decision r \<noteq> Allow) wrs @ urs\<rparr>"
    using assms vs
    by (auto simp: mergePolicies_def throw_def obind_Inr_iff simp del: merge_mode_None split: if_split_asm)
  moreover have "validate_rules V [] src = Inr []" for src
    by (simp add: validate_rules_def)
  ultimately show ?thesis
    using that vs by (auto simp: mergePolicies_def)
qed

lemma merge_mode_bypass: "merge_mode um req = Bypass \<Longrightarrow> um = Bypass"
  by (cases um; cases req) (auto simp: merge_mode_def rank_greater_def split: if_splits option.splits)

lemma merge_mode_tightens:
  "um \<noteq> Smart \<Longrightarrow> merge_mode um req \<noteq> Smart \<and> the (mode_rank um) \<le> the (mode_rank (merge_mode um req))"
  by (cases um; cases req; cases "the req") (auto simp: merge_mode_def rank_greater_def)

lemma evaluateGate_prepend:
  assumes "\<forall>r \<in> set ws. decision r \<noteq> Allow" "md' = Bypass \<Longrightarrow> md = Bypass"
  shows "min Ask (gate_decision (evaluateGate V T t ps \<lparr>mode = md, rules = us\<rparr>))
    \<le> gate_decision (evaluateGate V T t ps \<lparr>mode = md', rules = ws @ us\<rparr>)"
proof (cases "first_some (apply_rule V T t ps) ws")
  case None
  then show ?thesis
    using assms(2)
    by (auto simp: evaluateGate_def less_eq_PermissionDecision_def min_def split: option.split)
next
  case (Some g)
  then obtain r where "r \<in> set ws" "apply_rule V T t ps r = Some g"
    using first_some_SomeD by metis
  then have "gate_decision g \<noteq> Allow"
    using apply_rule_cases assms(1) by fastforce
  then have "Ask \<le> gate_decision g"
    by (cases "gate_decision g") (auto simp: less_eq_PermissionDecision_def)
  with Some show ?thesis
    by (auto simp: evaluateGate_def intro: min.coboundedI1)
qed

text \<open>
  C19. A workspace overlay never grants: if the user's and the workspace's policies merge, the user's
  policy is valid on its own, and for every tool, every parameters and every expression engine the
  merged policy's decision is at least as strict as \<open>ask\<close> or as the user's decision, whichever is more
  permissive. In particular nothing the user's policy does not allow becomes allowed.
\<close>

theorem workspace_overlay_never_grants:
  assumes "mergePolicies V user workspace = Inr merged"
  shows "\<exists>own. mergePolicies V user [] = Inr own
    \<and> (\<forall>T t ps. min Ask (gate_decision (evaluateGate V T t ps own))
                 \<le> gate_decision (evaluateGate V T t ps merged))"
  by (rule mergePolicies_Inr [OF assms])
    (auto intro!: exI evaluateGate_prepend dest: merge_mode_bypass)

theorem workspace_overlay_never_grants_witness:
  "\<exists>own. mergePolicies (\<lambda>_. True)
       [(''mode'', JString ''accept-edits''), (''rules'', JArray [rule_value (plain_rule ''write'' Allow)])] [] = Inr own
    \<and> min Ask (gate_decision (evaluateGate (\<lambda>_. True) (\<lambda>p s. False) ''write'' [] own))
       \<le> gate_decision (evaluateGate (\<lambda>_. True) (\<lambda>p s. False) ''write'' []
            \<lparr>mode = Normal, rules = [plain_rule ''write'' Deny, plain_rule ''write'' Allow]\<rparr>)"
proof -
  have "mergePolicies (\<lambda>_. True)
       [(''mode'', JString ''accept-edits''), (''rules'', JArray [rule_value (plain_rule ''write'' Allow)])]
       [(''mode'', JString ''normal''), (''rules'', JArray [rule_value (plain_rule ''write'' Deny)])] =
     Inr \<lparr>mode = Normal, rules = [plain_rule ''write'' Deny, plain_rule ''write'' Allow]\<rparr>"
    by (simp add: mergePolicies_def own_prop_def rule_value_def plain_rule_def validatePermissionMode_def
        PERMISSION_MODES_def validate_rules_def validatePermissionRule_def decision_of_def validate_match_def
        merge_mode_def rank_greater_def blank_def js_space_def)
  from workspace_overlay_never_grants [OF this] show ?thesis by blast
qed


text \<open>
  High-risk calls are never let through by the default rules outside bypass mode: when \<open>isHighRisk\<close>
  holds the gate does not allow, and when the engine accepts the built-in expressions it asks.
\<close>

theorem high_risk_asks:
  assumes "md \<noteq> Bypass" "isHighRisk V T t ps"
  shows "gate_decision (evaluateGate V T t ps \<lparr>mode = md, rules = defaultRules md askBefore\<rparr>) \<noteq> Allow
    \<and> ((\<forall>e \<in> set HIGH_RISK_PATTERNS. V (risk_pattern e)) \<longrightarrow>
        gate_decision (evaluateGate V T t ps \<lparr>mode = md, rules = defaultRules md askBefore\<rparr>) = Ask)"
  using risk_rules_fire [OF assms(2)] assms(1)
  by (auto simp: evaluateGate_def defaultRules_def dest: risk_rules_first)

theorem high_risk_asks_witness:
  "isHighRisk (\<lambda>_. True) (\<lambda>p s. p = GIT_PATTERN) ''bash'' [(''command'', JString ''git push'')]
   \<and> gate_decision (evaluateGate (\<lambda>_. True) (\<lambda>p s. p = GIT_PATTERN) ''bash'' [(''command'', JString ''git push'')]
        \<lparr>mode = AcceptEdits, rules = defaultRules AcceptEdits []\<rparr>) = Ask"
proof -
  have "isHighRisk (\<lambda>_. True) (\<lambda>p s. p = GIT_PATTERN) ''bash'' [(''command'', JString ''git push'')]"
    by (simp add: isHighRisk_def HIGH_RISK_PATTERNS_def own_prop_def)
  with high_risk_asks [of AcceptEdits "\<lambda>_. True"] show ?thesis by simp
qed

text \<open>
  The generated rules agree with the action table: for every tool of the harness table other than
  \<open>dispatch\<close> and \<open>experiment\<close> (which have rules of their own), a call that is not high risk gets exactly the
  decision \<open>defaultDecisionForAction\<close> gives for the tool's action and the mode.
\<close>

theorem default_rules_follow_actions:
  assumes "(t, meta) \<in> set HARNESS_TOOL_META" "t \<noteq> ''dispatch''" "t \<noteq> ''experiment''"
    and "md = Bypass \<or> \<not> isHighRisk V T t ps" "\<forall>e \<in> set HIGH_RISK_PATTERNS. V (risk_pattern e)"
  shows "evaluateGate V T t ps \<lparr>mode = md, rules = defaultRules md askBefore\<rparr> =
    \<lparr>gate_decision = defaultDecisionForAction (meta_action meta) md, reason = MatchedRule t\<rparr>"
proof -
  have "first_some (apply_rule V T t ps) (if md \<noteq> Bypass then risk_rules else []) = None"
    using assms(4,5) risk_rules_quiet by auto
  with preset_rules_quiet [OF assms(2)] meta_rules_first [OF assms(1) harness_table_keys assms(3)] show ?thesis
    by (simp add: evaluateGate_def defaultRules_def)
qed

theorem default_rules_follow_actions_witness:
  "gate_decision (evaluateGate (\<lambda>_. True) (\<lambda>p s. False) ''edit'' [(''path'', JString ''a.ts'')]
     \<lparr>mode = AcceptEdits, rules = defaultRules AcceptEdits []\<rparr>) = Allow"
  using default_rules_follow_actions [of "''edit''" "plain_meta Journaled Parallel" AcceptEdits "\<lambda>_. True" "\<lambda>p s. False"]
  by (simp add: HARNESS_TOOL_META_def isHighRisk_def HIGH_RISK_PATTERNS_def own_prop_def plain_meta_def)

text \<open>
  A frozen policy is a fixed point: whatever value normalises, the result holds only valid rules,
  writing it back out and normalising again gives the same policy, and no call is ever denied under it for
  an invalid rule.
\<close>

theorem frozen_policy_fixed_point:
  assumes "normalizeFrozenHarnessPermissions V v = Inr p"
  shows "(\<forall>r \<in> set (rules p). valid_rule V r)
    \<and> normalizeFrozenHarnessPermissions V (policy_value p) = Inr p
    \<and> (\<forall>T t ps. \<nexists>issue. reason (evaluateGate V T t ps p) = InvalidRule issue)"
  using normalize_valid [OF assms] normalize_value valid_rule_gate by blast

theorem frozen_policy_fixed_point_witness:
  "normalizeFrozenHarnessPermissions (\<lambda>_. True) (JObject [(''rules'', JArray [JObject
      [(''tool'', JString ''bash''), (''decision'', JString ''deny''), (''note'', JNull)]])]) =
     Inr \<lparr>mode = Normal, rules = [plain_rule ''bash'' Deny]\<rparr>
   \<and> normalizeFrozenHarnessPermissions (\<lambda>_. True) (policy_value \<lparr>mode = Normal, rules = [plain_rule ''bash'' Deny]\<rparr>) =
     Inr \<lparr>mode = Normal, rules = [plain_rule ''bash'' Deny]\<rparr>"
proof -
  have "normalizeFrozenHarnessPermissions (\<lambda>_. True) (JObject [(''rules'', JArray [JObject
      [(''tool'', JString ''bash''), (''decision'', JString ''deny''), (''note'', JNull)]])]) =
     Inr \<lparr>mode = Normal, rules = [plain_rule ''bash'' Deny]\<rparr>"
    by (simp add: normalizeFrozenHarnessPermissions_def own_prop_def validate_rules_def
        validatePermissionRule_def decision_of_def validate_match_def blank_def js_space_def plain_rule_def)
  with frozen_policy_fixed_point [OF this] show ?thesis by blast
qed

end
