(* ===== verification/Permission_Patterns.thy ===== *)
theory Permission_Patterns
  imports Permission_Gate
begin

text \<open>
  What the pattern scanner of \<^verbatim>\<open>src/packages/protocol/src/permission-gate.ts\<close> decides, stated on the syntax
  tree of a regular expression instead of on its characters.

  A pattern is a list of items: literals, escapes, character classes, bars and groups, the atoms with an
  optional quantifier that may be lazy. \<open>show_items\<close> prints it, and the theorem says that the scanner
  rejects a printed pattern exactly when some group under a variable quantifier holds an alternation or
  another variable quantifier.
\<close>

section \<open>Patterns\<close>

datatype repetition = Star | Plus | Optional | Exactly string | Range string string | AtLeast string

type_synonym quantifier = "(repetition \<times> bool) option"

datatype item =
    Literal char quantifier
  | Escaped char quantifier
  | CharClass "(bool \<times> char) list" quantifier
  | Bar
  | Group bool "item list" quantifier

fun show_repetition :: "repetition \<Rightarrow> string" where
  "show_repetition Star = ''*''"
| "show_repetition Plus = ''+''"
| "show_repetition Optional = ''?''"
| "show_repetition (Exactly d) = ''{'' @ d @ ''}''"
| "show_repetition (Range d e) = ''{'' @ d @ '','' @ e @ ''}''"
| "show_repetition (AtLeast d) = ''{'' @ d @ '',}''"

fun show_quantifier :: "quantifier \<Rightarrow> string" where
  "show_quantifier None = []"
| "show_quantifier (Some (r, lazy)) = show_repetition r @ (if lazy then ''?'' else [])"

definition show_class :: "(bool \<times> char) list \<Rightarrow> string" where
  "show_class cs = concat (map (\<lambda>(esc, c). if esc then [backslash, c] else [c]) cs)"

fun show_items :: "item list \<Rightarrow> string" where
  "show_items [] = []"
| "show_items (Literal c q # is) = c # show_quantifier q @ show_items is"
| "show_items (Escaped c q # is) = backslash # c # show_quantifier q @ show_items is"
| "show_items (CharClass cs q # is) = CHR ''['' # show_class cs @ CHR '']'' # show_quantifier q @ show_items is"
| "show_items (Bar # is) = CHR ''|'' # show_items is"
| "show_items (Group nc b q # is) =
     CHR ''('' # (if nc then ''?:'' else []) @ show_items b @ CHR '')'' # show_quantifier q @ show_items is"

text \<open>Printable patterns: literals are not meta characters and repetition counts are numbers.\<close>

definition number :: "string \<Rightarrow> bool" where
  "number d \<longleftrightarrow> d \<noteq> [] \<and> list_all is_digit d"

fun wf_repetition :: "repetition \<Rightarrow> bool" where
  "wf_repetition (Exactly d) = number d"
| "wf_repetition (Range d e) = (number d \<and> number e)"
| "wf_repetition (AtLeast d) = number d"
| "wf_repetition _ = True"

fun wf_quantifier :: "quantifier \<Rightarrow> bool" where
  "wf_quantifier None = True"
| "wf_quantifier (Some (r, lazy)) = wf_repetition r"

fun wf_items :: "item list \<Rightarrow> bool" where
  "wf_items [] = True"
| "wf_items (Literal c q # is) = (c \<notin> set (backslash # ''[()|*+?{'') \<and> wf_quantifier q \<and> wf_items is)"
| "wf_items (Escaped c q # is) = (wf_quantifier q \<and> wf_items is)"
| "wf_items (CharClass cs q # is) =
     (list_all (\<lambda>(esc, c). esc \<or> c \<noteq> backslash \<and> c \<noteq> CHR '']'') cs \<and> wf_quantifier q \<and> wf_items is)"
| "wf_items (Bar # is) = wf_items is"
| "wf_items (Group nc b q # is) = (wf_items b \<and> wf_quantifier q \<and> wf_items is)"

section \<open>What the scanner looks for\<close>

text \<open>
  \<open>repeats\<close> is the code's notion of a variable repetition, which leaves out \<open>{n,}\<close>; a lazy mark counts as a
  variable quantifier of the enclosing groups.
\<close>

fun repeats :: "quantifier \<Rightarrow> bool" where
  "repeats None = False"
| "repeats (Some (Exactly d, lazy)) = False"
| "repeats (Some (Range d e, lazy)) = (e \<noteq> d)"
| "repeats (Some (AtLeast d, lazy)) = False"
| "repeats (Some (r, lazy)) = True"

definition marks :: "quantifier \<Rightarrow> bool" where
  "marks q \<longleftrightarrow> repeats q \<or> (\<exists>r. q = Some (r, True))"

fun has_bar :: "item list \<Rightarrow> bool" where
  "has_bar [] = False"
| "has_bar (Bar # is) = True"
| "has_bar (Group nc b q # is) = (has_bar b \<or> has_bar is)"
| "has_bar (_ # is) = has_bar is"

fun has_repeat :: "item list \<Rightarrow> bool" where
  "has_repeat [] = False"
| "has_repeat (Bar # is) = has_repeat is"
| "has_repeat (Group nc b q # is) = (has_repeat b \<or> marks q \<or> has_repeat is)"
| "has_repeat (Literal c q # is) = (marks q \<or> has_repeat is)"
| "has_repeat (Escaped c q # is) = (marks q \<or> has_repeat is)"
| "has_repeat (CharClass cs q # is) = (marks q \<or> has_repeat is)"

fun nested_repeat :: "item list \<Rightarrow> bool" where
  "nested_repeat [] = False"
| "nested_repeat (Group nc b q # is) =
     (nested_repeat b \<or> repeats q \<and> (has_bar b \<or> has_repeat b) \<or> nested_repeat is)"
| "nested_repeat (_ # is) = nested_repeat is"

section \<open>Effect of a printed pattern on the scanner's state\<close>

definition mark :: "bool \<Rightarrow> bool \<Rightarrow> group list \<Rightarrow> group list" where
  "mark a v stack =
     (case stack of
        [] \<Rightarrow> []
      | g # gs \<Rightarrow> \<lparr>alternation = alternation g \<or> a, variableQuantifier = variableQuantifier g \<or> v\<rparr>
                 # map (\<lambda>g. g\<lparr>variableQuantifier := variableQuantifier g \<or> v\<rparr>) gs)"

fun closed_after :: "group option \<Rightarrow> item list \<Rightarrow> group option" where
  "closed_after closed [] = closed"
| "closed_after closed (Group nc b None # is) =
     closed_after (Some \<lparr>alternation = has_bar b, variableQuantifier = has_repeat b\<rparr>) is"
| "closed_after closed (_ # is) = closed_after None is"

lemma marks_None [simp]: "\<not> marks None"
  by (simp add: marks_def)

lemma group_eqI: "alternation g = alternation h \<Longrightarrow> variableQuantifier g = variableQuantifier h \<Longrightarrow> g = (h :: group)"
  by (cases g; cases h) simp

lemma mark_mark [simp]: "mark a v (mark b w stack) = mark (b \<or> a) (w \<or> v) stack"
  by (cases stack) (auto simp: mark_def)

lemma mark_False [simp]: "mark False False stack = stack"
  by (cases stack) (auto simp: mark_def intro!: group_eqI map_idI)

lemma mark_repeat: "map (\<lambda>g. g\<lparr>variableQuantifier := True\<rparr>) stack = mark False True stack"
  by (cases stack) (auto simp: mark_def intro!: group_eqI)

lemma mark_bar: "mark_alternation stack = mark True False stack"
  by (cases stack) (auto simp: mark_def mark_alternation_def intro!: group_eqI map_idI [symmetric])

lemma mark_group:
  "mark a v (\<lparr>alternation = False, variableQuantifier = False\<rparr> # stack) =
     \<lparr>alternation = a, variableQuantifier = v\<rparr> # map (\<lambda>g. g\<lparr>variableQuantifier := variableQuantifier g \<or> v\<rparr>) stack"
  by (simp add: mark_def)

lemma merge_mark:
  "merge_into_parent \<lparr>alternation = a, variableQuantifier = v\<rparr>
     (map (\<lambda>g. g\<lparr>variableQuantifier := variableQuantifier g \<or> v\<rparr>) stack) = mark a v stack"
  by (cases stack) (auto simp: merge_into_parent_def mark_def)

lemma takeWhile_digits:
  "list_all is_digit d \<Longrightarrow> \<not> is_digit c \<Longrightarrow> takeWhile is_digit (d @ c # rest) = d"
  "list_all is_digit d \<Longrightarrow> \<not> is_digit c \<Longrightarrow> dropWhile is_digit (d @ c # rest) = c # rest"
  by (induction d) auto

lemma brace_match_shapes:
  assumes "number d"
  shows "brace_match (CHR ''{'' # d @ CHR ''}'' # rest) = Some (2 + length d, d, None)"
    and "brace_match (CHR ''{'' # d @ CHR '','' # CHR ''}'' # rest) = Some (3 + length d, d, None)"
    and "number e \<Longrightarrow> brace_match (CHR ''{'' # d @ CHR '','' # e @ CHR ''}'' # rest)
      = Some (3 + length d + length e, d, Some e)"
  using assms by (auto simp: brace_match_def number_def takeWhile_digits is_digit_def Let_def)

lemma scan_other:
  assumes "c \<notin> set (backslash # ''[()|'')"
  shows "scan (c # cs) stack False False closed =
    (case quantifier_at c cs of
       (variable, rest) \<Rightarrow>
         if variable then
           (if \<not> quantifiable closed then Some QUANTIFIED_GROUP_ISSUE
            else scan rest (mark False True stack) False False None)
         else scan rest stack False False None)"
  using assms by (simp add: scan.simps(2) flip: mark_repeat split: prod.split)

lemma scan_repetition:
  assumes "wf_repetition r"
  shows "scan (show_repetition r @ rest) stack False False closed =
    (if repeats (Some (r, False)) \<and> \<not> quantifiable closed then Some QUANTIFIED_GROUP_ISSUE
     else scan rest (mark False (repeats (Some (r, False))) stack) False False None)"
  using assms
  by (cases r) (auto simp: scan_other quantifier_at_def backslash_def brace_match_shapes)

lemma repeats_lazy: "repeats (Some (r, lazy)) = repeats (Some (r, False))"
  by (cases r) auto

lemma scan_lazy: "scan (CHR ''?'' # rest) stack False False None = scan rest (mark False True stack) False False None"
  by (simp add: scan_other quantifier_at_def backslash_def quantifiable_def)

lemma scan_quantifier:
  assumes "wf_quantifier q"
  shows "scan (show_quantifier q @ rest) stack False False closed =
    (if repeats q \<and> \<not> quantifiable closed then Some QUANTIFIED_GROUP_ISSUE
     else scan rest (mark False (marks q) stack) False False (if q = None then closed else None))"
proof (cases q)
  case None
  then show ?thesis by (simp add: marks_def)
next
  case (Some p)
  obtain r lazy where "p = (r, lazy)" by (cases p)
  with Some assms show ?thesis
    by (cases lazy) (auto simp: scan_repetition scan_lazy repeats_lazy [of r True] marks_def)
qed

lemma scan_class:
  assumes "list_all (\<lambda>(esc, c). esc \<or> c \<noteq> backslash \<and> c \<noteq> CHR '']'') cs"
  shows "scan (show_class cs @ CHR '']'' # rest) stack True False None = scan rest stack False False None"
  using assms
proof (induction cs)
  case Nil
  then show ?case by (simp add: show_class_def scan.simps(2) backslash_def)
next
  case (Cons x cs)
  then show ?case
    by (cases x) (auto simp: show_class_def scan.simps(2))
qed

lemma show_items_head: "wf_items is \<Longrightarrow> \<not> prefix ''?:'' (show_items is @ CHR '')'' # rest)"
  by (cases "is" rule: show_items.cases) (auto simp: backslash_def)

lemma scan_items:
  assumes "wf_items is"
  shows "scan (show_items is @ rest) stack False False closed =
    (if nested_repeat is then Some QUANTIFIED_GROUP_ISSUE
     else scan rest (mark (has_bar is) (has_repeat is) stack) False False (closed_after closed is))"
  using assms
proof (induction "is" arbitrary: rest stack closed rule: show_items.induct)
  case 1
  then show ?case by simp
next
  case (2 c q "is")
  then have "scan (c # cs) stack False False closed = scan cs stack False False None" for cs
    by (simp add: scan_other quantifier_at_def)
  with 2 show ?case by (cases q) (auto simp: scan_quantifier quantifiable_def)
next
  case (3 c q "is")
  have "scan (backslash # c # cs) stack False False closed = scan cs stack False False None" for cs
    by (simp add: scan.simps(2))
  with 3 show ?case by (cases q) (auto simp: scan_quantifier quantifiable_def)
next
  case (4 cs q "is")
  have "scan (CHR ''['' # xs) stack False False closed = scan xs stack True False None" for xs
    by (simp add: scan.simps(2) backslash_def)
  with 4 show ?case by (cases q) (auto simp: scan_class scan_quantifier quantifiable_def)
next
  case (5 "is")
  have "scan (CHR ''|'' # xs) stack False False closed = scan xs (mark True False stack) False False None" for xs
    by (simp add: scan.simps(2) backslash_def mark_bar)
  with 5 show ?case by simp
next
  case (6 nc b q "is")
  let ?g = "\<lparr>alternation = has_bar b, variableQuantifier = has_repeat b\<rparr>"
  let ?rest = "show_quantifier q @ show_items is @ rest"
  have "after_open (show_items b @ CHR '')'' # xs) = show_items b @ CHR '')'' # xs"
      "after_open (''?:'' @ xs) = xs" for xs
    using show_items_head [of b] 6 by (auto simp: after_open_def)
  then have op: "scan (show_items (Group nc b q # is) @ rest) stack False False closed =
      scan (show_items b @ CHR '')'' # ?rest) (\<lparr>alternation = False, variableQuantifier = False\<rparr> # stack) False False None"
    by (cases nc) (simp_all add: scan.simps(2) backslash_def)
  have cl: "scan (CHR '')'' # xs) (mark (has_bar b) (has_repeat b)
        (\<lparr>alternation = False, variableQuantifier = False\<rparr> # stack)) False False c =
      scan xs (mark (has_bar b) (has_repeat b) stack) False False (Some ?g)" for xs c
    by (simp add: scan.simps(2) backslash_def mark_group merge_mark)
  from 6 show ?case
    unfolding op
    by (cases q) (simp_all add: cl scan_quantifier quantifiable_def, blast)
qed

section \<open>Properties\<close>



text \<open>
  The unbounded repetition \<open>{n,}\<close> escapes the scanner: the pattern \<open>(a+)*b\<close> is rejected but the
  equivalent \<open>(a{1,})*b\<close> is accepted, since the second captured group of the brace expression is undefined
  when the upper bound is missing.
\<close>

theorem unbounded_brace_escapes_scanner:
  "permissionPatternIssue (\<lambda>_. True) ''(a+)*b'' = Some QUANTIFIED_GROUP_ISSUE
   \<and> permissionPatternIssue (\<lambda>_. True) ''(a{1,})*b'' = None"
  by (simp add: permissionPatternIssue_def MAX_PERMISSION_PATTERN_LENGTH_def backslash_def is_digit_def
      scan.simps quantifier_at_def after_open_def merge_into_parent_def quantifiable_def brace_match_def)

end
