(* ===== verification/Thread_Scope.thy ===== *)
theory Thread_Scope
  imports Varin_Prelude
begin

text \<open>
  Scopes of nested threads, \<^verbatim>\<open>src/packages/web/application-host/lib/harness/thread-nesting.ts\<close>.

  A scope is a path relative to the workspace. The code parses it with string replacements and compares
  strings; the theorems relate this to the list of path segments: a parsed scope has only proper segments,
  and containment is the prefix relation on segments.
\<close>

section \<open>Definitions\<close>

definition THREAD_CONTROL_TOOL_NAMES :: "string list" where
  "THREAD_CONTROL_TOOL_NAMES =
     [''dispatch'', ''threads'', ''wait'', ''send'', ''read_thread'', ''history'', ''merge'', ''update'', ''kill'']"

definition ascii_letter :: "char \<Rightarrow> bool" where
  "ascii_letter c \<longleftrightarrow> (let n = of_char c :: nat in 65 \<le> n \<and> n \<le> 90 \<or> 97 \<le> n \<and> n \<le> 122)"

text \<open>\<open>/^[A-Za-z]:/.test(value)\<close>\<close>

fun drive_prefix :: "string \<Rightarrow> bool" where
  "drive_prefix (c # d # rest) = (ascii_letter c \<and> d = CHR '':'')"
| "drive_prefix _ = False"

definition isAbsoluteThreadScope :: "string \<Rightarrow> string \<Rightarrow> bool" where
  "isAbsoluteThreadScope v normalized \<longleftrightarrow>
     prefix ''/'' normalized \<or> prefix [CHR 0x5C] normalized \<or> drive_prefix v \<or> drive_prefix normalized"

text \<open>\<open>value.replace(/\\/g, "/").replace(/^\.\//, "").replace(/\/+$/, "")\<close>\<close>

definition to_slashes :: "string \<Rightarrow> string" where
  "to_slashes = map (\<lambda>c. if c = CHR 0x5C then CHR ''/'' else c)"

definition strip_dot_slash :: "string \<Rightarrow> string" where
  "strip_dot_slash s = (if prefix ''./'' s then drop 2 s else s)"

definition strip_trailing_slashes :: "string \<Rightarrow> string" where
  "strip_trailing_slashes s = rev (dropWhile (\<lambda>c. c = CHR ''/'') (rev s))"

definition slashNormalized :: "string \<Rightarrow> string" where
  "slashNormalized v = strip_trailing_slashes (strip_dot_slash (to_slashes v))"

text \<open>\<open>Inl path\<close> is \<open>{ ok: false, path }\<close>.\<close>

definition scope_parts :: "string \<Rightarrow> string list" where
  "scope_parts s = filter (\<lambda>part. length part > 0 \<and> part \<noteq> ''.'') (split_on CHR ''/'' s)"

definition parseThreadScopePath :: "string \<Rightarrow> (string, string) outcome" where
  "parseThreadScopePath v =
     (let normalized = slashNormalized v
      in if isAbsoluteThreadScope v normalized then Inl v
         else
           let parts = scope_parts normalized
           in if ''..'' \<in> set parts then Inl v
              else Inr (if parts = [] then (if normalized = ''.'' then ''.'' else [])
                        else join_with ''/'' parts))"

definition normalizeThreadScopePath :: "string \<Rightarrow> (string, string) outcome" where
  "normalizeThreadScopePath v =
     (case parseThreadScopePath v of
        Inl p \<Rightarrow> Inl (''Thread scope must be a relative workspace path without '' @ [CHR 0x27] @ ''..'' @ [CHR 0x27]
                      @ '': '' @ v)
      | Inr p \<Rightarrow> Inr p)"

fun scope_loop :: "string list \<Rightarrow> string list \<Rightarrow> string list \<Rightarrow> string list \<times> string list" where
  "scope_loop [] expanded normalized = (expanded, normalized)"
| "scope_loop (path # paths) expanded normalized =
     (case parseThreadScopePath path of
        Inl _ \<Rightarrow> scope_loop paths (expanded @ [path]) normalized
      | Inr p \<Rightarrow> scope_loop paths expanded (normalized @ [p]))"

definition normalizeScopeList :: "string list \<Rightarrow> (string list, string list) outcome" where
  "normalizeScopeList paths =
     (case scope_loop paths [] [] of
        (expanded, normalized) \<Rightarrow> if length expanded > 0 then Inl expanded else Inr normalized)"

definition scopePathContainedBy :: "string \<Rightarrow> string \<Rightarrow> bool" where
  "scopePathContainedBy parentScope childPath =
     (case (parseThreadScopePath parentScope, parseThreadScopePath childPath) of
        (Inr parent, Inr child) \<Rightarrow>
          if parent = [] \<or> parent = ''.'' then True
          else if child = [] \<or> child = ''.'' then False
          else child = parent \<or> prefix (parent @ ''/'') child
      | _ \<Rightarrow> False)"

text \<open>\<open>requested\<close> is \<open>None\<close> for \<open>undefined\<close>; \<open>!requested?.length\<close> holds for it and for the empty list.\<close>

definition resolveNestedThreadScope ::
  "string list \<Rightarrow> string list option \<Rightarrow> (string list, string list) outcome" where
  "resolveNestedThreadScope parentScope requested =
     (case normalizeScopeList parentScope of
        Inl expanded \<Rightarrow> Inl expanded
      | Inr parents \<Rightarrow>
          if length parents = 0 then
            (case requested of
               None \<Rightarrow> Inr []
             | Some req \<Rightarrow> if length req = 0 then Inr [] else normalizeScopeList req)
          else
            (case requested of
               None \<Rightarrow> Inr parents
             | Some req \<Rightarrow>
                 if length req = 0 then Inr parents
                 else (case normalizeScopeList req of
                         Inl expanded \<Rightarrow> Inl expanded
                       | Inr paths \<Rightarrow>
                           let expanded = filter (\<lambda>path. \<not> list_ex (\<lambda>root. scopePathContainedBy root path) parents) paths
                           in if length expanded > 0 then Inl expanded else Inr paths)))"

section \<open>Segments\<close>

text \<open>
  The abstraction: the segments of a parsed scope, and the set of segment lists a scope grants (an empty
  scope list grants the whole workspace).
\<close>

definition segments :: "string \<Rightarrow> string list" where
  "segments p = (if p = [] \<or> p = ''.'' then [] else split_on CHR ''/'' p)"

definition proper_segment :: "string \<Rightarrow> bool" where
  "proper_segment s \<longleftrightarrow> s \<noteq> [] \<and> s \<noteq> ''.'' \<and> s \<noteq> ''..'' \<and> CHR ''/'' \<notin> set s"

definition granted :: "string list \<Rightarrow> string list set" where
  "granted scope = (if scope = [] then UNIV else {path. \<exists>s \<in> set scope. prefix (segments s) path})"

lemma scope_parts_proper:
  "p \<in> set (scope_parts s) \<Longrightarrow> ''..'' \<notin> set (scope_parts s) \<Longrightarrow> proper_segment p"
  by (auto simp: scope_parts_def proper_segment_def dest: split_on_no_sep)

lemma split_on_append: "split_on c (a @ c # b) = split_on c a @ split_on c b"
proof (induction a)
  case Nil
  then show ?case by simp
next
  case (Cons x a)
  then show ?case
    by (cases "split_on c a") auto
qed

lemma join_with_append:
  "ps \<noteq> [] \<Longrightarrow> qs \<noteq> [] \<Longrightarrow> join_with sep (ps @ qs) = join_with sep ps @ sep @ join_with sep qs"
  by (induction sep ps rule: join_with.induct) (auto simp: join_with_Cons)

lemma set_join_with: "set (join_with sep ps) \<subseteq> set sep \<union> (\<Union>p \<in> set ps. set p)"
  by (induction sep ps rule: join_with.induct) auto

lemma prefix_segments:
  assumes "ps \<noteq> []" "qs \<noteq> []" "\<forall>p \<in> set ps \<union> set qs. c \<notin> set p"
  shows "prefix ps qs \<longleftrightarrow> join_with [c] qs = join_with [c] ps \<or> prefix (join_with [c] ps @ [c]) (join_with [c] qs)"
proof
  assume "prefix ps qs"
  then obtain rs where "qs = ps @ rs" by (auto simp: prefix_def)
  with assms(1) show "join_with [c] qs = join_with [c] ps \<or> prefix (join_with [c] ps @ [c]) (join_with [c] qs)"
    by (cases "rs = []") (auto simp: join_with_append)
next
  have split: "split_on c (join_with [c] ps) = ps" "split_on c (join_with [c] qs) = qs"
    using assms by (auto intro: split_on_join_with)
  assume "join_with [c] qs = join_with [c] ps \<or> prefix (join_with [c] ps @ [c]) (join_with [c] qs)"
  then show "prefix ps qs"
  proof
    assume "join_with [c] qs = join_with [c] ps"
    with split show ?thesis by simp
  next
    assume "prefix (join_with [c] ps @ [c]) (join_with [c] qs)"
    then obtain zs where "join_with [c] qs = join_with [c] ps @ c # zs" by (auto simp: prefix_def)
    then have "qs = ps @ split_on c zs"
      using split split_on_append [of c "join_with [c] ps" zs] by simp
    then show ?thesis by simp
  qed
qed

section \<open>Parsed scopes\<close>

text \<open>A parsed scope is empty, a dot, or a join of proper segments without backslashes.\<close>

definition parsed_scope :: "string \<Rightarrow> bool" where
  "parsed_scope p \<longleftrightarrow> p = [] \<or> p = ''.'' \<or>
     (\<exists>parts. parts \<noteq> [] \<and> (\<forall>x \<in> set parts. proper_segment x \<and> CHR 0x5C \<notin> set x) \<and> p = join_with ''/'' parts)"

lemma split_on_set: "p \<in> set (split_on c xs) \<Longrightarrow> set p \<subseteq> set xs"
proof (induction xs arbitrary: p)
  case Nil
  then show ?case by simp
next
  case (Cons x xs)
  then show ?case by (cases "split_on c xs") (fastforce split: if_splits)+
qed

lemma slashNormalized_no_backslash: "CHR 0x5C \<notin> set (slashNormalized v)"
proof -
  have "set (slashNormalized v) \<subseteq> set (to_slashes v)"
    unfolding slashNormalized_def strip_trailing_slashes_def strip_dot_slash_def
    by (auto dest!: set_dropWhileD in_set_dropD split: if_splits)
  then show ?thesis
    by (auto simp: to_slashes_def)
qed

lemma parse_parsed: "parseThreadScopePath v = Inr p \<Longrightarrow> parsed_scope p"
proof -
  assume *: "parseThreadScopePath v = Inr p"
  let ?parts = "scope_parts (slashNormalized v)"
  from * have dd: "''..'' \<notin> set ?parts"
    and p: "p = (if ?parts = [] then (if slashNormalized v = ''.'' then ''.'' else []) else join_with ''/'' ?parts)"
    by (auto simp: parseThreadScopePath_def Let_def split: if_splits)
  have "CHR 0x5C \<notin> set x" if "x \<in> set ?parts" for x
    using that split_on_set slashNormalized_no_backslash [of v] by (fastforce simp: scope_parts_def)
  with dd p scope_parts_proper show ?thesis
    unfolding parsed_scope_def by metis
qed

lemma parsed_join_facts:
  assumes "parts \<noteq> []" "\<forall>x \<in> set parts. proper_segment x \<and> CHR 0x5C \<notin> set x"
  shows "split_on CHR ''/'' (join_with ''/'' parts) = parts" "join_with ''/'' parts \<noteq> []"
    "join_with ''/'' parts \<noteq> ''.''" "CHR 0x5C \<notin> set (join_with ''/'' parts)"
    "last (join_with ''/'' parts) \<noteq> CHR ''/''"
    "\<not> prefix ''/'' (join_with ''/'' parts)" "\<not> prefix ''./'' (join_with ''/'' parts)"
proof -
  show sp: "split_on CHR ''/'' (join_with ''/'' parts) = parts"
    using assms by (intro split_on_join_with) (auto simp: proper_segment_def)
  obtain x xs where x: "parts = x # xs" "proper_segment x"
    using assms by (cases parts) auto
  show "join_with ''/'' parts \<noteq> []"
    using x by (auto simp: join_with_Cons proper_segment_def)
  show "join_with ''/'' parts \<noteq> ''.''"
    using sp x by (auto simp: proper_segment_def)
  show "CHR 0x5C \<notin> set (join_with ''/'' parts)"
    using set_join_with [of "''/''" parts] assms(2) by auto
  obtain ys y where y: "parts = ys @ [y]" "proper_segment y"
    using assms by (cases parts rule: rev_cases) auto
  have "join_with ''/'' parts = (if ys = [] then [] else join_with ''/'' ys @ ''/'') @ y"
    using y by (simp add: join_with_append)
  then have "last (join_with ''/'' parts) = last y"
    using y(2) by (auto simp: proper_segment_def)
  with y(2) show "last (join_with ''/'' parts) \<noteq> CHR ''/''"
    using last_in_set by (fastforce simp: proper_segment_def)
  show "\<not> prefix ''/'' (join_with ''/'' parts)"
    using x by (cases x) (auto simp: join_with_Cons proper_segment_def)
  show "\<not> prefix ''./'' (join_with ''/'' parts)"
  proof
    assume "prefix ''./'' (join_with ''/'' parts)"
    then obtain zs where "join_with ''/'' parts = ''.'' @ CHR ''/'' # zs" by (auto simp: prefix_def)
    then have "parts = ''.'' # split_on CHR ''/'' zs"
      using sp split_on_append_sep [of "CHR ''/''" "''.''" zs] by simp
    with x show False by (simp add: proper_segment_def)
  qed
qed

lemma slashNormalized_id:
  assumes "CHR 0x5C \<notin> set p" "p = [] \<or> last p \<noteq> CHR ''/''" "\<not> prefix ''./'' p"
  shows "slashNormalized p = p"
proof -
  have "to_slashes p = p"
    using assms(1) by (auto simp: to_slashes_def intro: map_idI)
  moreover have "strip_trailing_slashes p = p"
    using assms(2) by (cases p rule: rev_cases) (auto simp: strip_trailing_slashes_def)
  ultimately show ?thesis
    using assms(3) by (simp add: slashNormalized_def strip_dot_slash_def)
qed

lemma reparse:
  assumes "parsed_scope p"
  shows "parseThreadScopePath p = (if drive_prefix p then Inl p else Inr p)"
proof -
  consider "p = []" | "p = ''.''"
    | parts where "parts \<noteq> []" "\<forall>x \<in> set parts. proper_segment x \<and> CHR 0x5C \<notin> set x" "p = join_with ''/'' parts"
    using assms unfolding parsed_scope_def by blast
  then show ?thesis
  proof cases
    case 3
    note f = parsed_join_facts [OF 3(1,2), folded 3(3)]
    have "\<not> prefix [CHR 0x5C] p"
      using f(4) by (auto simp: prefix_def)
    moreover have "slashNormalized p = p"
      using f by (intro slashNormalized_id) auto
    moreover have "scope_parts p = parts"
      unfolding scope_parts_def f(1) using 3(2) by (intro filter_True) (auto simp: proper_segment_def)
    moreover have "''..'' \<notin> set parts"
      using 3(2) by (auto simp: proper_segment_def)
    ultimately show ?thesis
      using f(6) 3 by (auto simp: parseThreadScopePath_def isAbsoluteThreadScope_def Let_def)
  qed (simp_all add: parseThreadScopePath_def slashNormalized_def to_slashes_def strip_dot_slash_def
      strip_trailing_slashes_def isAbsoluteThreadScope_def scope_parts_def)
qed

lemma segments_join:
  assumes "parts \<noteq> []" "\<forall>x \<in> set parts. proper_segment x \<and> CHR 0x5C \<notin> set x"
  shows "segments (join_with ''/'' parts) = parts"
  using parsed_join_facts [OF assms] by (simp add: segments_def)

lemma parsed_segments: "parsed_scope p \<Longrightarrow> x \<in> set (segments p) \<Longrightarrow> proper_segment x"
  unfolding parsed_scope_def by (auto simp: segments_join) (auto simp: segments_def)

lemma contained_iff_prefix:
  assumes "parseThreadScopePath a = Inr p" "parseThreadScopePath b = Inr q"
  shows "scopePathContainedBy a b \<longleftrightarrow> prefix (segments p) (segments q)"
proof -
  have "parsed_scope p" "parsed_scope q"
    using assms parse_parsed by auto
  then consider "p = [] \<or> p = ''.''" | "q = [] \<or> q = ''.''" "p \<noteq> []" "p \<noteq> ''.''" "segments p \<noteq> []"
    | ps qs where "ps \<noteq> []" "\<forall>x \<in> set ps. proper_segment x \<and> CHR 0x5C \<notin> set x" "p = join_with ''/'' ps"
       "qs \<noteq> []" "\<forall>x \<in> set qs. proper_segment x \<and> CHR 0x5C \<notin> set x" "q = join_with ''/'' qs"
    unfolding parsed_scope_def by (metis segments_join)
  then show ?thesis
  proof cases
    case 1
    then show ?thesis using assms by (auto simp: scopePathContainedBy_def segments_def)
  next
    case 2
    then have "segments q = []" by (auto simp: segments_def)
    with 2 show ?thesis using assms by (auto simp: scopePathContainedBy_def)
  next
    case (3 ps qs)
    have "prefix ps qs \<longleftrightarrow> q = p \<or> prefix (p @ ''/'') q"
      unfolding 3(3,6) using 3 by (intro prefix_segments) (auto simp: proper_segment_def)
    moreover have "p \<noteq> []" "p \<noteq> ''.''" "q \<noteq> []" "q \<noteq> ''.''"
      using parsed_join_facts [OF 3(1,2)] parsed_join_facts [OF 3(4,5)] 3(3,6) by auto
    ultimately show ?thesis
      using assms 3 segments_join [OF 3(1,2)] segments_join [OF 3(4,5)] by (simp add: scopePathContainedBy_def)
  qed
qed

section \<open>Lists of scopes\<close>

lemma scope_loop_spec:
  "scope_loop paths ex nm =
    (ex @ filter (\<lambda>p. isl (parseThreadScopePath p)) paths,
     nm @ map projr (filter (Not \<circ> isl) (map parseThreadScopePath paths)))"
  by (induction paths arbitrary: ex nm) (auto split: sum.splits)

lemma normalizeScopeList_Inr:
  "normalizeScopeList paths = Inr ps \<longleftrightarrow> map parseThreadScopePath paths = map Inr ps"
proof -
  have "filter (\<lambda>p. isl (parseThreadScopePath p)) paths = [] \<longleftrightarrow> (\<forall>p \<in> set paths. \<not> isl (parseThreadScopePath p))"
    by (auto simp: filter_empty_conv)
  moreover have "(\<forall>p \<in> set paths. \<not> isl (parseThreadScopePath p)) \<Longrightarrow>
      map projr (filter (Not \<circ> isl) (map parseThreadScopePath paths)) = map (projr \<circ> parseThreadScopePath) paths"
    by (simp add: filter_True)
  moreover have "map parseThreadScopePath paths = map Inr ps \<longleftrightarrow>
      (\<forall>p \<in> set paths. \<not> isl (parseThreadScopePath p)) \<and> map (projr \<circ> parseThreadScopePath) paths = ps"
    by (induction paths arbitrary: ps) (auto simp: Cons_eq_map_conv)
  ultimately show ?thesis
    by (auto simp: normalizeScopeList_def scope_loop_spec)
qed

lemma normalized_parsed: "normalizeScopeList paths = Inr ps \<Longrightarrow> p \<in> set ps \<Longrightarrow> parsed_scope p"
proof -
  assume "normalizeScopeList paths = Inr ps" "p \<in> set ps"
  then have "Inr p \<in> set (map parseThreadScopePath paths)"
    by (simp add: normalizeScopeList_Inr)
  then show ?thesis
    using parse_parsed by force
qed

lemma contained_parsed:
  assumes "parsed_scope r" "parsed_scope p" "scopePathContainedBy r p"
  shows "prefix (segments r) (segments p)"
proof -
  have "parseThreadScopePath r = Inr r" "parseThreadScopePath p = Inr p"
    using assms reparse by (auto simp: scopePathContainedBy_def split: if_splits)
  with assms(3) show ?thesis
    using contained_iff_prefix by blast
qed

section \<open>Properties\<close>

text \<open>
  Containment of scopes is the prefix relation on path segments: for two scopes that parse,
  \<open>scopePathContainedBy\<close>, which compares strings, holds exactly when the segments of the parent are an
  initial part of the segments of the child (so \<open>src\<close> contains \<open>src/a\<close> and not \<open>src2\<close>).
\<close>

theorem scope_containment_is_segment_prefix:
  assumes "parseThreadScopePath parent = Inr p" "parseThreadScopePath child = Inr c"
  shows "scopePathContainedBy parent child \<longleftrightarrow> prefix (segments p) (segments c)"
  using assms by (rule contained_iff_prefix)

theorem scope_containment_is_segment_prefix_witness:
  "\<not> scopePathContainedBy ''./src/'' ''src2''"
proof -
  have "parseThreadScopePath ''./src/'' = Inr ''src''" "parseThreadScopePath ''src2'' = Inr ''src2''"
    by (simp_all add: parseThreadScopePath_def slashNormalized_def to_slashes_def strip_dot_slash_def
        strip_trailing_slashes_def isAbsoluteThreadScope_def scope_parts_def)
  from scope_containment_is_segment_prefix [OF this] show ?thesis
    by (simp add: segments_def)
qed

text \<open>
  C20. A nested thread never gets more than its parent: when \<open>resolveNestedThreadScope\<close> succeeds, every
  path of the resulting scope consists of proper segments (none is empty, a dot, or two dots), and every
  workspace path the resulting scope grants is granted by the parent's scope.
\<close>

theorem nested_scope_never_expands:
  assumes "resolveNestedThreadScope parentScope requested = Inr scope"
  shows "\<exists>parents. normalizeScopeList parentScope = Inr parents \<and> granted scope \<subseteq> granted parents
    \<and> (\<forall>p \<in> set scope. \<forall>s \<in> set (segments p). proper_segment s)"
proof -
  obtain parents where parents: "normalizeScopeList parentScope = Inr parents"
    using assms by (cases "normalizeScopeList parentScope") (auto simp: resolveNestedThreadScope_def)
  have "parents = [] \<and> (scope = [] \<or> (\<exists>req. normalizeScopeList req = Inr scope)) \<or> scope = parents
    \<or> (\<exists>req. parents \<noteq> [] \<and> normalizeScopeList req = Inr scope \<and> req \<noteq> []
         \<and> (\<forall>p \<in> set scope. \<exists>r \<in> set parents. scopePathContainedBy r p))"
  proof (cases "parents = [] \<or> requested = None \<or> requested = Some []")
    case True
    then show ?thesis
      using assms parents by (auto simp: resolveNestedThreadScope_def split: option.splits if_splits)
  next
    case False
    then obtain req where req: "requested = Some req" "req \<noteq> []" "parents \<noteq> []" by auto
    with assms parents show ?thesis
      by (cases "normalizeScopeList req")
        (auto simp: resolveNestedThreadScope_def Let_def filter_empty_conv list_ex_iff split: if_splits)
  qed
  then consider "parents = []" "scope = [] \<or> (\<exists>req. normalizeScopeList req = Inr scope)"
    | "scope = parents"
    | req where "parents \<noteq> []" "normalizeScopeList req = Inr scope" "req \<noteq> []"
        "\<forall>p \<in> set scope. \<exists>r \<in> set parents. scopePathContainedBy r p"
    by blast
  then show ?thesis
  proof cases
    case 1
    then show ?thesis using parents parsed_segments normalized_parsed by (fastforce simp: granted_def)
  next
    case 2
    then show ?thesis using parents parsed_segments normalized_parsed by fastforce
  next
    case 3
    have "\<exists>r \<in> set parents. prefix (segments r) (segments p)" if "p \<in> set scope" for p
      using 3(4) that contained_parsed normalized_parsed [OF parents] normalized_parsed [OF 3(2)] by blast
    moreover have "scope \<noteq> []"
      using 3(2,3) by (auto simp: normalizeScopeList_Inr)
    ultimately have "\<exists>r \<in> set parents. prefix (segments r) path" if "path \<in> granted scope" for path
      using that by (auto simp: granted_def) (meson prefix_order.trans)
    then have "granted scope \<subseteq> granted parents"
      using 3(1) by (auto simp only: granted_def if_False mem_Collect_eq intro!: subsetI)
    then show ?thesis
      using parents parsed_segments normalized_parsed [OF 3(2)] by blast
  qed
qed

theorem nested_scope_never_expands_witness:
  "resolveNestedThreadScope [''src''] (Some [''src/a'']) = Inr [''src/a''] \<and>
   (\<exists>parents. normalizeScopeList [''src''] = Inr parents \<and> granted [''src/a''] \<subseteq> granted parents)"
proof -
  have "resolveNestedThreadScope [''src''] (Some [''src/a'']) = Inr [''src/a'']"
    by (simp add: resolveNestedThreadScope_def normalizeScopeList_def scopePathContainedBy_def
        parseThreadScopePath_def slashNormalized_def to_slashes_def strip_dot_slash_def
        strip_trailing_slashes_def isAbsoluteThreadScope_def scope_parts_def)
  with nested_scope_never_expands [OF this] show ?thesis by blast
qed

text \<open>
  The check for absolute paths can be passed by a drive path: \<open>././C:/x\<close> is not recognised as absolute,
  because only one leading \<open>./\<close> is removed before the check while every dot segment is removed after it, and
  it parses to \<open>C:/x\<close>, a path the same function refuses; a thread without a parent scope gets it as its scope.
\<close>

theorem repeated_dot_hides_drive:
  "parseThreadScopePath ''././C:/x'' = Inr ''C:/x'' \<and> parseThreadScopePath ''C:/x'' = Inl ''C:/x''
   \<and> resolveNestedThreadScope [] (Some [''././C:/x'']) = Inr [''C:/x'']"
  by (simp add: resolveNestedThreadScope_def normalizeScopeList_def parseThreadScopePath_def
      slashNormalized_def to_slashes_def strip_dot_slash_def strip_trailing_slashes_def
      isAbsoluteThreadScope_def scope_parts_def ascii_letter_def)

end
