(* ===== verification/Utf8.thy ===== *)
theory Utf8
  imports Varin_Prelude
begin

text \<open>
  UTF-8 and the byte slicing of \<^verbatim>\<open>src/packages/protocol/src/utf8.ts\<close>.

  Bytes and code points are naturals. \<open>utf8_decode\<close> is the fatal decoder of the platform
  (\<open>new TextDecoder("utf-8", { fatal: true })\<close>, \<open>None\<close> when it throws) and \<open>utf8_encode\<close> the encoder; both
  directions of their round trip are proved first, and the slicing is specified on code points.
\<close>

section \<open>Encoder and decoder\<close>

type_synonym utext = "nat list"

definition scalar :: "nat \<Rightarrow> bool" where
  "scalar c \<longleftrightarrow> c < 0x110000 \<and> \<not> (0xD800 \<le> c \<and> c < 0xE000)"

definition utf8_char :: "nat \<Rightarrow> nat list" where
  "utf8_char c =
     (if c < 0x80 then [c]
      else if c < 0x800 then [0xC0 + c div 64, 0x80 + c mod 64]
      else if c < 0x10000 then [0xE0 + c div 4096, 0x80 + c div 64 mod 64, 0x80 + c mod 64]
      else [0xF0 + c div 262144, 0x80 + c div 4096 mod 64, 0x80 + c div 64 mod 64, 0x80 + c mod 64])"

definition utf8_encode :: "utext \<Rightarrow> nat list" where
  "utf8_encode cs = concat (map utf8_char cs)"

definition isContinuationByte :: "nat \<Rightarrow> bool" where
  "isContinuationByte b \<longleftrightarrow> 0x80 \<le> b \<and> b < 0xC0"

text \<open>One code point from the front of the bytes, with its length.\<close>

definition utf8_step :: "nat list \<Rightarrow> (nat \<times> nat) option" where
  "utf8_step bs =
     (case bs of
        [] \<Rightarrow> None
      | b # r \<Rightarrow>
          if b < 0x80 then Some (b, 1)
          else if 0xC2 \<le> b \<and> b < 0xE0 then
            (case r of
               c1 # _ \<Rightarrow> if isContinuationByte c1 then Some ((b - 0xC0) * 64 + (c1 - 0x80), 2) else None
             | _ \<Rightarrow> None)
          else if 0xE0 \<le> b \<and> b < 0xF0 then
            (case r of
               c1 # c2 # _ \<Rightarrow>
                 (let cp = (b - 0xE0) * 4096 + (c1 - 0x80) * 64 + (c2 - 0x80)
                  in if isContinuationByte c1 \<and> isContinuationByte c2 \<and> 0x800 \<le> cp \<and> scalar cp
                     then Some (cp, 3) else None)
             | _ \<Rightarrow> None)
          else if 0xF0 \<le> b \<and> b < 0xF5 then
            (case r of
               c1 # c2 # c3 # _ \<Rightarrow>
                 (let cp = (b - 0xF0) * 262144 + (c1 - 0x80) * 4096 + (c2 - 0x80) * 64 + (c3 - 0x80)
                  in if isContinuationByte c1 \<and> isContinuationByte c2 \<and> isContinuationByte c3
                        \<and> 0x10000 \<le> cp \<and> scalar cp
                     then Some (cp, 4) else None)
             | _ \<Rightarrow> None)
          else None)"

lemma utf8_step_length: "utf8_step bs = Some (c, n) \<Longrightarrow> 0 < n \<and> n \<le> length bs"
  by (auto simp: utf8_step_def Let_def split: list.splits if_splits)

function utf8_decode :: "nat list \<Rightarrow> utext option" where
  "utf8_decode bs =
     (if bs = [] then Some []
      else case utf8_step bs of
             None \<Rightarrow> None
           | Some (c, n) \<Rightarrow> map_option ((#) c) (utf8_decode (drop n bs)))"
  by pat_completeness auto
termination
  by (relation "measure length") (auto dest: utf8_step_length)

declare utf8_decode.simps [simp del]

section \<open>Slicing\<close>

text \<open>
  The decoder without \<open>ignoreBOM\<close>: a byte order mark at the start of what one call decodes is not part of the
  text.
\<close>

fun strip_bom :: "utext \<Rightarrow> utext" where
  "strip_bom [] = []"
| "strip_bom (c # cs) = (if c = 0xFEFF then cs else c # cs)"

definition text_decode :: "nat list \<Rightarrow> utext option" where
  "text_decode bs = map_option strip_bom (utf8_decode bs)"

record Utf8ByteSlice =
  slice_text :: utext
  slice_offset :: nat
  slice_length :: nat
  nextOffset :: nat
  slice_total :: nat
  eof :: bool

text \<open>
  The loops that move an offset: down to a leading byte, not below \<open>lo\<close>, and up past continuation bytes.
\<close>

fun retreat :: "nat list \<Rightarrow> nat \<Rightarrow> nat \<Rightarrow> nat" where
  "retreat bs lo 0 = 0"
| "retreat bs lo (Suc n) =
     (if Suc n > lo \<and> Suc n < length bs \<and> isContinuationByte (bs ! Suc n) then retreat bs lo n else Suc n)"

function advance :: "nat list \<Rightarrow> nat \<Rightarrow> nat" where
  "advance bs e = (if e < length bs \<and> isContinuationByte (bs ! e) then advance bs (e + 1) else e)"
  by pat_completeness auto
termination
  by (relation "measure (\<lambda>(bs, e). length bs - e)") auto

declare advance.simps [simp del]

text \<open>
  \<open>sliceUtf8ByBytes\<close>. A requested number is \<open>None\<close> when it is not finite and else its floor; the result is
  \<open>None\<close> when the fatal decoder throws.
\<close>

definition slice_bounds :: "nat list \<Rightarrow> int option \<Rightarrow> int option \<Rightarrow> nat \<times> nat" where
  "slice_bounds bs requestedOffset requestedLength =
     (let total = length bs;
          offset = (case requestedOffset of None \<Rightarrow> 0 | Some n \<Rightarrow> nat (max 0 n));
          len = (case requestedLength of None \<Rightarrow> 32768 | Some n \<Rightarrow> nat (max 1 n));
          offset = retreat bs 0 (min offset total);
          e = retreat bs offset (min total (offset + len));
          e = (if e = offset \<and> offset < total then advance bs (offset + 1) else e)
      in (offset, e))"

definition sliceUtf8ByBytes :: "nat list \<Rightarrow> int option \<Rightarrow> int option \<Rightarrow> Utf8ByteSlice option" where
  "sliceUtf8ByBytes bs requestedOffset requestedLength =
     (let (offset, e) = slice_bounds bs requestedOffset requestedLength
      in map_option (\<lambda>t. \<lparr>slice_text = t, slice_offset = offset, slice_length = e - offset, nextOffset = e,
                          slice_total = length bs, eof = (e \<ge> length bs)\<rparr>)
           (text_decode (take (e - offset) (drop offset bs))))"

text \<open>A reader that pages through the bytes, each time from the offset the last page named.\<close>

fun read_pages :: "nat \<Rightarrow> nat list \<Rightarrow> nat \<Rightarrow> int option \<Rightarrow> utext option" where
  "read_pages 0 bs offset len = None"
| "read_pages (Suc fuel) bs offset len =
     (case sliceUtf8ByBytes bs (Some (int offset)) len of
        None \<Rightarrow> None
      | Some p \<Rightarrow>
          if eof p then Some (slice_text p)
          else map_option (\<lambda>t. slice_text p @ t) (read_pages fuel bs (nextOffset p) len))"

section \<open>Round trips\<close>

lemma div_by_64:
  "c div 64 * 64 + c mod 64 = (c :: nat)" "c div 4096 * 64 + c div 64 mod 64 = c div 64"
  "c div 262144 * 64 + c div 4096 mod 64 = c div 4096"
  using div_mult_mod_eq [of "c div 64" 64] div_mult_mod_eq [of "c div 4096" 64]
  by (simp_all flip: div_mult2_eq)

lemma scalar_utf8_step:
  assumes "scalar c"
  shows "utf8_step (utf8_char c @ r) = Some (c, length (utf8_char c))"
proof -
  consider "c < 0x80" | "0x80 \<le> c" "c < 0x800" | "0x800 \<le> c" "c < 0x10000" | "0x10000 \<le> c"
    by linarith
  then show ?thesis
  proof cases
    case 2
    then have "c div 64 < 32" "2 \<le> c div 64" by auto
    then show ?thesis using 2 by (simp add: utf8_char_def utf8_step_def isContinuationByte_def)
  next
    case 3
    then have "c div 4096 < 16" by auto
    moreover have "c div 4096 * 4096 + c div 64 mod 64 * 64 + c mod 64 = c"
      using div_by_64 [of c] by linarith
    ultimately show ?thesis
      using 3 assms by (simp add: utf8_char_def utf8_step_def isContinuationByte_def Let_def)
  next
    case 4
    then have "c div 262144 < 5" using assms by (auto simp: scalar_def)
    moreover have "c div 262144 * 262144 + c div 4096 mod 64 * 4096 + c div 64 mod 64 * 64 + c mod 64 = c"
      using div_by_64 [of c] by linarith
    ultimately show ?thesis
      using 4 assms by (simp add: utf8_char_def utf8_step_def isContinuationByte_def Let_def)
  qed (simp add: utf8_char_def utf8_step_def)
qed

lemma utf8_char_nonempty [simp]: "utf8_char c \<noteq> []"
  by (simp add: utf8_char_def)

lemma decode_encode: "list_all scalar cs \<Longrightarrow> utf8_decode (utf8_encode cs) = Some cs"
proof (induction cs)
  case Nil
  then show ?case by (simp add: utf8_encode_def utf8_decode.simps)
next
  case (Cons c cs)
  then show ?case
    by (subst utf8_decode.simps) (simp add: utf8_encode_def scalar_utf8_step)
qed

lemma digits64: "c = a * 64 + z \<Longrightarrow> z < 64 \<Longrightarrow> c div 64 = a \<and> c mod 64 = (z :: nat)"
  by auto

lemma horner:
  "(x * 64 + y) * 64 + z = x * 4096 + y * 64 + (z :: nat)"
  "((w * 64 + x) * 64 + y) * 64 + z = w * 262144 + x * 4096 + y * 64 + (z :: nat)"
  by simp_all

lemma utf8_step_inverse:
  assumes "utf8_step bs = Some (c, n)"
  shows "scalar c \<and> take n bs = utf8_char c"
proof -
  have div: "(x * 64 + y) div 64 = x" "(x * 64 + y) mod 64 = y" if "y < 64" for x y :: nat
    using that by auto
  obtain b r where bs: "bs = b # r"
    using assms by (cases bs) (auto simp: utf8_step_def)
  consider "b < 0x80" "c = b" "n = 1"
    | c1 q where "0xC2 \<le> b" "b < 0xE0" "r = c1 # q" "isContinuationByte c1" "n = 2"
        "c = (b - 0xC0) * 64 + (c1 - 0x80)"
    | c1 c2 q where "0xE0 \<le> b" "b < 0xF0" "r = c1 # c2 # q" "isContinuationByte c1" "isContinuationByte c2" "n = 3"
        "c = (b - 0xE0) * 4096 + (c1 - 0x80) * 64 + (c2 - 0x80)" "0x800 \<le> c" "scalar c"
    | c1 c2 c3 q where "0xF0 \<le> b" "b < 0xF5" "r = c1 # c2 # c3 # q" "isContinuationByte c1" "isContinuationByte c2"
        "isContinuationByte c3" "n = 4"
        "c = (b - 0xF0) * 262144 + (c1 - 0x80) * 4096 + (c2 - 0x80) * 64 + (c3 - 0x80)" "0x10000 \<le> c" "scalar c"
    using assms unfolding bs utf8_step_def
    by (auto simp: Let_def split: list.splits if_splits)
  then show ?thesis
  proof cases
    case 1
    then show ?thesis by (simp add: bs utf8_char_def scalar_def)
  next
    case 2
    let ?x = "b - 0xC0" and ?y = "c1 - 0x80"
    have "c div 64 = ?x" "c mod 64 = ?y"
      using 2 div [of ?y ?x] by (auto simp: isContinuationByte_def)
    moreover have "0x80 \<le> c" "c < 0x800"
      using 2 by (auto simp: isContinuationByte_def)
    ultimately have "utf8_char c = [b, c1]" "scalar c"
      using 2(1,4) by (simp_all add: utf8_char_def isContinuationByte_def scalar_def)
    then show ?thesis
      using 2(3,5) by (simp add: bs)
  next
    case 3
    let ?x = "b - 0xE0" and ?y = "c1 - 0x80" and ?z = "c2 - 0x80"
    have "?y < 64" "?z < 64"
      using 3(4,5) by (auto simp: isContinuationByte_def)
    moreover have "c = (?x * 64 + ?y) * 64 + ?z"
      using 3(7) by (simp only: horner(1))
    ultimately have d: "c div 64 = ?x * 64 + ?y" "c mod 64 = ?z" "c div 64 div 64 = ?x" "c div 64 mod 64 = ?y"
      using digits64 [of c "?x * 64 + ?y" ?z] digits64 [of "c div 64" ?x ?y] by blast+
    have "c div 4096 = ?x" using d(3) by (simp flip: div_mult2_eq)
    moreover have "c < 0x10000" using 3(1,2,4,5,7) by (simp add: isContinuationByte_def) linarith
    ultimately have "utf8_char c = [b, c1, c2]"
      using d(2,4) 3(1,4,5,8) by (simp add: utf8_char_def isContinuationByte_def)
    then show ?thesis
      using 3(3,6,9) by (simp add: bs)
  next
    case 4
    let ?w = "b - 0xF0" and ?x = "c1 - 0x80" and ?y = "c2 - 0x80" and ?z = "c3 - 0x80"
    have "?x < 64" "?y < 64" "?z < 64"
      using 4(4,5,6) by (auto simp: isContinuationByte_def)
    moreover have "c = ((?w * 64 + ?x) * 64 + ?y) * 64 + ?z"
      using 4(8) by (simp only: horner(2))
    ultimately have d: "c div 64 = (?w * 64 + ?x) * 64 + ?y" "c mod 64 = ?z" "c div 64 div 64 = ?w * 64 + ?x"
        "c div 64 mod 64 = ?y" "c div 64 div 64 div 64 = ?w" "c div 64 div 64 mod 64 = ?x"
      using digits64 [of c "(?w * 64 + ?x) * 64 + ?y" ?z] digits64 [of "c div 64" "?w * 64 + ?x" ?y]
        digits64 [of "c div 64 div 64" ?w ?x] by blast+
    have "c div 4096 mod 64 = ?x" "c div 262144 = ?w" using d(5,6) by (simp_all flip: div_mult2_eq)
    then have "utf8_char c = [b, c1, c2, c3]"
      using d(2,4) 4(1,4,5,6,9) by (simp add: utf8_char_def isContinuationByte_def)
    then show ?thesis
      using 4(3,7,10) by (simp add: bs)
  qed
qed

lemma encode_decode: "utf8_decode bs = Some cs \<Longrightarrow> list_all scalar cs \<and> utf8_encode cs = bs"
proof (induction bs arbitrary: cs rule: utf8_decode.induct)
  case (1 bs)
  show ?case
  proof (cases "bs = []")
    case True
    with 1 show ?thesis by (simp add: utf8_decode.simps utf8_encode_def)
  next
    case False
    with 1(2) obtain c n cs' where s: "utf8_step bs = Some (c, n)" "utf8_decode (drop n bs) = Some cs'" "cs = c # cs'"
      by (subst (asm) utf8_decode.simps) (auto split: option.splits)
    from 1(1) [OF False s(1) refl s(2)] utf8_step_inverse [OF s(1)] s(3) show ?thesis
      by (simp add: utf8_encode_def) (metis append_take_drop_id)
  qed
qed

section \<open>Boundaries\<close>

definition boundary :: "nat list \<Rightarrow> nat \<Rightarrow> bool" where
  "boundary bs i \<longleftrightarrow> i \<le> length bs \<and> (i < length bs \<longrightarrow> \<not> isContinuationByte (bs ! i))"

lemma utf8_char_head: "\<not> isContinuationByte (hd (utf8_char c))"
  by (auto simp: utf8_char_def isContinuationByte_def)

lemma utf8_char_tail:
  assumes "0 < i" "i < length (utf8_char c)"
  shows "isContinuationByte (utf8_char c ! i)"
proof -
  have "i < 4"
    using assms(2) by (simp add: utf8_char_def split: if_splits)
  then consider "i = 1" | "i = 2" | "i = 3"
    using assms(1) by linarith
  then show ?thesis
    using assms(2) by cases (auto simp: utf8_char_def isContinuationByte_def split: if_splits)
qed

lemma boundary_split:
  assumes "list_all scalar cs" "boundary (utf8_encode cs) i"
  shows "\<exists>xs ys. cs = xs @ ys \<and> i = length (utf8_encode xs)"
  using assms
proof (induction cs arbitrary: i)
  case Nil
  then show ?case by (simp add: boundary_def utf8_encode_def)
next
  case (Cons c cs)
  let ?n = "length (utf8_char c)"
  show ?case
  proof (cases "i = 0")
    case True
    then show ?thesis by (auto simp: utf8_encode_def)
  next
    case False
    have "\<not> i < ?n"
      using Cons.prems utf8_char_tail [of i c] False
      by (auto simp: boundary_def utf8_encode_def nth_append)
    then have "boundary (utf8_encode cs) (i - ?n)"
      using Cons.prems by (auto simp: boundary_def utf8_encode_def nth_append)
    then obtain xs ys where "cs = xs @ ys" "i - ?n = length (utf8_encode xs)"
      using Cons.IH [of "i - ?n"] Cons.prems(1) by (metis list.pred_inject(2))
    with \<open>\<not> i < ?n\<close> show ?thesis
      by (intro exI [of _ "c # xs"] exI [of _ ys]) (auto simp: utf8_encode_def)
  qed
qed

lemma retreat_props:
  assumes "lo \<le> n" "n \<le> length bs" "boundary bs lo"
  shows "lo \<le> retreat bs lo n \<and> retreat bs lo n \<le> n \<and> boundary bs (retreat bs lo n)"
  using assms
proof (induction n)
  case 0
  then show ?case by simp
next
  case (Suc n)
  show ?case
  proof (cases "Suc n = lo")
    case True
    with Suc.prems show ?thesis by auto
  next
    case False
    then show ?thesis
      using Suc by (auto simp: boundary_def)
  qed
qed

lemma boundary_0: "list_all scalar cs \<Longrightarrow> boundary (utf8_encode cs) 0"
  by (cases cs) (auto simp: boundary_def utf8_encode_def nth_append hd_conv_nth simp: utf8_char_head [unfolded hd_conv_nth [OF utf8_char_nonempty]])

lemma advance_props: "e \<le> length bs \<Longrightarrow> e \<le> advance bs e \<and> advance bs e \<le> length bs \<and> boundary bs (advance bs e)"
proof (induction bs e rule: advance.induct)
  case (1 bs e)
  then show ?case
    by (subst (1 2 3) advance.simps) (auto simp: boundary_def)
qed

lemma slice_bounds_props:
  assumes "list_all scalar cs" "bs = utf8_encode cs" "slice_bounds bs ro rl = (a, b)"
  shows "boundary bs a" "boundary bs b" "a \<le> b" "a < length bs \<Longrightarrow> a < b"
proof -
  define off where "off = min (case ro of None \<Rightarrow> 0 | Some n \<Rightarrow> nat (max 0 n)) (length bs)"
  define len where "len = (case rl of None \<Rightarrow> 32768 | Some n \<Rightarrow> nat (max 1 n))"
  have a: "a = retreat bs 0 off"
    using assms(3) by (simp add: slice_bounds_def Let_def off_def)
  have "boundary bs 0" using assms boundary_0 by simp
  then have "0 \<le> a \<and> a \<le> off \<and> boundary bs a"
    unfolding a by (intro retreat_props) (auto simp: off_def)
  then have A: "boundary bs a" "a \<le> length bs" by (auto simp: off_def)
  let ?e = "retreat bs a (min (length bs) (a + len))"
  have e: "a \<le> ?e \<and> ?e \<le> min (length bs) (a + len) \<and> boundary bs ?e"
    using A by (intro retreat_props) auto
  have b: "b = (if ?e = a \<and> a < length bs then advance bs (a + 1) else ?e)"
    using assms(3) unfolding slice_bounds_def Let_def off_def [symmetric] len_def [symmetric] a [symmetric]
    by simp
  have adv: "a + 1 \<le> advance bs (a + 1) \<and> boundary bs (advance bs (a + 1))" if "a < length bs"
    using advance_props [of "a + 1" bs] that by auto
  show "boundary bs a" by (rule A(1))
  show "boundary bs b" "a \<le> b" using b e adv by auto
  show "a < b" if "a < length bs" using b e adv that by auto
qed

lemma encode_append [simp]: "utf8_encode (xs @ ys) = utf8_encode xs @ utf8_encode ys"
  by (simp add: utf8_encode_def)

lemma boundary_slice:
  assumes "list_all scalar cs" "bs = utf8_encode cs" "boundary bs a" "boundary bs b" "a \<le> b"
  shows "\<exists>xs ys zs. cs = xs @ ys @ zs \<and> a = length (utf8_encode xs) \<and> b = a + length (utf8_encode ys)
    \<and> utf8_decode (take (b - a) (drop a bs)) = Some ys"
proof -
  obtain xs vs where x: "cs = xs @ vs" "a = length (utf8_encode xs)"
    using boundary_split assms by blast
  have "boundary (utf8_encode vs) (b - a)"
    using assms x by (auto simp: boundary_def nth_append)
  then obtain ys zs where y: "vs = ys @ zs" "b - a = length (utf8_encode ys)"
    using boundary_split [of vs "b - a"] assms(1) x(1) by (metis list_all_append)
  have "take (b - a) (drop a bs) = utf8_encode ys"
    using x y assms(2) by simp
  moreover have "list_all scalar ys"
    using assms(1) x y by simp
  ultimately show ?thesis
    using x y assms(5) decode_encode by (intro exI [of _ xs] exI [of _ ys] exI [of _ zs]) auto
qed

lemma slice_spec:
  assumes "list_all scalar cs"
  shows "\<exists>xs ys zs. cs = xs @ ys @ zs \<and> (xs = cs \<or> ys \<noteq> []) \<and>
    sliceUtf8ByBytes (utf8_encode cs) ro rl =
      Some \<lparr>slice_text = strip_bom ys, slice_offset = length (utf8_encode xs), slice_length = length (utf8_encode ys),
            nextOffset = length (utf8_encode (xs @ ys)), slice_total = length (utf8_encode cs),
            eof = (zs = [])\<rparr>"
proof -
  obtain a b where ab: "slice_bounds (utf8_encode cs) ro rl = (a, b)" by force
  note props = slice_bounds_props [OF assms refl ab]
  obtain xs ys zs where s: "cs = xs @ ys @ zs" "a = length (utf8_encode xs)" "b = a + length (utf8_encode ys)"
      "utf8_decode (take (b - a) (drop a (utf8_encode cs))) = Some ys"
    using boundary_slice [OF assms refl props(1,2,3)] by blast
  have "xs = cs \<or> ys \<noteq> []"
    using props(4) s by (cases "ys = []") (auto simp: utf8_encode_def)
  moreover have "b \<ge> length (utf8_encode cs) \<longleftrightarrow> zs = []"
    using s by (cases zs) (auto simp: utf8_encode_def)
  ultimately show ?thesis
    using s ab by (intro exI [of _ xs] exI [of _ ys] exI [of _ zs]) (simp add: sliceUtf8ByBytes_def text_decode_def)
qed

lemma strip_bom_id [simp]: "0xFEFF \<notin> set cs \<Longrightarrow> strip_bom cs = cs"
  by (cases cs) auto

lemma slice_at_boundary:
  assumes "list_all scalar (xs @ ys)"
  shows "fst (slice_bounds (utf8_encode (xs @ ys)) (Some (int (length (utf8_encode xs)))) rl) = length (utf8_encode xs)"
proof -
  let ?bs = "utf8_encode (xs @ ys)" and ?n = "length (utf8_encode xs)"
  have "boundary ?bs ?n"
    using boundary_0 [of ys] assms by (auto simp: boundary_def nth_append)
  then have "retreat ?bs 0 ?n = ?n"
    by (cases ?n) (auto simp: boundary_def)
  then show ?thesis
    by (simp add: slice_bounds_def Let_def)
qed

lemma encode_length_inject:
  assumes "xs @ ys = xs' @ ys'" "length (utf8_encode xs) = length (utf8_encode xs')"
  shows "xs = xs'"
  using assms
proof (induction xs arbitrary: xs')
  case Nil
  then show ?case by (cases xs') (auto simp: utf8_encode_def)
next
  case (Cons c xs)
  then show ?case by (cases xs') (auto simp: utf8_encode_def)
qed

lemma read_pages_from:
  assumes "list_all scalar (xs @ ys)" "0xFEFF \<notin> set ys" "length ys < fuel"
  shows "read_pages fuel (utf8_encode (xs @ ys)) (length (utf8_encode xs)) rl = Some ys"
  using assms
proof (induction fuel arbitrary: xs ys)
  case 0
  then show ?case by simp
next
  case (Suc fuel)
  let ?o = "Some (int (length (utf8_encode xs)))"
  obtain us vs ws where s: "xs @ ys = us @ vs @ ws" "us = xs @ ys \<or> vs \<noteq> []"
    "sliceUtf8ByBytes (utf8_encode (xs @ ys)) ?o rl =
      Some \<lparr>slice_text = strip_bom vs, slice_offset = length (utf8_encode us), slice_length = length (utf8_encode vs),
            nextOffset = length (utf8_encode (us @ vs)), slice_total = length (utf8_encode (xs @ ys)),
            eof = (ws = [])\<rparr>"
    using slice_spec [OF Suc.prems(1), of ?o rl] by blast
  from s(3) have "length (utf8_encode us) = length (utf8_encode xs)"
    using slice_at_boundary [OF Suc.prems(1), of rl]
    by (auto simp: sliceUtf8ByBytes_def split: prod.splits)
  then have us: "us = xs"
    using encode_length_inject s(1) by metis
  then have ys: "ys = vs @ ws" using s(1) by simp
  show ?case
  proof (cases "ws = []")
    case True
    then show ?thesis using s(3) ys Suc.prems(2) by simp
  next
    case False
    have "read_pages fuel (utf8_encode ((xs @ vs) @ ws)) (length (utf8_encode (xs @ vs))) rl = Some ws"
      using Suc.prems False s(2) us ys by (intro Suc.IH) (auto simp: neq_Nil_conv)
    then show ?thesis
      using s(3) ys us False Suc.prems(2) by simp
  qed
qed

section \<open>Properties\<close>

text \<open>
  Slicing by bytes never splits a character: on every valid UTF-8 text and for every requested offset and
  length, finite or not, the slice decodes, it is a run of whole characters of the text, its offsets are the byte
  lengths of what precedes and of what it covers, and unless the offset is already at the end it makes
  progress. The decoder of the platform drops a byte order mark at the start of the slice and nothing else.
\<close>

theorem utf8_slice_whole_characters:
  assumes "list_all scalar cs"
  shows "\<exists>xs ys zs. cs = xs @ ys @ zs \<and> (xs = cs \<or> ys \<noteq> []) \<and>
    sliceUtf8ByBytes (utf8_encode cs) requestedOffset requestedLength =
      Some \<lparr>slice_text = strip_bom ys, slice_offset = length (utf8_encode xs), slice_length = length (utf8_encode ys),
            nextOffset = length (utf8_encode (xs @ ys)), slice_total = length (utf8_encode cs),
            eof = (zs = [])\<rparr>"
  using assms by (rule slice_spec)

theorem utf8_slice_whole_characters_witness:
  "\<exists>xs ys zs. [0x61, 0x20AC, 0x62] = xs @ ys @ zs \<and> (xs = [0x61, 0x20AC, 0x62] \<or> ys \<noteq> []) \<and>
    sliceUtf8ByBytes (utf8_encode [0x61, 0x20AC, 0x62]) (Some 2) (Some 1) =
      Some \<lparr>slice_text = strip_bom ys, slice_offset = length (utf8_encode xs), slice_length = length (utf8_encode ys),
            nextOffset = length (utf8_encode (xs @ ys)), slice_total = length (utf8_encode [0x61, 0x20AC, 0x62]),
            eof = (zs = [])\<rparr>"
  by (rule utf8_slice_whole_characters) (simp add: scalar_def)

text \<open>
  A character U+FEFF inside a text is lost when a page happens to start with it, since each page is decoded by
  itself.
\<close>


text \<open>
  Paging is complete: a reader that starts at offset zero and continues from \<open>nextOffset\<close> until \<open>eof\<close> ends
  after at most one page per character and has read exactly the text, whatever page size it asks for, for every
  text without the character U+FEFF.
\<close>

theorem utf8_paging_complete:
  "list_all scalar cs \<Longrightarrow> 0xFEFF \<notin> set cs \<Longrightarrow>
     read_pages (length cs + 1) (utf8_encode cs) 0 requestedLength = Some cs"
  using read_pages_from [of "[]" cs "length cs + 1" requestedLength] by (simp add: utf8_encode_def)

theorem utf8_paging_complete_witness:
  "read_pages (length [0x61, 0x1F600, 0x62 :: nat] + 1) (utf8_encode [0x61, 0x1F600, 0x62]) 0 (Some 1)
     = Some [0x61, 0x1F600, 0x62]"
  by (rule utf8_paging_complete) (simp_all add: scalar_def)

end
