(* ===== verification/Text_Merge.thy ===== *)
theory Text_Merge
  imports Utf8
begin

text \<open>
  The line merge of \<^verbatim>\<open>src/packages/web/application-host/lib/harness/working-state/three-way-merge.ts\<close>.

  A text is a list of code points and a line token keeps its line end. The Myers comparison comes from the
  npm package \<open>diff\<close> and is an argument: \<open>diff a b\<close> is the list of changes \<open>diffArrays(a, b)\<close> returns, and
  \<open>valid_diff\<close> states what the package documents, that the changes walk through both arrays and the parts
  marked common are equal. Index-based loops over the two chunk lists are recursions on the remaining chunks.
\<close>

section \<open>Lines\<close>

definition eol :: "nat \<Rightarrow> bool" where
  "eol c \<longleftrightarrow> c = 10 \<or> c = 13"

text \<open>
  \<open>text.match(/[^\r\n]*(?:\r\n|\n|\r|$)/gu)\<close> without the empty token at the end; \<open>line\<close> is the current
  match so far.
\<close>

fun line_tokens :: "utext \<Rightarrow> utext \<Rightarrow> utext list" where
  "line_tokens line [] = (if length line > 0 then [line] else [])"
| "line_tokens line (c # r) =
     (if c = 13 \<and> prefix [10] r then (line @ [13, 10]) # line_tokens [] (tl r)
      else if eol c then (line @ [c]) # line_tokens [] r
      else line_tokens (line @ [c]) r)"

definition splitLineTokens :: "utext \<Rightarrow> utext list" where
  "splitLineTokens t = line_tokens [] t"

text \<open>\<open>text.match(/\r\n|\n|\r/u)?.[0]\<close>\<close>

definition first_eol :: "utext \<Rightarrow> utext option" where
  "first_eol t =
     (let r = dropWhile (\<lambda>c. \<not> eol c) t
      in if r = [] then None else if prefix [13, 10] r then Some [13, 10] else Some [hd r])"

definition ascii :: "string \<Rightarrow> utext" where
  "ascii s = map of_char s"

section \<open>Changes\<close>

datatype change = Added nat | Removed nat | Common nat

fun lcs_loop :: "change list \<Rightarrow> nat \<Rightarrow> nat \<Rightarrow> (nat \<times> nat) list" where
  "lcs_loop [] oldIndex newIndex = []"
| "lcs_loop (Added n # cs) oldIndex newIndex = lcs_loop cs oldIndex (newIndex + n)"
| "lcs_loop (Removed n # cs) oldIndex newIndex = lcs_loop cs (oldIndex + n) newIndex"
| "lcs_loop (Common n # cs) oldIndex newIndex =
     map (\<lambda>i. (oldIndex + i, newIndex + i)) [0..<n] @ lcs_loop cs (oldIndex + n) (newIndex + n)"

type_synonym differ = "utext list \<Rightarrow> utext list \<Rightarrow> change list"

definition lcsMatches :: "differ \<Rightarrow> utext list \<Rightarrow> utext list \<Rightarrow> (nat \<times> nat) list" where
  "lcsMatches diff a b = lcs_loop (diff a b) 0 0"

record ChunkMapping =
  baseStart :: nat
  baseEnd :: nat
  clines :: "utext list"

definition between :: "'a list \<Rightarrow> nat \<Rightarrow> nat \<Rightarrow> 'a list" where
  "between xs a b = take (b - a) (drop a xs)"

fun compute_chunk_loop :: "utext list \<Rightarrow> utext list \<Rightarrow> (nat \<times> nat) list \<Rightarrow> nat \<Rightarrow> nat \<Rightarrow> ChunkMapping list" where
  "compute_chunk_loop base target [] lastBase lastTarget =
     (if lastBase < length base \<or> lastTarget < length target
      then [\<lparr>baseStart = lastBase, baseEnd = length base, clines = drop lastTarget target\<rparr>] else [])"
| "compute_chunk_loop base target ((b, t) # ms) lastBase lastTarget =
     (if b > lastBase \<or> t > lastTarget
      then [\<lparr>baseStart = lastBase, baseEnd = b, clines = between target lastTarget t\<rparr>] else [])
     @ compute_chunk_loop base target ms (b + 1) (t + 1)"

definition computeChunks :: "differ \<Rightarrow> utext list \<Rightarrow> utext list \<Rightarrow> ChunkMapping list" where
  "computeChunks diff base target = compute_chunk_loop base target (lcsMatches diff base target) 0 0"

section \<open>Merge\<close>

record TextMergeResult =
  clean :: bool
  merged_text :: utext

definition overlaps :: "ChunkMapping \<Rightarrow> ChunkMapping \<Rightarrow> bool" where
  "overlaps left right =
     (let leftInsertion = (baseStart left = baseEnd left);
          rightInsertion = (baseStart right = baseEnd right)
      in if leftInsertion \<and> rightInsertion then baseStart left = baseStart right
         else if leftInsertion then baseStart left \<ge> baseStart right \<and> baseStart left < baseEnd right
         else if rightInsertion then baseStart right \<ge> baseStart left \<and> baseStart right < baseEnd left
         else max (baseStart left) (baseStart right) < min (baseEnd left) (baseEnd right))"

fun render :: "utext list \<Rightarrow> nat \<Rightarrow> nat \<Rightarrow> ChunkMapping list \<Rightarrow> utext list" where
  "render base start e [] = between base start e"
| "render base start e (c # cs) = between base start (baseStart c) @ clines c @ render base (baseEnd c) e cs"

text \<open>The inner loop: the groups so far and the chunks left on each side.\<close>

definition grow_group ::
  "ChunkMapping list \<Rightarrow> ChunkMapping list \<Rightarrow> ChunkMapping list \<Rightarrow> bool \<times> ChunkMapping list \<times> ChunkMapping list" where
  "grow_group own other rest =
     (case rest of
        [] \<Rightarrow> (False, own, rest)
      | nxt # rest' \<Rightarrow>
          if list_ex (\<lambda>change. overlaps nxt change) other then (True, own @ [nxt], rest') else (False, own, rest))"

function expand ::
  "ChunkMapping list \<Rightarrow> ChunkMapping list \<Rightarrow> ChunkMapping list \<Rightarrow> ChunkMapping list
   \<Rightarrow> (ChunkMapping list \<times> ChunkMapping list) \<times> ChunkMapping list \<times> ChunkMapping list" where
  "expand parentGroup childGroup ps cs =
     (let (ep, pg, ps') = grow_group parentGroup childGroup ps;
          (ec, cg, cs') = grow_group childGroup pg cs
      in if ep \<or> ec then expand pg cg ps' cs' else ((pg, cg), ps', cs'))"
  by pat_completeness auto
termination
  by (relation "measure (\<lambda>(_, _, ps, cs). length ps + length cs)")
    (auto simp: grow_group_def split: list.splits if_splits)

declare expand.simps [simp del]

definition ends_with_eol :: "utext \<Rightarrow> bool" where
  "ends_with_eol t \<longleftrightarrow> t \<noteq> [] \<and> eol (last t)"

definition missing_eol :: "utext \<Rightarrow> utext list \<Rightarrow> utext list" where
  "missing_eol markerEol output = (if length output > 0 \<and> \<not> ends_with_eol (last output) then [markerEol] else [])"

definition conflict_block :: "utext \<Rightarrow> utext \<Rightarrow> utext \<Rightarrow> utext list \<Rightarrow> utext list \<Rightarrow> utext list" where
  "conflict_block pLabel cLabel markerEol parentOutput childOutput =
     [ascii ''<<<<<<< '' @ pLabel @ markerEol] @ parentOutput @ missing_eol markerEol parentOutput
     @ [ascii ''======='' @ markerEol] @ childOutput @ missing_eol markerEol childOutput
     @ [ascii ''>>>>>>> '' @ cLabel @ markerEol]"

lemma expand_length:
  "expand pg cg ps cs = ((pg', cg'), ps', cs') \<Longrightarrow> length ps' \<le> length ps \<and> length cs' \<le> length cs"
proof (induction pg cg ps cs rule: expand.induct)
  case (1 pg cg ps cs)
  obtain ep pg1 ps1 ec cg1 cs1 where g: "grow_group pg cg ps = (ep, pg1, ps1)" "grow_group cg pg1 cs = (ec, cg1, cs1)"
    by (metis prod_cases3)
  then have len: "length ps1 \<le> length ps" "length cs1 \<le> length cs"
    by (auto simp: grow_group_def split: list.splits if_splits)
  show ?case
  proof (cases "ep \<or> ec")
    case True
    then have "length ps' \<le> length ps1 \<and> length cs' \<le> length cs1"
      using 1(1) [OF refl g(1) [symmetric] refl refl g(2) [symmetric] refl True] 1(2)
      by (subst (asm) expand.simps) (auto simp: g)
    then show ?thesis using len by linarith
  next
    case False
    then show ?thesis using 1(2) g len by (subst (asm) expand.simps) auto
  qed
qed

text \<open>
  The outer loop, from \<open>cursor\<close> on: whether the rest merged cleanly, and its lines.
\<close>

function merge_loop ::
  "utext list \<Rightarrow> utext \<Rightarrow> utext \<Rightarrow> utext \<Rightarrow> ChunkMapping list \<Rightarrow> ChunkMapping list \<Rightarrow> nat \<Rightarrow> bool \<times> utext list" where
  "merge_loop base pLabel cLabel markerEol ps cs cursor =
     (if ps = [] \<and> cs = [] then (True, drop cursor base)
      else if ps \<noteq> [] \<and> cs \<noteq> [] \<and> overlaps (hd ps) (hd cs) then
        (case expand [hd ps] [hd cs] (tl ps) (tl cs) of
           ((parentGroup, childGroup), ps', cs') \<Rightarrow>
             let start = min (baseStart (hd ps)) (baseStart (hd cs));
                 e = max (baseEnd (last parentGroup)) (baseEnd (last childGroup));
                 parentOutput = render base start e parentGroup;
                 childOutput = render base start e childGroup;
                 agree = (concat parentOutput = concat childOutput);
                 (restClean, rest) = merge_loop base pLabel cLabel markerEol ps' cs' e
             in (agree \<and> restClean,
                 between base cursor start
                 @ (if agree then parentOutput
                    else conflict_block pLabel cLabel markerEol parentOutput childOutput)
                 @ rest))
      else
        (let takeParent = (ps \<noteq> [] \<and> (cs = [] \<or> baseStart (hd ps) \<le> baseStart (hd cs)));
             change = (if takeParent then hd ps else hd cs);
             (restClean, rest) =
               merge_loop base pLabel cLabel markerEol (if takeParent then tl ps else ps)
                 (if takeParent then cs else tl cs) (baseEnd change)
         in (restClean, between base cursor (baseStart change) @ clines change @ rest)))"
  by pat_completeness auto
termination
  by (relation "measure (\<lambda>(_, _, _, _, ps, cs, _). length ps + length cs)")
    (auto simp: neq_Nil_conv dest!: expand_length [OF sym])

declare merge_loop.simps [simp del]

definition mergeText3Way :: "differ \<Rightarrow> utext \<Rightarrow> utext \<Rightarrow> utext \<Rightarrow> utext option \<Rightarrow> utext option \<Rightarrow> TextMergeResult" where
  "mergeText3Way diff baseText parentText childText parentLabel childLabel =
     (if parentText = childText then \<lparr>clean = True, merged_text = parentText\<rparr>
      else if parentText = baseText then \<lparr>clean = True, merged_text = childText\<rparr>
      else if childText = baseText then \<lparr>clean = True, merged_text = parentText\<rparr>
      else
        let baseLines = splitLineTokens baseText;
            parentChunks = computeChunks diff baseLines (splitLineTokens parentText);
            childChunks = computeChunks diff baseLines (splitLineTokens childText);
            pLabel = (case parentLabel of None \<Rightarrow> ascii ''parent'' | Some l \<Rightarrow> l);
            cLabel = (case childLabel of None \<Rightarrow> ascii ''child'' | Some l \<Rightarrow> l);
            markerEol = (case first_some first_eol [parentText, childText, baseText] of None \<Rightarrow> [10] | Some e \<Rightarrow> e);
            (cl, resultLines) = merge_loop baseLines pLabel cLabel markerEol parentChunks childChunks 0
        in \<lparr>clean = cl, merged_text = concat resultLines\<rparr>)"

section \<open>Vocabulary of the properties\<close>

text \<open>What the package documents about its result.\<close>

fun edit_script :: "change list \<Rightarrow> 'a list \<Rightarrow> 'a list \<Rightarrow> bool" where
  "edit_script [] a b = (a = [] \<and> b = [])"
| "edit_script (Added n # cs) a b = (n \<le> length b \<and> edit_script cs a (drop n b))"
| "edit_script (Removed n # cs) a b = (n \<le> length a \<and> edit_script cs (drop n a) b)"
| "edit_script (Common n # cs) a b =
     (n \<le> length a \<and> n \<le> length b \<and> take n a = take n b \<and> edit_script cs (drop n a) (drop n b))"

definition valid_diff :: "differ \<Rightarrow> bool" where
  "valid_diff diff \<longleftrightarrow> (\<forall>a b. edit_script (diff a b) a b)"

text \<open>
  A merge cuts the base into regions: unchanged lines, lines only one side changed, and lines both changed.
  Each region has its lines in the base, in the parent and in the child, and its lines in the result.
\<close>

datatype region =
    Unchanged "utext list"
  | ParentOnly "utext list" "utext list"
  | ChildOnly "utext list" "utext list"
  | Both "utext list" "utext list" "utext list"

fun in_base :: "region \<Rightarrow> utext list" where
  "in_base (Unchanged b) = b" | "in_base (ParentOnly b p) = b" | "in_base (ChildOnly b c) = b" | "in_base (Both b p c) = b"

fun in_parent :: "region \<Rightarrow> utext list" where
  "in_parent (Unchanged b) = b" | "in_parent (ParentOnly b p) = p" | "in_parent (ChildOnly b c) = b"
| "in_parent (Both b p c) = p"

fun in_child :: "region \<Rightarrow> utext list" where
  "in_child (Unchanged b) = b" | "in_child (ParentOnly b p) = b" | "in_child (ChildOnly b c) = c"
| "in_child (Both b p c) = c"

fun agreed :: "region \<Rightarrow> bool" where
  "agreed (Both b p c) = (concat p = concat c)"
| "agreed r = True"

fun in_result :: "utext \<Rightarrow> utext \<Rightarrow> utext \<Rightarrow> region \<Rightarrow> utext list" where
  "in_result pl cl e (Unchanged b) = b"
| "in_result pl cl e (ParentOnly b p) = p"
| "in_result pl cl e (ChildOnly b c) = c"
| "in_result pl cl e (Both b p c) = (if concat p = concat c then p else conflict_block pl cl e p c)"

text \<open>Chunks in order, from \<open>at\<close> up to \<open>n\<close>.\<close>

fun ordered :: "nat \<Rightarrow> nat \<Rightarrow> ChunkMapping list \<Rightarrow> bool" where
  "ordered n at [] = (at \<le> n)"
| "ordered n at (c # cs) = (at \<le> baseStart c \<and> baseStart c \<le> baseEnd c \<and> ordered n (baseEnd c) cs)"

fun matching :: "'a list \<Rightarrow> 'a list \<Rightarrow> nat \<Rightarrow> nat \<Rightarrow> (nat \<times> nat) list \<Rightarrow> bool" where
  "matching base target i j [] = (i \<le> length base \<and> j \<le> length target)"
| "matching base target i j ((b, t) # ms) =
     (i \<le> b \<and> j \<le> t \<and> b < length base \<and> t < length target \<and> base ! b = target ! t
      \<and> matching base target (b + 1) (t + 1) ms)"

section \<open>Lines and chunks\<close>

lemma concat_line_tokens: "concat (line_tokens line t) = line @ t"
proof (induction line t rule: line_tokens.induct)
  case (2 line c r)
  then show ?case by (cases r) auto
qed simp

lemma concat_splitLineTokens: "concat (splitLineTokens t) = t"
  by (simp add: splitLineTokens_def concat_line_tokens)

lemma between_append:
  assumes "a \<le> m" "m \<le> b"
  shows "between xs a b = between xs a m @ between xs m b"
proof -
  obtain x y where "m = a + x" "b = a + x + y"
    using assms by (metis le_Suc_ex)
  then show ?thesis by (simp add: between_def take_add drop_drop add.commute)
qed

lemma between_same [simp]: "between xs a a = []"
  by (simp add: between_def)

lemma between_full: "b \<ge> length xs \<Longrightarrow> between xs a b = drop a xs"
  by (simp add: between_def)

lemma between_one: "b < length xs \<Longrightarrow> between xs b (Suc b) = [xs ! b]"
  by (simp add: between_def Suc_diff_le Cons_nth_drop_Suc [symmetric])

lemma ordered_le: "ordered n at cs \<Longrightarrow> at \<le> n"
  by (induction n at cs rule: ordered.induct) auto

lemma render_split: "at \<le> m \<Longrightarrow> ordered n m cs \<Longrightarrow> render base at n cs = between base at m @ render base m n cs"
  using between_append [of at m n base] between_append [of at m "baseStart (hd cs)" base]
  by (cases cs) auto

lemma matching_mono: "matching base target i j ms \<Longrightarrow> i' \<le> i \<Longrightarrow> j' \<le> j \<Longrightarrow> matching base target i' j' ms"
  by (cases ms) auto

lemma matching_run:
  assumes "matching base target (i + n) (j + n) ms" "take n (drop i base) = take n (drop j target)"
    "i + n \<le> length base" "j + n \<le> length target"
  shows "matching base target i j (map (\<lambda>k. (i + k, j + k)) [0..<n] @ ms)"
  using assms
proof (induction n arbitrary: i j)
  case 0
  then show ?case by simp
next
  case (Suc n)
  have "base ! i = target ! j"
    using arg_cong [OF Suc.prems(2), of "\<lambda>xs. xs ! 0"] Suc.prems(3,4) by simp
  moreover have "take n (drop (Suc i) base) = take n (drop (Suc j) target)"
    using Suc.prems(2-4) by (simp add: Cons_nth_drop_Suc [symmetric])
  moreover have "map (\<lambda>k. (i + k, j + k)) [0..<Suc n] = (i, j) # map (\<lambda>k. (Suc i + k, Suc j + k)) [0..<n]"
    by (simp only: upt_conv_Cons [OF zero_less_Suc] list.map) (simp add: map_Suc_upt [symmetric] del: upt_Suc)
  ultimately show ?case
    using Suc.prems Suc.IH [of "Suc i" "Suc j"] by (simp del: upt_Suc)
qed

lemma lcs_loop_matching:
  assumes "edit_script cs (drop i base) (drop j target)" "i \<le> length base" "j \<le> length target"
  shows "matching base target i j (lcs_loop cs i j)"
  using assms
proof (induction cs i j rule: lcs_loop.induct)
  case (1 i j)
  then show ?case by simp
next
  case (2 n cs i j)
  then show ?case
    using matching_mono [of base target i "j + n" "lcs_loop cs i (j + n)" i j]
    by (auto simp: drop_drop add.commute)
next
  case (3 n cs i j)
  then show ?case
    using matching_mono [of base target "i + n" j "lcs_loop cs (i + n) j" i j]
    by (auto simp: drop_drop add.commute)
next
  case (4 n cs i j)
  then have "matching base target (i + n) (j + n) (lcs_loop cs (i + n) (j + n))"
    by (auto simp: drop_drop add.commute)
  then show ?case
    using 4 matching_run [of base target i n j] by auto
qed

lemma compute_chunk_loop_correct:
  assumes "matching base target i j ms"
  shows "ordered (length base) i (compute_chunk_loop base target ms i j)
    \<and> render base i (length base) (compute_chunk_loop base target ms i j) = drop j target"
  using assms
proof (induction ms arbitrary: i j)
  case Nil
  then show ?case by (auto simp: between_full)
next
  case (Cons m ms)
  obtain b t where m: "m = (b, t)" by force
  let ?rest = "compute_chunk_loop base target ms (b + 1) (t + 1)"
  have IH: "ordered (length base) (b + 1) ?rest" "render base (b + 1) (length base) ?rest = drop (t + 1) target"
    using Cons m by auto
  have "render base b (length base) ?rest = between base b (b + 1) @ drop (t + 1) target"
    using render_split [OF _ IH(1), of b base] IH(2) by simp
  then have tail: "render base b (length base) ?rest = drop t target"
    using Cons.prems m by (simp add: between_one Cons_nth_drop_Suc)
  have "ordered (length base) b ?rest"
    using IH(1) by (cases ?rest) auto
  moreover have "between target j t @ drop t target = drop j target" if "j \<le> t"
    using that between_append [of j t "length target" target] Cons.prems m by (simp add: between_full)
  ultimately show ?case
    using Cons.prems m tail by auto
qed

lemma computeChunks_correct:
  assumes "valid_diff diff"
  shows "ordered (length base) 0 (computeChunks diff base target)"
    "render base 0 (length base) (computeChunks diff base target) = target"
proof -
  have "matching base target 0 0 (lcsMatches diff base target)"
    unfolding lcsMatches_def using assms by (intro lcs_loop_matching) (auto simp: valid_diff_def)
  then show "ordered (length base) 0 (computeChunks diff base target)"
    "render base 0 (length base) (computeChunks diff base target) = target"
    unfolding computeChunks_def using compute_chunk_loop_correct by auto
qed

section \<open>Overlap\<close>

lemma overlaps_start:
  assumes "overlaps x y" "baseStart x \<le> baseEnd x" "baseStart y \<le> baseEnd y"
  shows "baseStart x \<le> baseEnd y" "baseStart y \<le> baseEnd x"
  using assms by (auto simp: overlaps_def Let_def split: if_splits)

lemma apart_end:
  assumes "\<not> overlaps x y" "baseStart x \<le> baseStart y" "baseStart x \<le> baseEnd x" "baseStart y \<le> baseEnd y"
  shows "baseEnd x \<le> baseStart y"
  using assms by (auto simp: overlaps_def Let_def max_def min_def split: if_splits)

lemma overlaps_sym: "overlaps x y = overlaps y x"
  by (auto simp: overlaps_def Let_def max.commute min.commute)

lemma ordered_append:
  "ordered n at (xs @ ys) \<longleftrightarrow> (if xs = [] then ordered n at ys
     else ordered (baseEnd (last xs)) at xs \<and> ordered n (baseEnd (last xs)) ys)"
  by (induction xs arbitrary: at) auto

lemma ordered_shape: "ordered n at xs \<Longrightarrow> x \<in> set xs \<Longrightarrow> at \<le> baseStart x \<and> baseStart x \<le> baseEnd x \<and> baseEnd x \<le> n"
  by (induction n at xs rule: ordered.induct) (auto dest: ordered_le)

text \<open>The inner loop keeps the groups consecutive and connected.\<close>

definition linked :: "ChunkMapping list \<Rightarrow> ChunkMapping list \<Rightarrow> bool" where
  "linked xs ys \<longleftrightarrow> (\<forall>x \<in> set xs. baseStart x \<le> baseEnd (last ys))"

lemma grow_group_spec:
  assumes "grow_group own other rest = (grew, own', rest')" "own \<noteq> []" "other \<noteq> []"
    "ordered n a (own @ rest)" "ordered n b (other @ orest)" "linked own other" "linked other own"
  shows "own' \<noteq> []" "own' @ rest' = own @ rest" "linked own' other" "linked other own'" "\<exists>zs. own' = own @ zs"
    "\<not> grew \<Longrightarrow> own' = own \<and> rest' = rest \<and> (rest = [] \<or> (\<forall>y \<in> set other. \<not> overlaps (hd rest) y))"
proof -
  have "own' \<noteq> [] \<and> own' @ rest' = own @ rest \<and> linked own' other \<and> linked other own' \<and> (\<exists>zs. own' = own @ zs) \<and>
    (\<not> grew \<longrightarrow> own' = own \<and> rest' = rest \<and> (rest = [] \<or> (\<forall>y \<in> set other. \<not> overlaps (hd rest) y)))"
  proof (cases grew)
    case True
    then obtain q y where q: "rest = q # rest'" "own' = own @ [q]" "y \<in> set other" "overlaps q y"
      using assms(1) by (auto simp: grow_group_def list_ex_iff split: list.splits if_splits)
    have qo: "baseStart q \<le> baseEnd q" "baseEnd (last own) \<le> baseStart q"
      using assms(2,4) q(1) by (auto simp: ordered_append)
    have yo: "baseStart y \<le> baseEnd y" "baseEnd y \<le> baseEnd (last other)"
      using assms(3,5) q(3) ordered_shape [of "baseEnd (last other)" b other y] by (auto simp: ordered_append)
    have "baseStart q \<le> baseEnd (last other)"
      using overlaps_start [OF q(4) qo(1) yo(1)] yo(2) by linarith
    moreover have "linked other own'"
      using assms(7) q(2) qo by (fastforce simp: linked_def)
    ultimately show ?thesis
      using True q assms(6) by (auto simp: linked_def)
  next
    case False
    then show ?thesis
      using assms by (auto simp: grow_group_def list_ex_iff split: list.splits if_splits)
  qed
  then show "own' \<noteq> []" "own' @ rest' = own @ rest" "linked own' other" "linked other own'" "\<exists>zs. own' = own @ zs"
    "\<not> grew \<Longrightarrow> own' = own \<and> rest' = rest \<and> (rest = [] \<or> (\<forall>y \<in> set other. \<not> overlaps (hd rest) y))"
    by auto
qed

definition separate :: "ChunkMapping list \<Rightarrow> ChunkMapping list \<Rightarrow> bool" where
  "separate rest other \<longleftrightarrow> rest = [] \<or> (\<forall>y \<in> set other. \<not> overlaps (hd rest) y)"

lemma expand_spec:
  assumes "expand pg cg ps cs = ((pg', cg'), ps', cs')" "pg \<noteq> []" "cg \<noteq> []"
    "ordered n a (pg @ ps)" "ordered n b (cg @ cs)" "linked pg cg" "linked cg pg"
  shows "pg' \<noteq> [] \<and> cg' \<noteq> [] \<and> pg' @ ps' = pg @ ps \<and> cg' @ cs' = cg @ cs \<and> linked pg' cg' \<and> linked cg' pg'
    \<and> separate ps' cg' \<and> separate cs' pg' \<and> hd pg' = hd pg \<and> hd cg' = hd cg"
  using assms
proof (induction pg cg ps cs rule: expand.induct)
  case (1 pg cg ps cs)
  obtain ep pg1 ps1 where g1: "grow_group pg cg ps = (ep, pg1, ps1)" by (metis prod_cases3)
  obtain ec cg1 cs1 where g2: "grow_group cg pg1 cs = (ec, cg1, cs1)" by (metis prod_cases3)
  note s1 = grow_group_spec [OF g1 1(3,4,5,6,7,8)]
  have "ordered n a (pg1 @ ps1)" using 1(5) s1(2) by simp
  note s2 = grow_group_spec [OF g2 1(4) s1(1) 1(6) this s1(4,3)]
  show ?case
  proof (cases "ep \<or> ec")
    case True
    have "expand pg1 cg1 ps1 cs1 = ((pg', cg'), ps', cs')"
      using 1(2) True g1 g2 by (subst (asm) expand.simps) simp
    from 1(1) [OF refl g1 [symmetric] refl refl g2 [symmetric] refl True this] s1 s2 1(5,6)
    show ?thesis using 1(3,4) by auto
  next
    case False
    then have "pg' = pg1" "cg' = cg1" "ps' = ps1" "cs' = cs1"
      using 1(2) g1 g2 by (subst (asm) expand.simps, simp)+
    then show ?thesis
      using False s1 s2 1(3,4) by (auto simp: separate_def)
  qed
qed

lemma group_end:
  assumes "linked cg pg" "ordered n a (pg @ ps')" "ordered n b (cg @ cs')" "separate ps' cg" "pg \<noteq> []" "cg \<noteq> []"
    "max (baseEnd (last pg)) (baseEnd (last cg)) \<le> n"
  shows "ordered n (max (baseEnd (last pg)) (baseEnd (last cg))) ps'"
proof (cases ps')
  case Nil
  then show ?thesis using assms by simp
next
  case (Cons q qs)
  let ?l = "last cg"
  have q: "baseEnd (last pg) \<le> baseStart q" "baseStart q \<le> baseEnd q" "ordered n (baseEnd q) qs"
    using assms(2,5) Cons by (auto simp: ordered_append)
  have l: "baseStart ?l \<le> baseEnd ?l" "baseStart ?l \<le> baseEnd (last pg)"
    using assms(1,3,6) ordered_shape [of "baseEnd ?l" b cg ?l] by (auto simp: ordered_append linked_def)
  have "\<not> overlaps ?l q"
    using assms(4,6) Cons by (auto simp: separate_def overlaps_sym)
  then have "baseEnd ?l \<le> baseStart q"
    using apart_end l q by (metis le_trans)
  with q Cons show ?thesis by auto
qed

lemma render_append:
  "ordered n at (xs @ ys) \<Longrightarrow> xs \<noteq> [] \<Longrightarrow> baseEnd (last xs) \<le> e \<Longrightarrow> ordered n e ys
   \<Longrightarrow> render base at n (xs @ ys) = render base at e xs @ render base e n ys"
proof (induction xs arbitrary: at)
  case Nil
  then show ?case by simp
next
  case (Cons x xs)
  show ?case
  proof (cases "xs = []")
    case True
    then show ?thesis using Cons.prems render_split [of "baseEnd x" e n ys base] by auto
  next
    case False
    then show ?thesis using Cons by auto
  qed
qed

section \<open>The merge loop\<close>

definition merge_spec ::
  "utext list \<Rightarrow> utext \<Rightarrow> utext \<Rightarrow> utext \<Rightarrow> ChunkMapping list \<Rightarrow> ChunkMapping list \<Rightarrow> nat \<Rightarrow> bool \<times> utext list \<Rightarrow> bool" where
  "merge_spec base pl cl e ps cs cursor r \<longleftrightarrow>
     (\<exists>regions. concat (map in_base regions) = drop cursor base
        \<and> concat (map in_parent regions) = render base cursor (length base) ps
        \<and> concat (map in_child regions) = render base cursor (length base) cs
        \<and> snd r = concat (map (in_result pl cl e) regions)
        \<and> fst r = list_all agreed regions)"

lemma merge_spec_extend:
  assumes "merge_spec base pl cl e ps' cs' cursor' (rc, rest)"
    and "drop cursor base = concat (map in_base rs) @ drop cursor' base"
    and "render base cursor (length base) ps = concat (map in_parent rs) @ render base cursor' (length base) ps'"
    and "render base cursor (length base) cs = concat (map in_child rs) @ render base cursor' (length base) cs'"
  shows "merge_spec base pl cl e ps cs cursor
    (list_all agreed rs \<and> rc, concat (map (in_result pl cl e) rs) @ rest)"
proof -
  obtain regions where r: "concat (map in_base regions) = drop cursor' base"
      "concat (map in_parent regions) = render base cursor' (length base) ps'"
      "concat (map in_child regions) = render base cursor' (length base) cs'"
      "rest = concat (map (in_result pl cl e) regions)" "rc = list_all agreed regions"
    using assms(1) by (auto simp: merge_spec_def)
  show ?thesis
    unfolding merge_spec_def using assms(2-) r by (intro exI [of _ "rs @ regions"]) simp
qed

lemma drop_between: "a \<le> b \<Longrightarrow> drop a xs = between xs a b @ drop b xs"
  by (metis between_def append_take_drop_id drop_drop le_add_diff_inverse2)

lemma step_one_side:
  assumes "ordered (length base) cursor (x # xs)" "ordered (length base) cursor ys" "ordered (length base) (baseEnd x) ys"
  shows "render base cursor (length base) (x # xs) =
      between base cursor (baseStart x) @ clines x @ render base (baseEnd x) (length base) xs"
    and "render base cursor (length base) ys =
      between base cursor (baseStart x) @ between base (baseStart x) (baseEnd x) @ render base (baseEnd x) (length base) ys"
    and "drop cursor base = between base cursor (baseStart x) @ between base (baseStart x) (baseEnd x) @ drop (baseEnd x) base"
proof -
  have le: "cursor \<le> baseStart x" "baseStart x \<le> baseEnd x"
    using assms(1) by auto
  show "render base cursor (length base) (x # xs) =
      between base cursor (baseStart x) @ clines x @ render base (baseEnd x) (length base) xs" by simp
  show "render base cursor (length base) ys =
      between base cursor (baseStart x) @ between base (baseStart x) (baseEnd x) @ render base (baseEnd x) (length base) ys"
    using render_split [OF _ assms(3), of cursor base] between_append [of cursor "baseStart x" "baseEnd x" base] le by simp
  show "drop cursor base = between base cursor (baseStart x) @ between base (baseStart x) (baseEnd x) @ drop (baseEnd x) base"
    using drop_between [of cursor "baseEnd x" base] between_append [of cursor "baseStart x" "baseEnd x" base] le by simp
qed

lemma ordered_later: "ordered n a ys \<Longrightarrow> b \<le> n \<Longrightarrow> ys = [] \<or> b \<le> baseStart (hd ys) \<Longrightarrow> ordered n b ys"
  by (cases ys) auto

lemma ordered_mono: "ordered n a ys \<Longrightarrow> n \<le> m \<Longrightarrow> ordered m a ys"
  by (induction n a ys rule: ordered.induct) auto

lemma step_group:
  assumes "ordered n cursor (xs @ xs')" "xs \<noteq> []" "start \<le> baseStart (hd xs)" "cursor \<le> start"
    "baseEnd (last xs) \<le> e" "ordered n e xs'"
  shows "render base cursor n (xs @ xs') = between base cursor start @ render base start e xs @ render base e n xs'"
proof -
  have "ordered (baseEnd (last xs)) cursor xs"
    using assms(1,2) by (simp add: ordered_append)
  then have "ordered e cursor xs"
    using ordered_mono assms(5) by blast
  moreover have "start \<le> e"
    using ordered_shape [OF calculation hd_in_set [OF assms(2)]] assms(3) by linarith
  ultimately have "ordered e start xs"
    using ordered_later assms(3) by blast
  then have "render base cursor e xs = between base cursor start @ render base start e xs"
    using render_split assms(4) by blast
  with render_append [OF assms(1,2,5,6)] show ?thesis by simp
qed

lemma merge_loop_spec:
  assumes "ordered (length base) cursor ps" "ordered (length base) cursor cs"
  shows "merge_spec base pl cl e ps cs cursor (merge_loop base pl cl e ps cs cursor)"
  using assms
proof (induction base pl cl e ps cs cursor rule: merge_loop.induct)
  case (1 base pl cl e ps cs cursor)
  let ?n = "length base"
  consider "ps = []" "cs = []" | "ps \<noteq> []" "cs \<noteq> []" "overlaps (hd ps) (hd cs)"
    | "ps \<noteq> []" "cs = [] \<or> baseStart (hd ps) \<le> baseStart (hd cs) \<and> \<not> overlaps (hd ps) (hd cs)"
    | "cs \<noteq> []" "ps = [] \<or> \<not> baseStart (hd ps) \<le> baseStart (hd cs) \<and> \<not> overlaps (hd ps) (hd cs)"
    by fastforce
  then show ?case
  proof cases
    case 1
    then show ?thesis
      by (subst merge_loop.simps)
        (auto simp: merge_spec_def between_full intro!: exI [of _ "[Unchanged (drop cursor base)]"])
  next
    case 2
    then obtain p ps1 c cs1 where pc: "ps = p # ps1" "cs = c # cs1" by (cases ps; cases cs) auto
    have shape: "cursor \<le> baseStart p" "baseStart p \<le> baseEnd p" "cursor \<le> baseStart c" "baseStart c \<le> baseEnd c"
      using "1.prems" pc by auto
    obtain pg cg ps' cs' where ex: "expand [p] [c] ps1 cs1 = ((pg, cg), ps', cs')" by (metis prod.collapse)
    have "linked [p] [c]" "linked [c] [p]"
      using overlaps_start [of p c] 2(3) pc shape by (auto simp: linked_def)
    then have x: "pg \<noteq> []" "cg \<noteq> []" "pg @ ps' = ps" "cg @ cs' = cs" "linked pg cg" "linked cg pg"
        "separate ps' cg" "separate cs' pg" "hd pg = p" "hd cg = c"
      using expand_spec [OF ex] "1.prems" pc by auto
    let ?s = "min (baseStart p) (baseStart c)" and ?e = "max (baseEnd (last pg)) (baseEnd (last cg))"
    have op: "ordered ?n cursor (pg @ ps')" "ordered ?n cursor (cg @ cs')"
      using "1.prems" x by auto
    have "?e \<le> ?n"
      using ordered_shape [OF op(1), of "last pg"] ordered_shape [OF op(2), of "last cg"] x(1,2) by auto
    then have later: "ordered ?n ?e ps'" "ordered ?n ?e cs'"
      using group_end [OF x(6) op x(7) x(1,2)] group_end [OF x(5) op(2,1) x(8) x(2,1)] by (auto simp: max.commute)
    let ?p = "render base ?s ?e pg" and ?c = "render base ?s ?e cg"
    have rp: "render base cursor ?n ps = between base cursor ?s @ ?p @ render base ?e ?n ps'"
      using step_group [OF op(1) x(1) _ _ _ later(1), of ?s base] x(3,9) shape by simp
    have rc: "render base cursor ?n cs = between base cursor ?s @ ?c @ render base ?e ?n cs'"
      using step_group [OF op(2) x(2) _ _ _ later(2), of ?s base] x(4,10) shape by simp
    have "?s \<le> ?e"
      using ordered_shape [OF op(1), of "last pg"] ordered_shape [OF op(1), of p] x(1,9)
        ordered_shape [of "baseEnd (last pg)" cursor pg p] op(1) hd_in_set [OF x(1)]
      by (auto simp: ordered_append)
    then have db: "drop cursor base = between base cursor ?s @ between base ?s ?e @ drop ?e base"
      using drop_between [of cursor ?s base] drop_between [of ?s ?e base] shape by simp
    obtain cl' rest where rec: "merge_loop base pl cl e ps' cs' ?e = (cl', rest)" by force
    have ex': "((pg, cg), ps', cs') = expand [hd ps] [hd cs] (tl ps) (tl cs)"
      using ex pc by simp
    have "merge_spec base pl cl e ps' cs' ?e (cl', rest)"
      using "1.IH"(1) [OF _ _ ex' refl refl refl refl refl refl refl later] 2 rec by simp
    from merge_spec_extend [OF this, where rs = "[Unchanged (between base cursor ?s), Both (between base ?s ?e) ?p ?c]"
        and ps = ps and cs = cs and cursor = cursor] rp rc db
    show ?thesis
      using 2 pc ex rec by (subst merge_loop.simps) (auto simp: Let_def)
  next
    case 3
    then obtain p ps' where p: "ps = p # ps'" by (cases ps) auto
    have le: "baseStart p \<le> baseEnd p" "baseEnd p \<le> ?n"
      using "1.prems"(1) p ordered_shape by fastforce+
    have "cs = [] \<or> baseEnd p \<le> baseStart (hd cs)"
      using 3 p "1.prems" apart_end [of p "hd cs"] le by (cases cs) auto
    then have later: "ordered ?n (baseEnd p) cs"
      using ordered_later "1.prems"(2) le by blast
    obtain rc rest where rec: "merge_loop base pl cl e ps' cs (baseEnd p) = (rc, rest)" by force
    have c: "\<not> (ps = [] \<and> cs = [])" "\<not> (ps \<noteq> [] \<and> cs \<noteq> [] \<and> overlaps (hd ps) (hd cs))"
        "True = (ps \<noteq> [] \<and> (cs = [] \<or> baseStart (hd ps) \<le> baseStart (hd cs)))"
      using 3 by blast+
    have "merge_spec base pl cl e ps' cs (baseEnd p) (rc, rest)"
      using "1.IH"(2) [OF c refl] p rec "1.prems"(1) later by simp
    from merge_spec_extend [OF this, where rs = "[Unchanged (between base cursor (baseStart p)),
        ParentOnly (between base (baseStart p) (baseEnd p)) (clines p)]" and ps = ps and cs = cs and cursor = cursor]
      step_one_side [OF _ "1.prems"(2) later, of ps'] "1.prems"(1) p
    show ?thesis
      using 3 p rec by (subst merge_loop.simps) auto
  next
    case 4
    then obtain c cs' where c: "cs = c # cs'" by (cases cs) auto
    have le: "baseStart c \<le> baseEnd c" "baseEnd c \<le> ?n"
      using "1.prems"(2) c ordered_shape by fastforce+
    have "ps = [] \<or> baseEnd c \<le> baseStart (hd ps)"
      using 4 c "1.prems" apart_end [of c "hd ps"] le by (cases ps) (auto simp: overlaps_sym)
    then have later: "ordered ?n (baseEnd c) ps"
      using ordered_later "1.prems"(1) le by blast
    obtain rc rest where rec: "merge_loop base pl cl e ps cs' (baseEnd c) = (rc, rest)" by force
    have d: "\<not> (ps = [] \<and> cs = [])" "\<not> (ps \<noteq> [] \<and> cs \<noteq> [] \<and> overlaps (hd ps) (hd cs))"
        "False = (ps \<noteq> [] \<and> (cs = [] \<or> baseStart (hd ps) \<le> baseStart (hd cs)))"
      using 4 by blast+
    have "merge_spec base pl cl e ps cs' (baseEnd c) (rc, rest)"
      using "1.IH"(2) [OF d refl] c rec "1.prems"(2) later by simp
    from merge_spec_extend [OF this, where rs = "[Unchanged (between base cursor (baseStart c)),
        ChildOnly (between base (baseStart c) (baseEnd c)) (clines c)]" and ps = ps and cs = cs and cursor = cursor]
      step_one_side [OF _ "1.prems"(1) later, of cs'] "1.prems"(2) c
    show ?thesis
      using 4 c rec by (subst merge_loop.simps) auto
  qed
qed

lemma mergeText3Way_regions:
  assumes "valid_diff diff"
  shows "\<exists>e regions.
    concat (concat (map in_base regions)) = baseText
    \<and> concat (concat (map in_parent regions)) = parentText
    \<and> concat (concat (map in_child regions)) = childText
    \<and> merged_text (mergeText3Way diff baseText parentText childText pLabel cLabel) =
        concat (concat (map (in_result (case pLabel of None \<Rightarrow> ascii ''parent'' | Some l \<Rightarrow> l)
                                       (case cLabel of None \<Rightarrow> ascii ''child'' | Some l \<Rightarrow> l) e) regions))
    \<and> (clean (mergeText3Way diff baseText parentText childText pLabel cLabel) \<longleftrightarrow> list_all agreed regions)"
    (is "\<exists>e regions. ?P e regions")
proof -
  consider "parentText = childText" | "parentText \<noteq> childText" "parentText = baseText"
    | "parentText \<noteq> childText" "childText = baseText"
    | "parentText \<noteq> childText" "parentText \<noteq> baseText" "childText \<noteq> baseText"
    by blast
  then show ?thesis
  proof cases
    case 1
    then have "?P [] [Both [baseText] [parentText] [childText]]" by (simp add: mergeText3Way_def)
    then show ?thesis by blast
  next
    case 2
    then have "?P [] [ChildOnly [baseText] [childText]]" by (simp add: mergeText3Way_def)
    then show ?thesis by blast
  next
    case 3
    then have "?P [] [ParentOnly [baseText] [parentText]]" by (simp add: mergeText3Way_def)
    then show ?thesis by blast
  next
    case 4
    define base where "base = splitLineTokens baseText"
    define ps where "ps = computeChunks diff base (splitLineTokens parentText)"
    define cs where "cs = computeChunks diff base (splitLineTokens childText)"
    define pl where "pl = (case pLabel of None \<Rightarrow> ascii ''parent'' | Some l \<Rightarrow> l)"
    define cl where "cl = (case cLabel of None \<Rightarrow> ascii ''child'' | Some l \<Rightarrow> l)"
    define e where "e = (case first_some first_eol [parentText, childText, baseText] of None \<Rightarrow> [10] | Some e \<Rightarrow> e)"
    note chunks = computeChunks_correct [OF assms, of base]
    have m: "mergeText3Way diff baseText parentText childText pLabel cLabel =
        \<lparr>clean = fst (merge_loop base pl cl e ps cs 0), merged_text = concat (snd (merge_loop base pl cl e ps cs 0))\<rparr>"
      using 4 by (simp add: mergeText3Way_def Let_def base_def ps_def cs_def pl_def cl_def e_def split: prod.split)
    have "merge_spec base pl cl e ps cs 0 (merge_loop base pl cl e ps cs 0)"
      unfolding ps_def cs_def by (intro merge_loop_spec chunks)
    then obtain regions where r: "concat (map in_base regions) = base"
        "concat (map in_parent regions) = splitLineTokens parentText"
        "concat (map in_child regions) = splitLineTokens childText"
        "snd (merge_loop base pl cl e ps cs 0) = concat (map (in_result pl cl e) regions)"
        "fst (merge_loop base pl cl e ps cs 0) = list_all agreed regions"
      by (auto simp: merge_spec_def ps_def cs_def chunks(2))
    have "?P e regions"
      unfolding m pl_def [symmetric] cl_def [symmetric] r using concat_splitLineTokens by (simp add: base_def)
    then show ?thesis by blast
  qed
qed

definition replace_all :: differ where
  "replace_all a b = (if a = b then [Common (length a)] else [Removed (length a), Added (length b)])"

lemma valid_replace_all: "valid_diff replace_all"
  by (auto simp: valid_diff_def replace_all_def)

section \<open>Properties\<close>

text \<open>
  C17. The three-way merge is a region-wise merge, for every comparison that returns a valid edit script:
  the three texts are cut into the same sequence of regions, each unchanged, changed by one side only, or
  changed by both; the result takes the changed lines of the side that changed, the common lines where both
  agree, and a block with both versions between conflict markers where they do not; and the merge is reported
  clean exactly when no region is in conflict. No line of either side is lost or duplicated.
\<close>

theorem three_way_merge_regions:
  assumes "valid_diff diff"
  shows "\<exists>e regions.
    concat (concat (map in_base regions)) = baseText
    \<and> concat (concat (map in_parent regions)) = parentText
    \<and> concat (concat (map in_child regions)) = childText
    \<and> merged_text (mergeText3Way diff baseText parentText childText pLabel cLabel) =
        concat (concat (map (in_result (case pLabel of None \<Rightarrow> ascii ''parent'' | Some l \<Rightarrow> l)
                                       (case cLabel of None \<Rightarrow> ascii ''child'' | Some l \<Rightarrow> l) e) regions))
    \<and> (clean (mergeText3Way diff baseText parentText childText pLabel cLabel) \<longleftrightarrow> list_all agreed regions)"
  using assms by (rule mergeText3Way_regions)

theorem three_way_merge_regions_witness:
  "\<exists>e regions.
    concat (concat (map in_base regions)) = [97, 10]
    \<and> concat (concat (map in_parent regions)) = [98, 10]
    \<and> concat (concat (map in_child regions)) = [99, 10]
    \<and> merged_text (mergeText3Way replace_all [97, 10] [98, 10] [99, 10] None None) =
        concat (concat (map (in_result (case None of None \<Rightarrow> ascii ''parent'' | Some l \<Rightarrow> l)
                                       (case None of None \<Rightarrow> ascii ''child'' | Some l \<Rightarrow> l) e) regions))
    \<and> (clean (mergeText3Way replace_all [97, 10] [98, 10] [99, 10] None None) \<longleftrightarrow> list_all agreed regions)"
  by (rule three_way_merge_regions [OF valid_replace_all])

end
