(* ===== verification/Recovery_State.thy ===== *)
theory Recovery_State
  imports Varin_Prelude
begin

unbundle bit_operations_syntax

text \<open>
  File states of the recovery journal, \<^verbatim>\<open>src/packages/web/application-host/lib/recovery/journal-files.ts\<close>:
  parsing a stored value, the persistent identity and the comparison with the disk.

  \<open>JSON.stringify\<close> of the identity record is written out, so that the theorems about identities are about
  the strings the code compares and hashes. \<open>win32\<close> is \<open>process.platform === 'win32'\<close>.
\<close>

section \<open>States\<close>

datatype RecoveryState =
    Missing
  | Unsupported
  | Directory "nat option"
  | Symlink string "nat option"
  | RegularFile nat string "nat option"

fun kind :: "RecoveryState \<Rightarrow> string" where
  "kind Missing = ''missing''"
| "kind Unsupported = ''unsupported''"
| "kind (Directory m) = ''directory''"
| "kind (Symlink t m) = ''symlink''"
| "kind (RegularFile n h m) = ''regular-file''"

fun state_mode :: "RecoveryState \<Rightarrow> nat option" where
  "state_mode (Directory m) = m"
| "state_mode (Symlink t m) = m"
| "state_mode (RegularFile n h m) = m"
| "state_mode s = None"

fun byteLength :: "RecoveryState \<Rightarrow> nat option" where
  "byteLength (RegularFile n h m) = Some n"
| "byteLength s = None"

fun objectHash :: "RecoveryState \<Rightarrow> string option" where
  "objectHash (RegularFile n h m) = Some h"
| "objectHash s = None"

fun symlinkTarget :: "RecoveryState \<Rightarrow> string option" where
  "symlinkTarget (Symlink t m) = Some t"
| "symlinkTarget s = None"

section \<open>Parsing\<close>

datatype recovery_error = StorageMalformed string

definition MAX_SAFE_INTEGER :: int where
  "MAX_SAFE_INTEGER = 2 ^ 53 - 1"

text \<open>A value that passes \<open>Number.isSafeInteger\<close> and is not negative.\<close>

fun natural_value :: "jsval \<Rightarrow> nat option" where
  "natural_value (JNumber (JInt n)) = (if 0 \<le> n \<and> n \<le> MAX_SAFE_INTEGER then Some (nat n) else None)"
| "natural_value v = None"

definition parseOptionalMode :: "jsval \<Rightarrow> (recovery_error, nat option) outcome" where
  "parseOptionalMode v =
     (if v = JUndefined then Inr None
      else case natural_value v of
             None \<Rightarrow> Inl (StorageMalformed ''Recovery file mode is malformed'')
           | Some m \<Rightarrow> Inr (Some m))"

definition hex_digit :: "char \<Rightarrow> bool" where
  "hex_digit c \<longleftrightarrow> c \<in> set ''0123456789abcdef''"

text \<open>\<open>/^sha256-[0-9a-f]{64}$/u.test(value)\<close>\<close>

definition sha256_name :: "string \<Rightarrow> bool" where
  "sha256_name s \<longleftrightarrow> prefix ''sha256-'' s \<and> length (drop 7 s) = 64 \<and> list_all hex_digit (drop 7 s)"

definition parseRecoveryState :: "jsval \<Rightarrow> (recovery_error, RecoveryState) outcome" where
  "parseRecoveryState v =
     (if \<not> is_object v \<or> is_array v then Inl (StorageMalformed ''Recovery file state is malformed'')
      else
        obind (parseOptionalMode (prop_of v ''mode'')) (\<lambda>md.
          let k = prop_of v ''kind''
          in if k = JString ''missing'' then Inr Missing
             else if k = JString ''unsupported'' then Inr Unsupported
             else if k = JString ''directory'' then Inr (Directory md)
             else if k = JString ''symlink'' then
               (case prop_of v ''symlinkTarget'' of
                  JString t \<Rightarrow> Inr (Symlink t md)
                | _ \<Rightarrow> Inl (StorageMalformed ''Recovery symlink state is malformed''))
             else if k = JString ''regular-file'' then
               (case (natural_value (prop_of v ''byteLength''), prop_of v ''objectHash'') of
                  (Some n, JString h) \<Rightarrow>
                    (if sha256_name h then Inr (RegularFile n h md)
                     else Inl (StorageMalformed ''Recovery regular-file state is malformed''))
                | _ \<Rightarrow> Inl (StorageMalformed ''Recovery regular-file state is malformed''))
             else Inl (StorageMalformed ''Recovery file state kind is unsupported'')))"

text \<open>\<open>String(value || '')\<close>, backslashes to slashes, one leading \<open>./\<close> removed, runs of slashes collapsed.\<close>

fun collapse_slashes :: "string \<Rightarrow> string" where
  "collapse_slashes (CHR ''/'' # CHR ''/'' # s) = collapse_slashes (CHR ''/'' # s)"
| "collapse_slashes (c # s) = c # collapse_slashes s"
| "collapse_slashes [] = []"

definition normalizeResourceId :: "string \<Rightarrow> string" where
  "normalizeResourceId v =
     (let s = map (\<lambda>c. if c = CHR 0x5C then CHR ''/'' else c) v
      in collapse_slashes (if prefix ''./'' s then drop 2 s else s))"

section \<open>Identities\<close>

definition comparableMode :: "bool \<Rightarrow> RecoveryState \<Rightarrow> nat option" where
  "comparableMode win32 s =
     (case state_mode s of
        None \<Rightarrow> None
      | Some m \<Rightarrow>
          if kind s = ''symlink'' then None
          else if \<not> win32 then Some m
          else Some (if m AND 0x92 = 0 then 0x124 else 0x1B6))"

definition persistentMode :: "RecoveryState \<Rightarrow> nat option" where
  "persistentMode s = (if kind s = ''symlink'' then None else state_mode s)"

definition hex_char :: "nat \<Rightarrow> char" where
  "hex_char n = (if n < 10 then char_of (48 + n) else char_of (87 + n))"

definition json_char :: "char \<Rightarrow> string" where
  "json_char c =
     (let n = (of_char c :: nat); bs = CHR 0x5C
      in if c = CHR 0x22 then [bs, c]
         else if c = CHR 0x5C then [bs, c]
         else if c = CHR 8 then [bs, CHR ''b'']
         else if c = CHR 9 then [bs, CHR ''t'']
         else if c = CHR 10 then [bs, CHR ''n'']
         else if c = CHR 12 then [bs, CHR ''f'']
         else if c = CHR 13 then [bs, CHR ''r'']
         else if n < 32 then [bs, CHR ''u'', CHR ''0'', CHR ''0'', hex_char (n div 16), hex_char (n mod 16)]
         else [c])"

definition json_string :: "string \<Rightarrow> string" where
  "json_string s = CHR 0x22 # concat (map json_char s) @ [CHR 0x22]"

definition json_number_or_null :: "nat option \<Rightarrow> string" where
  "json_number_or_null v = (case v of None \<Rightarrow> ''null'' | Some n \<Rightarrow> dec n)"

definition json_string_or_null :: "string option \<Rightarrow> string" where
  "json_string_or_null v = (case v of None \<Rightarrow> ''null'' | Some s \<Rightarrow> json_string s)"

text \<open>\<open>JSON.stringify({ byteLength, kind, mode, objectHash, symlinkTarget })\<close>\<close>

definition identity_json :: "nat option \<Rightarrow> string \<Rightarrow> nat option \<Rightarrow> string option \<Rightarrow> string option \<Rightarrow> string" where
  "identity_json bl k md oh st =
     ''{'' @ json_string ''byteLength'' @ '':'' @ json_number_or_null bl @ '',''
     @ json_string ''kind'' @ '':'' @ json_string k @ '',''
     @ json_string ''mode'' @ '':'' @ json_number_or_null md @ '',''
     @ json_string ''objectHash'' @ '':'' @ json_string_or_null oh @ '',''
     @ json_string ''symlinkTarget'' @ '':'' @ json_string_or_null st @ ''}''"

definition stateIdentity :: "RecoveryState \<Rightarrow> string" where
  "stateIdentity s = identity_json (byteLength s) (kind s) (persistentMode s) (objectHash s) (symlinkTarget s)"

definition disk_identity :: "bool \<Rightarrow> RecoveryState \<Rightarrow> string" where
  "disk_identity win32 s =
     identity_json (byteLength s) (kind s) (comparableMode win32 s) (objectHash s) (symlinkTarget s)"

definition sameState :: "bool \<Rightarrow> RecoveryState \<Rightarrow> RecoveryState \<Rightarrow> bool" where
  "sameState win32 left right \<longleftrightarrow> disk_identity win32 left = disk_identity win32 right"

section \<open>Vocabulary of the properties\<close>

text \<open>The stored form of a state, its well-formedness, and what the persistent identity forgets.\<close>

definition opt_mode :: "nat option \<Rightarrow> (string \<times> jsval) list" where
  "opt_mode m = (case m of None \<Rightarrow> [] | Some n \<Rightarrow> [(''mode'', JNumber (JInt (int n)))])"

fun state_value :: "RecoveryState \<Rightarrow> jsval" where
  "state_value Missing = JObject [(''kind'', JString ''missing'')]"
| "state_value Unsupported = JObject [(''kind'', JString ''unsupported'')]"
| "state_value (Directory m) = JObject ((''kind'', JString ''directory'') # opt_mode m)"
| "state_value (Symlink t m) =
     JObject ((''kind'', JString ''symlink'') # (''symlinkTarget'', JString t) # opt_mode m)"
| "state_value (RegularFile n h m) =
     JObject ((''byteLength'', JNumber (JInt (int n))) # (''kind'', JString ''regular-file'')
       # (''objectHash'', JString h) # opt_mode m)"

definition wf_mode :: "nat option \<Rightarrow> bool" where
  "wf_mode m \<longleftrightarrow> (case m of None \<Rightarrow> True | Some n \<Rightarrow> int n \<le> MAX_SAFE_INTEGER)"

fun wf_state :: "RecoveryState \<Rightarrow> bool" where
  "wf_state Missing = True"
| "wf_state Unsupported = True"
| "wf_state (Directory m) = wf_mode m"
| "wf_state (Symlink t m) = wf_mode m"
| "wf_state (RegularFile n h m) = (int n \<le> MAX_SAFE_INTEGER \<and> sha256_name h \<and> wf_mode m)"

fun portable :: "RecoveryState \<Rightarrow> RecoveryState" where
  "portable (Symlink t m) = Symlink t None"
| "portable s = s"

section \<open>Injectivity of the identity\<close>

lemma of_char_hex_char: "n < 16 \<Longrightarrow> (of_char (hex_char n) :: nat) = (if n < 10 then 48 + n else 87 + n)"
  by (simp add: hex_char_def)

text \<open>Reading one character back.\<close>

definition hex_value :: "char \<Rightarrow> nat" where
  "hex_value c = (let n = of_char c in if n < 58 then n - 48 else n - 87)"

definition unescape :: "char \<Rightarrow> char" where
  "unescape c = (if c = CHR ''b'' then CHR 8 else if c = CHR ''t'' then CHR 9 else if c = CHR ''n'' then CHR 10
     else if c = CHR ''f'' then CHR 12 else if c = CHR ''r'' then CHR 13 else c)"

fun json_unchar :: "string \<Rightarrow> char \<times> string" where
  "json_unchar (a # b # r) =
     (if a \<noteq> CHR 0x5C then (a, b # r)
      else if b = CHR ''u'' then (char_of (16 * hex_value (r ! 2) + hex_value (r ! 3)), drop 4 r)
      else (unescape b, r))"
| "json_unchar (a # r) = (a, r)"
| "json_unchar [] = undefined"

lemma hex_value_hex_char: "n < 16 \<Longrightarrow> hex_value (hex_char n) = n"
  by (auto simp: hex_value_def of_char_hex_char)

lemma json_unchar_json_char: "json_unchar (json_char c @ x) = (c, x)"
proof -
  let ?n = "of_char c :: nat"
  let ?special = "c \<in> {CHR 0x22, CHR 0x5C, CHR 8, CHR 9, CHR 10, CHR 12, CHR 13}"
  consider "c = CHR 0x22" | "c = CHR 0x5C" | "c = CHR 8" | "c = CHR 9" | "c = CHR 10" | "c = CHR 12"
    | "c = CHR 13" | "\<not> ?special" "?n < 32" | "\<not> ?special" "\<not> ?n < 32"
    by blast
  then show ?thesis
  proof cases
    case 8
    then have "json_char c = [CHR 0x5C, CHR ''u'', CHR ''0'', CHR ''0'', hex_char (?n div 16), hex_char (?n mod 16)]"
      by (simp add: json_char_def Let_def)
    moreover have "16 * hex_value (hex_char (?n div 16)) + hex_value (hex_char (?n mod 16)) = ?n"
      using 8 by (simp add: hex_value_hex_char)
    ultimately show ?thesis by simp
  next
    case 9
    then have "json_char c = [c]" "c \<noteq> CHR 0x5C"
      by (auto simp: json_char_def Let_def)
    then show ?thesis by (cases x) auto
  qed (simp_all add: json_char_def Let_def unescape_def)
qed

lemma json_char_head: "hd (json_char c) \<noteq> CHR 0x22" "json_char c \<noteq> []"
  by (auto simp: json_char_def Let_def)

lemma json_char_prefix_code: "json_char c @ x = json_char d @ y \<Longrightarrow> c = d \<and> x = y"
  by (metis json_unchar_json_char prod.inject)

lemma json_body_prefix_code:
  assumes "concat (map json_char s) @ CHR 0x22 # x = concat (map json_char t) @ CHR 0x22 # y"
  shows "s = t \<and> x = y"
  using assms
proof (induction s arbitrary: t)
  case Nil
  then show ?case
    using json_char_head by (cases t) (auto, (metis hd_append2 list.sel(1))+)
next
  case (Cons c s)
  show ?case
  proof (cases t)
    case Nil
    with Cons.prems show ?thesis
      using json_char_head by (auto) (metis hd_append2 list.sel(1))+
  next
    case (Cons d u)
    with Cons.prems have "c = d \<and> concat (map json_char s) @ CHR 0x22 # x = concat (map json_char u) @ CHR 0x22 # y"
      by (intro json_char_prefix_code) simp
    with Cons.IH Cons show ?thesis by blast
  qed
qed

lemma json_string_prefix_code: "json_string s @ x = json_string t @ y \<Longrightarrow> s = t \<and> x = y"
  using json_body_prefix_code [of s x t y] by (simp add: json_string_def)

lemma json_string_or_null_prefix_code:
  "json_string_or_null s @ x = json_string_or_null t @ y \<Longrightarrow> s = t \<and> x = y"
  by (cases s; cases t)
    (auto simp: json_string_or_null_def json_string_def dest: json_body_prefix_code)

lemma json_number_or_null_no_comma: "CHR '','' \<notin> set (json_number_or_null v)"
  using dec_digits by (cases v) (fastforce simp: json_number_or_null_def is_digit_def)+

lemma json_number_or_null_inject: "json_number_or_null v = json_number_or_null w \<longleftrightarrow> v = w"
proof -
  have "dec n \<noteq> ''null''" for n
    using dec_digits [of n] by (auto simp: is_digit_def)
  then show ?thesis
    by (cases v; cases w) (auto simp: json_number_or_null_def, metis)
qed

lemma json_number_prefix_code:
  assumes "json_number_or_null v @ CHR '','' # x = json_number_or_null w @ CHR '','' # y"
  shows "v = w \<and> x = y"
  using prefix_sep_split [OF _ _ assms] json_number_or_null_no_comma json_number_or_null_inject by blast

lemma identity_json_inject:
  assumes "identity_json bl k md oh st = identity_json bl' k' md' oh' st'"
  shows "bl = bl' \<and> k = k' \<and> md = md' \<and> oh = oh' \<and> st = st'"
proof -
  let ?r4 = "\<lambda>st. json_string ''symlinkTarget'' @ '':'' @ json_string_or_null st @ ''}''"
  let ?r3 = "\<lambda>oh st. json_string ''objectHash'' @ '':'' @ json_string_or_null oh @ '','' @ ?r4 st"
  let ?r2 = "\<lambda>md oh st. json_string ''mode'' @ '':'' @ json_number_or_null md @ '','' @ ?r3 oh st"
  let ?r1 = "\<lambda>k md oh st. json_string ''kind'' @ '':'' @ json_string k @ '','' @ ?r2 md oh st"
  have "json_number_or_null bl @ CHR '','' # ?r1 k md oh st = json_number_or_null bl' @ CHR '','' # ?r1 k' md' oh' st'"
    using assms by (simp add: identity_json_def)
  from json_number_prefix_code [OF this] have 1: "bl = bl'" "?r1 k md oh st = ?r1 k' md' oh' st'" by blast+
  then have "json_string k @ '','' @ ?r2 md oh st = json_string k' @ '','' @ ?r2 md' oh' st'" by simp
  from json_string_prefix_code [OF this] have 2: "k = k'" "'','' @ ?r2 md oh st = '','' @ ?r2 md' oh' st'" by blast+
  then have "json_number_or_null md @ CHR '','' # ?r3 oh st = json_number_or_null md' @ CHR '','' # ?r3 oh' st'" by simp
  from json_number_prefix_code [OF this] have 3: "md = md'" "?r3 oh st = ?r3 oh' st'" by blast+
  then have "json_string_or_null oh @ '','' @ ?r4 st = json_string_or_null oh' @ '','' @ ?r4 st'" by simp
  from json_string_or_null_prefix_code [OF this] have 4: "oh = oh'" "'','' @ ?r4 st = '','' @ ?r4 st'" by blast+
  then have "json_string_or_null st @ ''}'' = json_string_or_null st' @ ''}''" by simp
  from json_string_or_null_prefix_code [OF this] 1 2 3 4 show ?thesis by blast
qed

lemma stateIdentity_eq_iff: "stateIdentity a = stateIdentity b \<longleftrightarrow> portable a = portable b"
proof
  assume "stateIdentity a = stateIdentity b"
  then have "byteLength a = byteLength b \<and> kind a = kind b \<and> persistentMode a = persistentMode b
      \<and> objectHash a = objectHash b \<and> symlinkTarget a = symlinkTarget b"
    unfolding stateIdentity_def by (rule identity_json_inject)
  then show "portable a = portable b"
    by (cases a; cases b) (auto simp: persistentMode_def)
next
  assume "portable a = portable b"
  then show "stateIdentity a = stateIdentity b"
    by (cases a; cases b) (auto simp: stateIdentity_def persistentMode_def)
qed

lemma sameState_iff:
  "sameState win32 a b \<longleftrightarrow> byteLength a = byteLength b \<and> kind a = kind b
     \<and> comparableMode win32 a = comparableMode win32 b
     \<and> objectHash a = objectHash b \<and> symlinkTarget a = symlinkTarget b"
  unfolding sameState_def disk_identity_def by (auto dest: identity_json_inject)

lemma comparable_persistent: "comparableMode False s = persistentMode s"
  by (cases s) (auto simp: comparableMode_def persistentMode_def split: option.split)

lemma identity_sameState: "stateIdentity a = stateIdentity b \<Longrightarrow> sameState win32 a b"
  by (cases a; cases b) (auto simp: stateIdentity_eq_iff sameState_iff comparableMode_def split: option.split)

section \<open>Parsing round trip\<close>

lemma parseOptionalMode_Inr: "parseOptionalMode v = Inr m \<Longrightarrow> wf_mode m"
  by (cases v rule: natural_value.cases)
    (auto simp: parseOptionalMode_def wf_mode_def split: if_splits option.splits)

lemma parseOptionalMode_opt_mode:
  "wf_mode m \<Longrightarrow> ''mode'' \<notin> fst ` set ps \<Longrightarrow> parseOptionalMode (own_prop (ps @ opt_mode m) ''mode'') = Inr m"
  by (cases m)
    (auto simp: opt_mode_def own_prop_def parseOptionalMode_def wf_mode_def map_of_append map_add_def
      map_of_eq_None_iff [THEN iffD2] split: option.splits)

lemma natural_value_bound: "natural_value v = Some n \<Longrightarrow> int n \<le> MAX_SAFE_INTEGER"
  by (cases v rule: natural_value.cases) (auto split: if_splits)

lemma parse_wf: "parseRecoveryState v = Inr s \<Longrightarrow> wf_state s"
  by (auto simp: parseRecoveryState_def obind_Inr_iff Let_def dest: parseOptionalMode_Inr natural_value_bound
      split: if_splits jsval.splits option.splits)

lemma parse_value: "wf_state s \<Longrightarrow> parseRecoveryState (state_value s) = Inr s"
  using parseOptionalMode_opt_mode [of _ "[(''kind'', JString ''directory'')]"]
    parseOptionalMode_opt_mode [of _ "[(''kind'', JString ''symlink''), (''symlinkTarget'', JString t)]" for t]
    parseOptionalMode_opt_mode [of _ "[(''byteLength'', JNumber (JInt (int n))), (''kind'', JString ''regular-file''),
      (''objectHash'', JString h)]" for n h]
  by (cases s) (auto simp: parseRecoveryState_def own_prop_def parseOptionalMode_def)

section \<open>Properties\<close>

text \<open>
  The persistent identity is exact: two states have the same identity string exactly when they are equal
  up to the mode of a symbolic link, although the strings hold unescaped user data only inside JSON strings;
  and off Windows the comparison with the disk is equality of identities.
\<close>

theorem state_identity_exact:
  "(stateIdentity a = stateIdentity b \<longleftrightarrow> portable a = portable b)
   \<and> (sameState False a b \<longleftrightarrow> stateIdentity a = stateIdentity b)"
  unfolding stateIdentity_eq_iff [symmetric] sameState_def disk_identity_def comparable_persistent
    stateIdentity_def by simp

text \<open>
  C33. Stored states round trip: whatever value \<open>parseRecoveryState\<close> accepts is a well-formed state, and
  parsing the stored form of a state gives the state back exactly when it is well-formed (safe integers, a
  full SHA-256 name); every other value is reported as malformed storage.
\<close>

theorem recovery_state_roundtrip:
  "(parseRecoveryState (state_value s) = Inr s \<longleftrightarrow> wf_state s)
   \<and> (\<forall>v. case parseRecoveryState v of Inr t \<Rightarrow> wf_state t | Inl e \<Rightarrow> \<exists>msg. e = StorageMalformed msg)"
proof -
  have "\<exists>msg. e = StorageMalformed msg" for e
    by (cases e) simp
  then show ?thesis
    using parse_wf parse_value by (auto split: sum.split)
qed

end
