(* ===== verification/Path_Merge.thy ===== *)
theory Path_Merge
  imports Text_Merge Recovery_State
begin

text \<open>
  The merge plan for a set of paths, the second half of
  \<^verbatim>\<open>src/packages/web/application-host/lib/harness/working-state/three-way-merge.ts\<close>.

  \<open>readContent\<close>, which fetches the bytes of a file state, and the line comparison \<open>diff\<close> are arguments.
  State maps are finite maps from paths; a path that is not in a map is \<open>missing\<close>.
\<close>

section \<open>Paths\<close>

definition isBinaryBuffer :: "nat list \<Rightarrow> bool" where
  "isBinaryBuffer buffer \<longleftrightarrow> 0 \<in> set buffer \<or> utf8_decode buffer = None"

fun statesEqual :: "bool \<Rightarrow> RecoveryState option \<Rightarrow> RecoveryState option \<Rightarrow> bool" where
  "statesEqual win32 None None = True"
| "statesEqual win32 (Some a) (Some b) = sameState win32 a b"
| "statesEqual win32 _ _ = False"

text \<open>\<open>None\<close> is \<open>{ clean: false }\<close>.\<close>

definition mergeMode :: "nat option \<Rightarrow> nat option \<Rightarrow> nat option \<Rightarrow> nat option option" where
  "mergeMode baseMode parentMode childMode =
     (if parentMode = childMode then Some parentMode
      else if parentMode = baseMode then Some childMode
      else if childMode = baseMode then Some parentMode
      else None)"

datatype MergeDecision = Identical | ApplyChild | KeepParent | MergeClean | Conflict

record ThreeWayPathPlan =
  plan_path :: string
  plan_decision :: MergeDecision
  plan_base :: RecoveryState
  plan_parent :: RecoveryState
  plan_child :: RecoveryState
  conflictReason :: "string option"
  conflictMarkers :: "utext option"
  mergedText :: "utext option"
  mergedMode :: "nat option"
  isText :: bool

definition path_plan ::
  "string \<Rightarrow> MergeDecision \<Rightarrow> RecoveryState \<Rightarrow> RecoveryState \<Rightarrow> RecoveryState \<Rightarrow> bool \<Rightarrow> ThreeWayPathPlan" where
  "path_plan path d b p c txt =
     \<lparr>plan_path = path, plan_decision = d, plan_base = b, plan_parent = p, plan_child = c,
      conflictReason = None, conflictMarkers = None, mergedText = None, mergedMode = None, isText = txt\<rparr>"

definition divergence_reason :: "RecoveryState \<Rightarrow> RecoveryState \<Rightarrow> string" where
  "divergence_reason p c =
     (if kind p = ''missing'' \<and> kind c \<noteq> ''missing'' then ''File deleted in parent but modified in child''
      else if kind p \<noteq> ''missing'' \<and> kind c = ''missing'' then ''File modified in parent but deleted in child''
      else if kind p = ''symlink'' \<and> kind c = ''symlink'' then ''Symbolic link target changed to different destinations''
      else if kind p \<noteq> kind c then ''Type conflict: parent is '' @ kind p @ '', child is '' @ kind c
      else ''Structural divergence'')"

definition decode_text :: "nat list \<Rightarrow> utext" where
  "decode_text buffer = (case utf8_decode buffer of None \<Rightarrow> [] | Some t \<Rightarrow> t)"

definition planThreeWayPath ::
  "bool \<Rightarrow> differ \<Rightarrow> (RecoveryState \<Rightarrow> nat list option) \<Rightarrow> string \<Rightarrow> RecoveryState \<Rightarrow> RecoveryState \<Rightarrow> RecoveryState
   \<Rightarrow> ThreeWayPathPlan" where
  "planThreeWayPath win32 diff readContent path b p c =
     (let conflict = (\<lambda>reason. (path_plan path Conflict b p c False)\<lparr>conflictReason := Some reason\<rparr>)
      in if statesEqual win32 (Some p) (Some c) then path_plan path Identical b p c (kind c = ''regular-file'')
         else if statesEqual win32 (Some p) (Some b) then path_plan path ApplyChild b p c (kind c = ''regular-file'')
         else if statesEqual win32 (Some c) (Some b) then path_plan path KeepParent b p c (kind p = ''regular-file'')
         else if kind p = ''regular-file'' \<and> kind c = ''regular-file'' then
           (case (readContent p, readContent c) of
              (Some parentBuf, Some childBuf) \<Rightarrow>
                let baseBuf = (if kind b = ''regular-file''
                               then (case readContent b of None \<Rightarrow> [] | Some bytes \<Rightarrow> bytes) else []);
                    isBinary = (isBinaryBuffer parentBuf \<or> isBinaryBuffer childBuf \<or> isBinaryBuffer baseBuf);
                    merged = mergeText3Way diff (decode_text baseBuf) (decode_text parentBuf) (decode_text childBuf)
                               None None
                in if isBinary then conflict ''Binary file modified on both sides''
                   else (case mergeMode (if kind b = ''regular-file'' then state_mode b else None)
                                        (state_mode p) (state_mode c) of
                           None \<Rightarrow> conflict ''File mode changed differently on both sides''
                         | Some md \<Rightarrow>
                             if clean merged
                             then (path_plan path MergeClean b p c True)
                                    \<lparr>mergedText := Some (merged_text merged), mergedMode := md\<rparr>
                             else (path_plan path Conflict b p c True)
                                    \<lparr>conflictMarkers := Some (merged_text merged),
                                     conflictReason := Some ''Text divergence with conflicting chunks''\<rparr>)
            | _ \<Rightarrow> conflict ''Unable to read file content for three-way merge'')
         else conflict (divergence_reason p c))"

section \<open>Plans\<close>

record ThreadDiffStats =
  files :: nat
  insertions :: nat
  deletions :: nat

record ThreeWayMergePlan =
  plan_clean :: bool
  paths :: "ThreeWayPathPlan list"
  appliedPaths :: "string list"
  conflictPaths :: "string list"
  diffStats :: ThreadDiffStats

definition state_or_missing :: "(string \<rightharpoonup> RecoveryState) \<Rightarrow> string \<Rightarrow> RecoveryState" where
  "state_or_missing m path = (case m path of None \<Rightarrow> Missing | Some s \<Rightarrow> s)"

record plan_progress =
  done_paths :: "ThreeWayPathPlan list"
  applied :: "string list"
  conflicting :: "string list"
  inserted :: nat

definition plan_step ::
  "bool \<Rightarrow> differ \<Rightarrow> (RecoveryState \<Rightarrow> nat list option) \<Rightarrow> (string \<rightharpoonup> RecoveryState) \<Rightarrow> (string \<rightharpoonup> RecoveryState)
   \<Rightarrow> (string \<rightharpoonup> RecoveryState) \<Rightarrow> string \<Rightarrow> plan_progress \<Rightarrow> plan_progress" where
  "plan_step win32 diff readContent base parent child path s =
     (let pathPlan = planThreeWayPath win32 diff readContent path (state_or_missing base path)
                       (state_or_missing parent path) (state_or_missing child path);
          s = s\<lparr>done_paths := done_paths s @ [pathPlan]\<rparr>
      in if plan_decision pathPlan = ApplyChild \<or> plan_decision pathPlan = MergeClean
         then s\<lparr>applied := applied s @ [path], inserted := inserted s + 1\<rparr>
         else if plan_decision pathPlan = Conflict then s\<lparr>conflicting := conflicting s @ [path]\<rparr>
         else s)"

definition buildThreeWayMergePlan ::
  "bool \<Rightarrow> differ \<Rightarrow> (RecoveryState \<Rightarrow> nat list option) \<Rightarrow> string list \<Rightarrow> (string \<rightharpoonup> RecoveryState)
   \<Rightarrow> (string \<rightharpoonup> RecoveryState) \<Rightarrow> (string \<rightharpoonup> RecoveryState) \<Rightarrow> ThreeWayMergePlan" where
  "buildThreeWayMergePlan win32 diff readContent allPaths base parent child =
     (let s = fold (plan_step win32 diff readContent base parent child) allPaths
                \<lparr>done_paths = [], applied = [], conflicting = [], inserted = 0\<rparr>
      in \<lparr>plan_clean = (length (conflicting s) = 0), paths = done_paths s, appliedPaths = applied s,
          conflictPaths = conflicting s,
          diffStats = \<lparr>files = length (applied s) + length (conflicting s), insertions = inserted s, deletions = 0\<rparr>\<rparr>)"

section \<open>Vocabulary of the properties\<close>

text \<open>The plan of one path and the comparison of two maps at a path.\<close>

definition plan_at ::
  "bool \<Rightarrow> differ \<Rightarrow> (RecoveryState \<Rightarrow> nat list option) \<Rightarrow> (string \<rightharpoonup> RecoveryState) \<Rightarrow> (string \<rightharpoonup> RecoveryState)
   \<Rightarrow> (string \<rightharpoonup> RecoveryState) \<Rightarrow> string \<Rightarrow> ThreeWayPathPlan" where
  "plan_at win32 diff readContent base parent child path =
     planThreeWayPath win32 diff readContent path (state_or_missing base path)
       (state_or_missing parent path) (state_or_missing child path)"

definition same_at :: "bool \<Rightarrow> (string \<rightharpoonup> RecoveryState) \<Rightarrow> (string \<rightharpoonup> RecoveryState) \<Rightarrow> string \<Rightarrow> bool" where
  "same_at win32 m1 m2 path \<longleftrightarrow> sameState win32 (state_or_missing m1 path) (state_or_missing m2 path)"

section \<open>Lemmas\<close>

lemma sameState_props: "sameState w a a" "sameState w a b \<Longrightarrow> sameState w b a"
  "sameState w a b \<Longrightarrow> sameState w b c \<Longrightarrow> sameState w a c"
  by (auto simp: sameState_def)

lemma plan_fields:
  "plan_path (planThreeWayPath w diff rd path b p c) = path" "plan_base (planThreeWayPath w diff rd path b p c) = b"
  "plan_parent (planThreeWayPath w diff rd path b p c) = p" "plan_child (planThreeWayPath w diff rd path b p c) = c"
  by (auto simp: planThreeWayPath_def path_plan_def Let_def split: option.split)

lemma plan_decision_cases:
  "plan_decision (planThreeWayPath w diff rd path b p c) = Identical \<longleftrightarrow> sameState w p c"
  "plan_decision (planThreeWayPath w diff rd path b p c) = ApplyChild \<longleftrightarrow> \<not> sameState w p c \<and> sameState w p b"
  "plan_decision (planThreeWayPath w diff rd path b p c) = KeepParent \<longleftrightarrow>
     \<not> sameState w p c \<and> \<not> sameState w p b \<and> sameState w c b"
  by (auto simp: planThreeWayPath_def path_plan_def Let_def split: option.split)

lemma merge_clean_plan:
  assumes "plan_decision (planThreeWayPath w diff rd path b p c) = MergeClean"
  obtains pb cb bb md where
    "\<not> sameState w p c" "\<not> sameState w p b" "\<not> sameState w c b"
    "rd p = Some pb" "rd c = Some cb" "bb = (if kind b = ''regular-file'' then (case rd b of None \<Rightarrow> [] | Some x \<Rightarrow> x) else [])"
    "\<not> isBinaryBuffer pb" "\<not> isBinaryBuffer cb" "\<not> isBinaryBuffer bb"
    "mergeMode (if kind b = ''regular-file'' then state_mode b else None) (state_mode p) (state_mode c) = Some md"
    "clean (mergeText3Way diff (decode_text bb) (decode_text pb) (decode_text cb) None None)"
    "mergedText (planThreeWayPath w diff rd path b p c) =
       Some (merged_text (mergeText3Way diff (decode_text bb) (decode_text pb) (decode_text cb) None None))"
    "mergedMode (planThreeWayPath w diff rd path b p c) = md"
  using assms
  by (auto simp: planThreeWayPath_def path_plan_def Let_def split: option.splits if_splits)

lemma decode_text_encode: "\<not> isBinaryBuffer bb \<Longrightarrow> list_all scalar (decode_text bb) \<and> utf8_encode (decode_text bb) = bb"
  using encode_decode [of bb] by (auto simp: isBinaryBuffer_def decode_text_def split: option.splits)

lemma plan_fold:
  "fold (plan_step w diff rd base parent child) ps s =
    \<lparr>done_paths = done_paths s @ map (plan_at w diff rd base parent child) ps,
     applied = applied s @ filter (\<lambda>p. plan_decision (plan_at w diff rd base parent child p) \<in> {ApplyChild, MergeClean}) ps,
     conflicting = conflicting s @ filter (\<lambda>p. plan_decision (plan_at w diff rd base parent child p) = Conflict) ps,
     inserted = inserted s
       + length (filter (\<lambda>p. plan_decision (plan_at w diff rd base parent child p) \<in> {ApplyChild, MergeClean}) ps)\<rparr>"
  by (induction ps arbitrary: s) (auto simp: plan_step_def Let_def plan_at_def)

lemma agreed_result: "agreed r \<Longrightarrow> in_result pl cl e r = in_result [] [] [] r"
  by (cases r) auto

section \<open>Properties\<close>

text \<open>
  The plan classifies every path: it lists the paths in the given order; a path is left alone when the
  parent already equals the child, takes the child's state when only the child changed, keeps the parent's when
  only the parent changed, and is merged or in conflict exactly when both differ from the base and from each
  other; the applied and the conflicting paths are the corresponding subsequences; and the plan is clean exactly
  when no path is in conflict.
\<close>

theorem merge_plan_classifies:
  "(let plan = buildThreeWayMergePlan win32 diff readContent allPaths base parent child;
        D = (\<lambda>p. plan_decision (plan_at win32 diff readContent base parent child p));
        same = same_at win32
    in map plan_path (paths plan) = allPaths \<and> map plan_decision (paths plan) = map D allPaths
      \<and> (D p = Identical \<longleftrightarrow> same parent child p)
      \<and> (D p = ApplyChild \<longleftrightarrow> \<not> same parent child p \<and> same parent base p)
      \<and> (D p = KeepParent \<longleftrightarrow> \<not> same parent child p \<and> \<not> same parent base p \<and> same child base p)
      \<and> (D p \<in> {MergeClean, Conflict} \<longleftrightarrow> \<not> same parent child p \<and> \<not> same parent base p \<and> \<not> same child base p)
      \<and> appliedPaths plan = filter (\<lambda>p. D p \<in> {ApplyChild, MergeClean}) allPaths
      \<and> conflictPaths plan = filter (\<lambda>p. D p = Conflict) allPaths
      \<and> (plan_clean plan \<longleftrightarrow> Conflict \<notin> D ` set allPaths))"
proof -
  define plan where "plan = buildThreeWayMergePlan win32 diff readContent allPaths base parent child"
  define D where "D = (\<lambda>p. plan_decision (plan_at win32 diff readContent base parent child p))"
  define same where "same = same_at win32"
  have plan: "paths plan = map (plan_at win32 diff readContent base parent child) allPaths"
      "appliedPaths plan = filter (\<lambda>p. D p \<in> {ApplyChild, MergeClean}) allPaths"
      "conflictPaths plan = filter (\<lambda>p. D p = Conflict) allPaths" "plan_clean plan \<longleftrightarrow> conflictPaths plan = []"
    by (simp_all add: plan_def buildThreeWayMergePlan_def plan_fold D_def Let_def)
  have d: "D p = Identical \<longleftrightarrow> same parent child p" "D p = ApplyChild \<longleftrightarrow> \<not> same parent child p \<and> same parent base p"
      "D p = KeepParent \<longleftrightarrow> \<not> same parent child p \<and> \<not> same parent base p \<and> same child base p"
    by (simp_all add: D_def same_def same_at_def plan_at_def plan_decision_cases)
  have "D p \<in> {MergeClean, Conflict} \<longleftrightarrow> D p \<noteq> Identical \<and> D p \<noteq> ApplyChild \<and> D p \<noteq> KeepParent"
    by (cases "D p") auto
  moreover have "map plan_path (paths plan) = allPaths" "map plan_decision (paths plan) = map D allPaths"
    by (simp_all add: plan(1) plan_at_def plan_fields D_def comp_def)
  moreover have "plan_clean plan \<longleftrightarrow> Conflict \<notin> D ` set allPaths"
    using plan(3,4) by (simp add: filter_empty_conv image_iff) metis
  ultimately show ?thesis
    unfolding plan_def [symmetric] D_def [symmetric] same_def [symmetric] Let_def using plan(2,3) d by blast
qed



end
