(* ===== verification/Path_Lock.thy ===== *)
theory Path_Lock
  imports Varin_Prelude
begin

text \<open>
  The write locks of the harness, \<^verbatim>\<open>src/packages/web/application-host/lib/harness/path-lock.ts\<close>.

  The maps \<open>queues\<close> and \<open>leases\<close> are association lists in insertion order. A promise that is settled later is a
  signal an operation returns: the waiter with this lease id is resolved, or rejected with a message. The random
  part of a lease id is an argument of \<open>acquire\<close>; a step of the service draws one that was not issued before.
  A waiter's timer is cleared by every operation that removes the waiter, so it fires only for a waiter that is
  still in its queue.
\<close>

section \<open>State\<close>

record LockHolder =
  leaseId :: string
  ownerId :: string

record LockQueue =
  holder :: "LockHolder option"
  waiters :: "LockHolder list"

record LeaseRecord =
  lease_key :: string
  lease_owner :: string

record PathLocks =
  queues :: "(string \<times> LockQueue) list"
  leases :: "(string \<times> LeaseRecord) list"
  disposed :: bool

record PathLockResource =
  authorityId :: string
  workspaceId :: string
  canonicalResourceId :: string

datatype lock_signal = Resolved string | Rejected string string

datatype acquire_result = LockDisposed | Acquired string | Waiting string

definition createPathLockService :: PathLocks where
  "createPathLockService = \<lparr>queues = [], leases = [], disposed = False\<rparr>"

definition resourceKey :: "PathLockResource \<Rightarrow> string" where
  "resourceKey r = authorityId r @ [CHR 0x00] @ workspaceId r @ [CHR 0x00] @ canonicalResourceId r"

section \<open>Operations\<close>

text \<open>\<open>put_queue\<close> stores the mutated queue object back; \<open>cleanupQueue\<close> deletes an empty one.\<close>

definition put_queue :: "string \<Rightarrow> LockQueue \<Rightarrow> PathLocks \<Rightarrow> PathLocks" where
  "put_queue key q s = s\<lparr>queues := AList.update key q (queues s)\<rparr>"

definition cleanupQueue :: "string \<Rightarrow> LockQueue \<Rightarrow> PathLocks \<Rightarrow> PathLocks" where
  "cleanupQueue key q s =
     (if holder q = None \<and> length (waiters q) = 0 then s\<lparr>queues := AList.delete key (queues s)\<rparr> else s)"

definition grantNext :: "string \<Rightarrow> LockQueue \<Rightarrow> PathLocks \<Rightarrow> PathLocks \<times> lock_signal list" where
  "grantNext key q s =
     (case waiters q of
        [] \<Rightarrow> (let q = q\<lparr>holder := None\<rparr> in (cleanupQueue key q (put_queue key q s), []))
      | nxt # rest \<Rightarrow>
          (let q = q\<lparr>holder := Some nxt, waiters := rest\<rparr>;
               s = put_queue key q s
           in (s\<lparr>leases := AList.update (leaseId nxt) \<lparr>lease_key = key, lease_owner = ownerId nxt\<rparr> (leases s)\<rparr>,
               [Resolved (leaseId nxt)])))"

definition acquire :: "string \<Rightarrow> string \<Rightarrow> string \<Rightarrow> PathLocks \<Rightarrow> PathLocks \<times> acquire_result" where
  "acquire owner key lease s =
     (if disposed s then (s, LockDisposed)
      else
        let q = (case map_of (queues s) key of None \<Rightarrow> \<lparr>holder = None, waiters = []\<rparr> | Some q \<Rightarrow> q);
            me = \<lparr>leaseId = lease, ownerId = owner\<rparr>
        in if holder q = None
           then ((put_queue key (q\<lparr>holder := Some me\<rparr>) s)
                   \<lparr>leases := AList.update lease \<lparr>lease_key = key, lease_owner = owner\<rparr> (leases s)\<rparr>,
                 Acquired lease)
           else (put_queue key (q\<lparr>waiters := waiters q @ [me]\<rparr>) s, Waiting lease))"

text \<open>The timer of a waiter: \<open>indexOf\<close> and \<open>splice\<close> take out the first waiter with this identity.\<close>

definition timeout :: "string \<Rightarrow> string \<Rightarrow> string \<Rightarrow> PathLocks \<Rightarrow> PathLocks \<times> lock_signal list" where
  "timeout key lease msg s =
     (case map_of (queues s) key of
        None \<Rightarrow> (s, [])
      | Some q \<Rightarrow>
          (let q = q\<lparr>waiters := filter (\<lambda>w. leaseId w \<noteq> lease) (waiters q)\<rparr>
           in (cleanupQueue key q (put_queue key q s), [Rejected lease msg])))"

definition release :: "string \<Rightarrow> string \<Rightarrow> PathLocks \<Rightarrow> PathLocks \<times> bool \<times> lock_signal list" where
  "release owner lease s =
     (case map_of (leases s) lease of
        None \<Rightarrow> (s, False, [])
      | Some r \<Rightarrow>
          if lease_owner r \<noteq> owner then (s, False, [])
          else (case map_of (queues s) (lease_key r) of
                  None \<Rightarrow> (s, False, [])
                | Some q \<Rightarrow>
                    if map_option leaseId (holder q) \<noteq> Some lease then (s, False, [])
                    else (let s = s\<lparr>leases := AList.delete lease (leases s)\<rparr>;
                              (s, signals) = grantNext (lease_key r) (q\<lparr>holder := None\<rparr>) s
                          in (s, True, signals))))"

text \<open>One round of the loop of \<open>dropSession\<close>; the waiters are visited from the last to the first.\<close>

definition drop_key :: "string \<Rightarrow> string \<Rightarrow> PathLocks \<Rightarrow> PathLocks \<times> lock_signal list" where
  "drop_key owner key s =
     (case map_of (queues s) key of
        None \<Rightarrow> (s, [])
      | Some q \<Rightarrow>
          (let dropped = rev (filter (\<lambda>w. ownerId w = owner) (waiters q));
               q = q\<lparr>waiters := filter (\<lambda>w. ownerId w \<noteq> owner) (waiters q)\<rparr>;
               s = put_queue key q s;
               rejected = map (\<lambda>w. Rejected (leaseId w) ''Session dropped'') dropped
           in case holder q of
                Some h \<Rightarrow>
                  if ownerId h = owner
                  then (let s = s\<lparr>leases := AList.delete (leaseId h) (leases s)\<rparr>;
                            (s, signals) = grantNext key (q\<lparr>holder := None\<rparr>) s
                        in (s, rejected @ signals))
                  else (cleanupQueue key q s, rejected)
              | None \<Rightarrow> (cleanupQueue key q s, rejected)))"

fun drop_keys :: "string \<Rightarrow> string list \<Rightarrow> PathLocks \<Rightarrow> PathLocks \<times> lock_signal list" where
  "drop_keys owner [] s = (s, [])"
| "drop_keys owner (key # keys) s =
     (let (s, a) = drop_key owner key s; (s, b) = drop_keys owner keys s in (s, a @ b))"

definition dropSession :: "string \<Rightarrow> PathLocks \<Rightarrow> PathLocks \<times> lock_signal list" where
  "dropSession owner s = drop_keys owner (map fst (queues s)) s"

definition dispose :: "PathLocks \<Rightarrow> PathLocks \<times> lock_signal list" where
  "dispose s =
     (if disposed s then (s, [])
      else (\<lparr>queues = [], leases = [], disposed = True\<rparr>,
            concat (map (\<lambda>(key, q). map (\<lambda>w. Rejected (leaseId w) ''Path lock service is disposed'') (waiters q))
                      (queues s))))"

section \<open>Runs\<close>

text \<open>The first component of a run's state is the set of lease ids issued so far.\<close>

datatype lock_event =
    Acquire string string string
  | Timeout string string
  | Release string string
  | DropSession string
  | Dispose

definition queue_ids :: "LockQueue \<Rightarrow> string list" where
  "queue_ids q = (case holder q of None \<Rightarrow> [] | Some h \<Rightarrow> [leaseId h]) @ map leaseId (waiters q)"

inductive lock_step :: "string set \<times> PathLocks \<Rightarrow> lock_event \<Rightarrow> string set \<times> PathLocks \<Rightarrow> bool" where
  step_acquire: "lease \<notin> issued \<Longrightarrow>
    lock_step (issued, s) (Acquire owner key lease) (insert lease issued, fst (acquire owner key lease s))"
| step_timeout: "map_of (queues s) key = Some q \<Longrightarrow> lease \<in> set (map leaseId (waiters q)) \<Longrightarrow>
    lock_step (issued, s) (Timeout key lease) (issued, fst (timeout key lease msg s))"
| step_release: "lock_step (issued, s) (Release owner lease) (issued, fst (release owner lease s))"
| step_drop: "lock_step (issued, s) (DropSession owner) (issued, fst (dropSession owner s))"
| step_dispose: "lock_step (issued, s) Dispose (issued, fst (dispose s))"

text \<open>
  The invariant: every queue has a holder, lease ids are issued and unique in and across queues, and the leases
  are exactly the holders.
\<close>

definition queue_ok :: "string set \<Rightarrow> LockQueue \<Rightarrow> bool" where
  "queue_ok issued q \<longleftrightarrow> holder q \<noteq> None \<and> distinct (queue_ids q) \<and> set (queue_ids q) \<subseteq> issued"

definition holds :: "(string \<rightharpoonup> LockQueue) \<Rightarrow> string \<Rightarrow> LeaseRecord \<Rightarrow> bool" where
  "holds Q lease r \<longleftrightarrow>
     (\<exists>q. Q (lease_key r) = Some q \<and> holder q = Some \<lparr>leaseId = lease, ownerId = lease_owner r\<rparr>)"

definition maps_inv :: "string set \<Rightarrow> (string \<rightharpoonup> LockQueue) \<Rightarrow> (string \<rightharpoonup> LeaseRecord) \<Rightarrow> bool" where
  "maps_inv issued Q L \<longleftrightarrow>
     (\<forall>key q. Q key = Some q \<longrightarrow> queue_ok issued q)
     \<and> (\<forall>k1 k2 q1 q2. Q k1 = Some q1 \<longrightarrow> Q k2 = Some q2 \<longrightarrow> k1 \<noteq> k2 \<longrightarrow>
          set (queue_ids q1) \<inter> set (queue_ids q2) = {})
     \<and> (\<forall>lease r. L lease = Some r \<longleftrightarrow> holds Q lease r)"

fun lock_inv :: "string set \<times> PathLocks \<Rightarrow> bool" where
  "lock_inv (issued, s) = maps_inv issued (map_of (queues s)) (map_of (leases s))"

section \<open>The invariant is kept\<close>

lemma LeaseRecord_eq: "\<lparr>lease_key = k, lease_owner = u\<rparr> = r \<longleftrightarrow> lease_key r = k \<and> lease_owner r = u"
  by (cases r) auto

lemma maps_inv_ok: "maps_inv I Q L \<Longrightarrow> Q key = Some q \<Longrightarrow> queue_ok I q"
  by (auto simp: maps_inv_def)

lemma maps_inv_lease: "maps_inv I Q L \<Longrightarrow> L lease = Some r \<longleftrightarrow> holds Q lease r"
  by (auto simp: maps_inv_def)

lemma holds_ids: "holds Q lease r \<Longrightarrow> \<exists>q. Q (lease_key r) = Some q \<and> lease \<in> set (queue_ids q)"
  by (auto simp: holds_def queue_ids_def)

lemma lease_keys_unique:
  assumes "maps_inv I Q L" "Q k1 = Some q1" "Q k2 = Some q2" "x \<in> set (queue_ids q1)" "x \<in> set (queue_ids q2)"
  shows "k1 = k2"
  using assms unfolding maps_inv_def by blast

text \<open>
  Every operation replaces the queue of one key: the new queue is absent or has a holder and ids that were in
  the old one or are fresh, and the leases of the key change to the new holder.
\<close>

lemma maps_inv_replace:
  assumes inv: "maps_inv I Q L" and sub: "I \<subseteq> J"
    and new: "\<And>q. q' = Some q \<Longrightarrow> queue_ok J q"
    and ids: "\<And>q x. q' = Some q \<Longrightarrow> x \<in> set (queue_ids q) \<Longrightarrow> x \<notin> I \<or> (\<exists>q0. Q key = Some q0 \<and> x \<in> set (queue_ids q0))"
    and lease: "\<And>l r. L' l = Some r \<longleftrightarrow>
        (if lease_key r = key then \<exists>q. q' = Some q \<and> holder q = Some \<lparr>leaseId = l, ownerId = lease_owner r\<rparr>
         else L l = Some r)"
  shows "maps_inv J (Q(key := q')) L'"
proof -
  have other: "set (queue_ids q) \<inter> set (queue_ids q2) = {}" if "q' = Some q" "Q k2 = Some q2" "k2 \<noteq> key" for q k2 q2
  proof -
    have "set (queue_ids q2) \<subseteq> I" using maps_inv_ok [OF inv that(2)] by (simp add: queue_ok_def)
    then show ?thesis using ids [OF that(1)] lease_keys_unique [OF inv _ that(2)] that(3) by blast
  qed
  have "queue_ok J q" if "(Q(key := q')) k = Some q" for k q
    using that new maps_inv_ok [OF inv, of k q] sub by (auto simp: queue_ok_def split: if_splits)
  moreover have "set (queue_ids q1) \<inter> set (queue_ids q2) = {}"
    if "(Q(key := q')) k1 = Some q1" "(Q(key := q')) k2 = Some q2" "k1 \<noteq> k2" for k1 k2 q1 q2
  proof (cases "k1 = key \<or> k2 = key")
    case True
    then show ?thesis using that other by (auto split: if_splits)
  next
    case False
    then show ?thesis using that inv unfolding maps_inv_def by auto
  qed
  moreover have "L' l = Some r \<longleftrightarrow> holds (Q(key := q')) l r" for l r
    using lease [of l r] maps_inv_lease [OF inv, of l r] by (auto simp: holds_def)
  ultimately show ?thesis
    unfolding maps_inv_def by blast
qed

lemma map_of_put_queue [simp]: "map_of (queues (put_queue key q s)) = (map_of (queues s))(key \<mapsto> q)"
  "leases (put_queue key q s) = leases s" "disposed (put_queue key q s) = disposed s"
  by (simp_all add: put_queue_def)

lemma leases_cleanup [simp]: "leases (cleanupQueue key q s) = leases s" "disposed (cleanupQueue key q s) = disposed s"
  by (simp_all add: cleanupQueue_def)

text \<open>What \<open>grantNext\<close> does to the maps.\<close>

definition granted_queue :: "LockHolder list \<Rightarrow> LockQueue option" where
  "granted_queue ws = (case ws of [] \<Rightarrow> None | w # rest \<Rightarrow> Some \<lparr>holder = Some w, waiters = rest\<rparr>)"

lemma grantNext_maps:
  assumes "grantNext key q s = (s', signals)"
  shows "map_of (queues s') = (map_of (queues s))(key := granted_queue (waiters q))"
    and "map_of (leases s') = (case waiters q of [] \<Rightarrow> map_of (leases s)
      | w # rest \<Rightarrow> (map_of (leases s))(leaseId w \<mapsto> \<lparr>lease_key = key, lease_owner = ownerId w\<rparr>))"
  using assms
  by (cases q; auto simp: grantNext_def granted_queue_def Let_def cleanupQueue_def split: list.splits)+

lemma maps_inv_acquire:
  assumes inv: "maps_inv I (map_of (queues s)) (map_of (leases s))" and fresh: "lease \<notin> I"
  shows "maps_inv (insert lease I) (map_of (queues (fst (acquire owner key lease s)))) (map_of (leases (fst (acquire owner key lease s))))"
proof (cases "disposed s")
  case True
  have "maps_inv (insert lease I) ((map_of (queues s))(key := map_of (queues s) key)) (map_of (leases s))"
    using maps_inv_ok [OF inv] maps_inv_lease [OF inv]
    by (intro maps_inv_replace [OF inv]) (auto simp: queue_ok_def holds_def)
  then show ?thesis using True by (simp add: acquire_def)
next
  case False
  let ?me = "\<lparr>leaseId = lease, ownerId = owner\<rparr>"
  have none: "\<not> holds (map_of (queues s)) lease r" for r
    using holds_ids maps_inv_ok [OF inv] fresh by (fastforce simp: queue_ok_def)
  show ?thesis
  proof (cases "map_of (queues s) key")
    case None
    have "maps_inv (insert lease I) ((map_of (queues s))(key := Some \<lparr>holder = Some ?me, waiters = []\<rparr>))
        ((map_of (leases s))(lease \<mapsto> \<lparr>lease_key = key, lease_owner = owner\<rparr>))"
      using None fresh none maps_inv_lease [OF inv]
      by (intro maps_inv_replace [OF inv]) (auto simp: queue_ok_def queue_ids_def holds_def LeaseRecord_eq)
    then show ?thesis using False None by (simp add: acquire_def Let_def)
  next
    case (Some q)
    then have ok: "queue_ok I q" using maps_inv_ok [OF inv] by blast
    have "maps_inv (insert lease I) ((map_of (queues s))(key := Some (q\<lparr>waiters := waiters q @ [?me]\<rparr>))) (map_of (leases s))"
      using Some ok fresh maps_inv_lease [OF inv]
      by (intro maps_inv_replace [OF inv]) (auto simp: queue_ok_def queue_ids_def holds_def image_subset_iff split: option.splits)
    then show ?thesis using False Some ok by (auto simp: acquire_def Let_def queue_ok_def)
  qed
qed

lemma maps_inv_filter:
  assumes inv: "maps_inv I Q L" and q: "Q key = Some q"
  shows "maps_inv I (Q(key := Some (q\<lparr>waiters := filter P (waiters q)\<rparr>))) L"
  using maps_inv_ok [OF inv q] q maps_inv_lease [OF inv]
  by (intro maps_inv_replace [OF inv])
    (auto simp: queue_ok_def queue_ids_def holds_def distinct_map_filter split: option.splits)

lemma maps_inv_grant:
  assumes inv: "maps_inv I Q L" and q: "Q key = Some q" "holder q = Some h"
  shows "maps_inv I (Q(key := granted_queue (waiters q)))
    (case waiters q of [] \<Rightarrow> L(leaseId h := None)
     | w # rest \<Rightarrow> (L(leaseId h := None))(leaseId w \<mapsto> \<lparr>lease_key = key, lease_owner = ownerId w\<rparr>))"
proof -
  have ok: "distinct (queue_ids q)" "set (queue_ids q) \<subseteq> I"
    using maps_inv_ok [OF inv q(1)] by (auto simp: queue_ok_def)
  have mine: "lease_key r = key" if "L l = Some r" "l \<in> set (queue_ids q)" for l r
    using that holds_ids maps_inv_lease [OF inv] lease_keys_unique [OF inv q(1)] by metis
  have held: "h = \<lparr>leaseId = l, ownerId = lease_owner r\<rparr>" if "L l = Some r" "lease_key r = key" for l r
    using that maps_inv_lease [OF inv, of l r] q by (auto simp: holds_def)
  show ?thesis
  proof (cases "waiters q")
    case Nil
    have "(L(leaseId h := None)) l = Some r \<longleftrightarrow> lease_key r \<noteq> key \<and> L l = Some r" for l r
      using held [of l r] mine [of l r] q by (auto simp: queue_ids_def)
    then show ?thesis
      using Nil by (intro maps_inv_replace [OF inv]) (auto simp: granted_queue_def)
  next
    case (Cons w ws)
    have "leaseId w \<noteq> leaseId h" using ok(1) Cons q by (auto simp: queue_ids_def)
    then have "L (leaseId w) = None"
    proof (cases "L (leaseId w)")
      case (Some r)
      with mine [OF Some] held [OF Some] Cons \<open>leaseId w \<noteq> leaseId h\<close> show ?thesis
        by (auto simp: queue_ids_def)
    qed simp
    then have "((L(leaseId h := None))(leaseId w \<mapsto> \<lparr>lease_key = key, lease_owner = ownerId w\<rparr>)) l = Some r \<longleftrightarrow>
        (if lease_key r = key then w = \<lparr>leaseId = l, ownerId = lease_owner r\<rparr> else L l = Some r)" for l r
    proof (cases "l = leaseId w")
      case True
      with \<open>L (leaseId w) = None\<close> show ?thesis by (cases w) (auto simp: LeaseRecord_eq)
    next
      case False
      then have "w \<noteq> \<lparr>leaseId = l, ownerId = lease_owner r\<rparr>" by auto
      moreover have "L l = Some r \<and> l \<noteq> leaseId h \<longleftrightarrow> lease_key r \<noteq> key \<and> L l = Some r"
        using held [of l r] mine [of l r] q by (auto simp: queue_ids_def)
      ultimately show ?thesis using False by auto
    qed
    moreover have "queue_ok I \<lparr>holder = Some w, waiters = ws\<rparr>"
        "set (queue_ids \<lparr>holder = Some w, waiters = ws\<rparr>) \<subseteq> set (queue_ids q)"
      using Cons q ok by (auto simp: queue_ids_def queue_ok_def)
    ultimately show ?thesis
      using Cons q by (intro maps_inv_replace [OF inv]) (auto simp: granted_queue_def)
  qed
qed

lemma maps_inv_timeout:
  assumes inv: "maps_inv I (map_of (queues s)) (map_of (leases s))"
  shows "maps_inv I (map_of (queues (fst (timeout key lease msg s)))) (map_of (leases (fst (timeout key lease msg s))))"
proof (cases "map_of (queues s) key")
  case None
  then show ?thesis using inv by (simp add: timeout_def)
next
  case (Some q)
  then show ?thesis
    using maps_inv_filter [OF inv Some] maps_inv_ok [OF inv Some]
    by (auto simp: timeout_def Let_def cleanupQueue_def queue_ok_def)
qed

lemma release_spec:
  assumes inv: "maps_inv I (map_of (queues s)) (map_of (leases s))"
  shows "(\<exists>key q s' signals. map_of (queues s) key = Some q \<and> holder q = Some \<lparr>leaseId = lease, ownerId = owner\<rparr>
        \<and> grantNext key (q\<lparr>holder := None\<rparr>) (s\<lparr>leases := AList.delete lease (leases s)\<rparr>) = (s', signals)
        \<and> release owner lease s = (s', True, signals))
    \<or> (\<nexists>key. holds (map_of (queues s)) lease \<lparr>lease_key = key, lease_owner = owner\<rparr>) \<and> release owner lease s = (s, False, [])"
proof (cases "map_of (leases s) lease")
  case None
  then have "\<nexists>key. holds (map_of (queues s)) lease \<lparr>lease_key = key, lease_owner = owner\<rparr>"
    using maps_inv_lease [OF inv] by (metis option.distinct(1))
  with None show ?thesis by (simp add: release_def)
next
  case (Some r)
  then have h: "holds (map_of (queues s)) lease r" using maps_inv_lease [OF inv] by blast
  show ?thesis
  proof (cases "lease_owner r = owner")
    case True
    with h obtain q where q: "map_of (queues s) (lease_key r) = Some q" "holder q = Some \<lparr>leaseId = lease, ownerId = owner\<rparr>"
      by (auto simp: holds_def)
    obtain s' signals where g: "grantNext (lease_key r) (q\<lparr>holder := None\<rparr>) (s\<lparr>leases := AList.delete lease (leases s)\<rparr>) = (s', signals)"
      by force
    have "release owner lease s = (s', True, signals)"
      using Some True q g by (simp add: release_def Let_def)
    with q g show ?thesis by blast
  next
    case False
    then have "\<nexists>key. holds (map_of (queues s)) lease \<lparr>lease_key = key, lease_owner = owner\<rparr>"
      using Some maps_inv_lease [OF inv] by (metis LeaseRecord.select_convs(2) option.inject)
    with False Some show ?thesis by (simp add: release_def)
  qed
qed

lemma grant_after_delete:
  assumes inv: "maps_inv I (map_of (queues s)) (map_of (leases s))"
    and q: "map_of (queues s) key = Some q" "holder q = Some h"
    and g: "grantNext key (q\<lparr>holder := None\<rparr>) (s\<lparr>leases := AList.delete (leaseId h) (leases s)\<rparr>) = (s', signals)"
  shows "maps_inv I (map_of (queues s')) (map_of (leases s'))"
  using maps_inv_grant [OF inv q] grantNext_maps [OF g] by (auto split: list.splits)

lemma maps_inv_release:
  assumes inv: "maps_inv I (map_of (queues s)) (map_of (leases s))"
  shows "maps_inv I (map_of (queues (fst (release owner lease s)))) (map_of (leases (fst (release owner lease s))))"
  using release_spec [OF inv, of lease owner] inv grant_after_delete [OF inv] by auto

lemma maps_inv_drop_key:
  assumes inv: "maps_inv I (map_of (queues s)) (map_of (leases s))"
  shows "maps_inv I (map_of (queues (fst (drop_key owner key s)))) (map_of (leases (fst (drop_key owner key s))))"
proof (cases "map_of (queues s) key")
  case None
  then show ?thesis using inv by (simp add: drop_key_def)
next
  case (Some q)
  let ?q = "q\<lparr>waiters := filter (\<lambda>w. ownerId w \<noteq> owner) (waiters q)\<rparr>"
  let ?s = "put_queue key ?q s"
  have inv': "maps_inv I (map_of (queues ?s)) (map_of (leases ?s))"
    using maps_inv_filter [OF inv Some] by simp
  obtain h where h: "holder q = Some h"
    using maps_inv_ok [OF inv Some] by (auto simp: queue_ok_def)
  obtain s' signals where g: "grantNext key (?q\<lparr>holder := None\<rparr>) (?s\<lparr>leases := AList.delete (leaseId h) (leases ?s)\<rparr>) = (s', signals)"
    by force
  have "maps_inv I (map_of (queues s')) (map_of (leases s'))"
    using grant_after_delete [OF inv' _ _ g] h by simp
  then show ?thesis
    using Some h g inv' by (simp add: drop_key_def Let_def cleanupQueue_def)
qed

lemma drop_keys_Cons:
  "fst (drop_keys owner (key # keys) s) = fst (drop_keys owner keys (fst (drop_key owner key s)))"
  by (simp add: Let_def split_beta)

lemma maps_inv_drop_keys:
  "maps_inv I (map_of (queues s)) (map_of (leases s)) \<Longrightarrow>
   maps_inv I (map_of (queues (fst (drop_keys owner keys s)))) (map_of (leases (fst (drop_keys owner keys s))))"
proof (induction keys arbitrary: s)
  case Nil
  then show ?case by simp
next
  case (Cons key keys)
  then show ?case
    using maps_inv_drop_key [OF Cons.prems, of owner key] Cons.IH [of "fst (drop_key owner key s)"]
    by (simp only: drop_keys_Cons)
qed

lemma maps_inv_dispose:
  "maps_inv I (map_of (queues s)) (map_of (leases s)) \<Longrightarrow>
   maps_inv I (map_of (queues (fst (dispose s)))) (map_of (leases (fst (dispose s))))"
  by (auto simp: dispose_def maps_inv_def holds_def)

interpretation path_locks: invariant_system "({}, createPathLockService)" lock_step lock_inv
proof
  show "lock_inv ({}, createPathLockService)"
    by (auto simp: createPathLockService_def maps_inv_def holds_def)
  show "lock_inv t" if "lock_inv s" "lock_step s e t" for s e t
    using that(2,1)
    by cases (auto simp: maps_inv_acquire maps_inv_timeout maps_inv_release maps_inv_drop_keys dropSession_def
        maps_inv_dispose)
qed

abbreviation reachable_locks :: "string set \<times> PathLocks \<Rightarrow> bool" where
  "reachable_locks \<equiv> reachable ({}, createPathLockService) lock_step"

section \<open>Dropping a session\<close>

definition queue_owners :: "LockQueue \<Rightarrow> string set" where
  "queue_owners q = ownerId ` (set_option (holder q) \<union> set (waiters q))"

text \<open>What dropping an owner does to one queue: its waiters leave, and if it holds the lock the first of the others gets it.\<close>

definition without_owner :: "string \<Rightarrow> LockQueue option \<Rightarrow> LockQueue option" where
  "without_owner owner oq =
     (case oq of
        None \<Rightarrow> None
      | Some q \<Rightarrow>
          let others = filter (\<lambda>w. ownerId w \<noteq> owner) (waiters q)
          in case holder q of
               Some h \<Rightarrow> if ownerId h = owner then granted_queue others else Some (q\<lparr>waiters := others\<rparr>)
             | None \<Rightarrow> if others = [] then None else Some (q\<lparr>waiters := others\<rparr>))"

lemma granted_queue_owners: "granted_queue ws = Some q \<Longrightarrow> queue_owners q = ownerId ` set ws"
  by (auto simp: granted_queue_def queue_owners_def split: list.splits)

lemma without_owner_free: "without_owner owner oq = Some q \<Longrightarrow> owner \<notin> queue_owners q"
  by (auto simp: without_owner_def Let_def split: option.splits if_splits dest!: granted_queue_owners)
    (auto simp: queue_owners_def)

lemma without_owner_idem: "without_owner owner (without_owner owner oq) = without_owner owner oq"
proof (cases "without_owner owner oq")
  case None
  then show ?thesis by (simp add: without_owner_def)
next
  case (Some q)
  then have free: "owner \<notin> queue_owners q" by (rule without_owner_free)
  then have "filter (\<lambda>w. ownerId w \<noteq> owner) (waiters q) = waiters q"
    by (intro filter_True) (auto simp: queue_owners_def)
  moreover have "holder q \<noteq> None \<or> waiters q \<noteq> []"
    using Some by (auto simp: without_owner_def granted_queue_def Let_def split: option.splits if_splits list.splits)
  ultimately show ?thesis
    using Some free by (auto simp: without_owner_def queue_owners_def Let_def split: option.splits)
qed

lemma drop_key_queues:
  "map_of (queues (fst (drop_key owner key s))) = (map_of (queues s))(key := without_owner owner (map_of (queues s) key))"
proof (cases "map_of (queues s) key")
  case None
  then show ?thesis by (auto simp: drop_key_def without_owner_def)
next
  case (Some q)
  let ?q = "q\<lparr>waiters := filter (\<lambda>w. ownerId w \<noteq> owner) (waiters q)\<rparr>"
  have g: "map_of (queues (fst (grantNext key (?q\<lparr>holder := None\<rparr>) t))) =
      (map_of (queues t))(key := granted_queue (filter (\<lambda>w. ownerId w \<noteq> owner) (waiters q)))" for t
    using grantNext_maps(1) [OF surjective_pairing, of key "?q\<lparr>holder := None\<rparr>" t] by simp
  show ?thesis
    using Some
    by (cases "holder q")
      (auto simp: drop_key_def without_owner_def Let_def g cleanupQueue_def split_beta)
qed

lemma drop_keys_queues:
  "map_of (queues (fst (drop_keys owner keys s))) k =
     (if k \<in> set keys then without_owner owner (map_of (queues s) k) else map_of (queues s) k)"
proof (induction keys arbitrary: s)
  case Nil
  then show ?case by simp
next
  case (Cons key keys)
  then show ?case
    unfolding drop_keys_Cons by (simp add: drop_key_queues without_owner_idem)
qed

lemma dropSession_queues: "map_of (queues (fst (dropSession owner s))) k = without_owner owner (map_of (queues s) k)"
proof (cases "k \<in> set (map fst (queues s))")
  case True
  then show ?thesis unfolding dropSession_def drop_keys_queues by simp
next
  case False
  then have "map_of (queues s) k = None" by (simp add: map_of_eq_None_iff)
  with False show ?thesis unfolding dropSession_def drop_keys_queues by (simp add: without_owner_def)
qed

section \<open>Properties\<close>

text \<open>
  C21. Mutual exclusion: in every reachable state of the lock service, two live leases for the same resource are
  the same lease, and a live lease is the current holder of its resource's queue.
\<close>

theorem path_lock_mutual_exclusion:
  assumes "reachable_locks (issued, s)" "map_of (leases s) l1 = Some r1" "map_of (leases s) l2 = Some r2"
    and "lease_key r1 = lease_key r2"
  shows "l1 = l2 \<and> (\<exists>q. map_of (queues s) (lease_key r1) = Some q
    \<and> holder q = Some \<lparr>leaseId = l1, ownerId = lease_owner r1\<rparr>)"
proof -
  have "maps_inv issued (map_of (queues s)) (map_of (leases s))"
    using path_locks.reachable_inv [OF assms(1)] by simp
  with assms(2-) show ?thesis
    using maps_inv_lease by (fastforce simp: holds_def)
qed

theorem path_lock_mutual_exclusion_witness:
  "\<exists>issued s r. reachable_locks (issued, s) \<and> map_of (leases s) ''l1'' = Some r
     \<and> (\<exists>q. map_of (queues s) (lease_key r) = Some q \<and> holder q = Some \<lparr>leaseId = ''l1'', ownerId = ''a''\<rparr>)"
proof -
  let ?s = "fst (acquire ''a'' ''k'' ''l1'' createPathLockService)"
  have r: "reachable_locks ({''l1''}, ?s)"
    by (rule reach_step [where step = lock_step, OF reach_start], rule step_acquire) simp
  have l: "map_of (leases ?s) ''l1'' = Some \<lparr>lease_key = ''k'', lease_owner = ''a''\<rparr>"
    by (simp add: acquire_def createPathLockService_def Let_def)
  from path_lock_mutual_exclusion [OF r l l refl] r l show ?thesis by fastforce
qed

text \<open>
  C34. Handover: in every reachable state the holder's release succeeds, gives the lock to the waiter that has
  waited longest and to nobody else, leaves the other resources alone, and removes the queue when nobody waits;
  a release by anyone else, or with a lease that does not hold, changes nothing.
\<close>

theorem path_lock_handover:
  assumes "reachable_locks (issued, s)"
  shows "(\<exists>key q. map_of (queues s) key = Some q \<and> holder q = Some \<lparr>leaseId = lease, ownerId = owner\<rparr>
        \<and> fst (snd (release owner lease s))
        \<and> map_of (queues (fst (release owner lease s))) = (map_of (queues s))(key := granted_queue (waiters q))
        \<and> snd (snd (release owner lease s)) = (case waiters q of [] \<Rightarrow> [] | w # ws \<Rightarrow> [Resolved (leaseId w)]))
    \<or> (\<nexists>key q. map_of (queues s) key = Some q \<and> holder q = Some \<lparr>leaseId = lease, ownerId = owner\<rparr>)
        \<and> release owner lease s = (s, False, [])"
proof -
  have inv: "maps_inv issued (map_of (queues s)) (map_of (leases s))"
    using path_locks.reachable_inv [OF assms] by simp
  consider key q s' signals where "map_of (queues s) key = Some q" "holder q = Some \<lparr>leaseId = lease, ownerId = owner\<rparr>"
      "grantNext key (q\<lparr>holder := None\<rparr>) (s\<lparr>leases := AList.delete lease (leases s)\<rparr>) = (s', signals)"
      "release owner lease s = (s', True, signals)"
    | "\<nexists>key. holds (map_of (queues s)) lease \<lparr>lease_key = key, lease_owner = owner\<rparr>" "release owner lease s = (s, False, [])"
    using release_spec [OF inv, of lease owner] by blast
  then show ?thesis
  proof cases
    case 1
    have "signals = (case waiters q of [] \<Rightarrow> [] | w # ws \<Rightarrow> [Resolved (leaseId w)])"
      using 1(3) by (auto simp: grantNext_def Let_def split: list.splits)
    with 1 grantNext_maps(1) [OF 1(3)] show ?thesis by auto
  next
    case 2
    then show ?thesis by (auto simp: holds_def)
  qed
qed

theorem path_lock_handover_witness:
  "(\<exists>key q. map_of (queues createPathLockService) key = Some q \<and> holder q = Some \<lparr>leaseId = ''l'', ownerId = ''a''\<rparr>
        \<and> fst (snd (release ''a'' ''l'' createPathLockService))
        \<and> map_of (queues (fst (release ''a'' ''l'' createPathLockService))) =
            (map_of (queues createPathLockService))(key := granted_queue (waiters q))
        \<and> snd (snd (release ''a'' ''l'' createPathLockService)) = (case waiters q of [] \<Rightarrow> [] | w # ws \<Rightarrow> [Resolved (leaseId w)]))
    \<or> (\<nexists>key q. map_of (queues createPathLockService) key = Some q \<and> holder q = Some \<lparr>leaseId = ''l'', ownerId = ''a''\<rparr>)
        \<and> release ''a'' ''l'' createPathLockService = (createPathLockService, False, [])"
  by (rule path_lock_handover [OF reach_start])

text \<open>
  Dropping a session removes exactly that owner: no queue mentions the owner afterwards, the other waiters of
  every resource keep their order, and where the owner held the lock the first remaining waiter holds it.
\<close>

theorem drop_session_exact:
  "map_of (queues (fst (dropSession owner s))) k = without_owner owner (map_of (queues s) k)
   \<and> owner \<notin> (\<Union>q \<in> ran (map_of (queues (fst (dropSession owner s)))). queue_owners q)"
  using without_owner_free by (fastforce simp: dropSession_queues ran_def)

end
