(* ===== verification/Request_Window.thy ===== *)
theory Request_Window
  imports Recovery_State
begin

text \<open>
  The transport credits of the kernel client, \<^verbatim>\<open>src/packages/web/application-host/lib/kernel/request-window.ts\<close>.

  A caller is named by the id of its \<open>acquire\<close> call. The closure it gets back, which returns the credit once, is
  the operation \<open>release_credit\<close> with that id; its flag \<open>released\<close> is absence from \<open>outstanding\<close>, the credits granted and
  not returned. Settled promises are signals.
\<close>

section \<open>State and operations\<close>

record 'err KernelRequestWindow =
  used :: nat
  failure :: "'err option"
  waiting :: "nat list"
  idle :: "nat list"
  outstanding :: "nat list"

datatype 'err window_signal = Granted nat | Refused nat 'err | Cancelled nat | Idle nat

datatype window_error = InvalidWindow

definition newRequestWindow :: "jsnum \<Rightarrow> (window_error, nat \<times> 'err KernelRequestWindow) outcome" where
  "newRequestWindow capacity =
     (case capacity of
        JInt n \<Rightarrow>
          if n > MAX_SAFE_INTEGER \<or> n < 1 then Inl InvalidWindow
          else Inr (nat n, \<lparr>used = 0, failure = None, waiting = [], idle = [], outstanding = []\<rparr>)
      | JNonInt \<Rightarrow> Inl InvalidWindow)"

function pump :: "nat \<Rightarrow> 'err KernelRequestWindow \<Rightarrow> 'err KernelRequestWindow \<times> 'err window_signal list" where
  "pump capacity w =
     (if failure w = None \<and> used w < capacity \<and> waiting w \<noteq> [] then
        (let waiter = hd (waiting w);
             (w', signals) = pump capacity (w\<lparr>waiting := tl (waiting w), used := used w + 1,
                                             outstanding := outstanding w @ [waiter]\<rparr>)
         in (w', Granted waiter # signals))
      else (w, []))"
  by pat_completeness auto
termination
  by (relation "measure (\<lambda>(_, w). length (waiting w))") auto

declare pump.simps [simp del]

definition acquire_credit ::
  "nat \<Rightarrow> nat \<Rightarrow> bool \<Rightarrow> 'err KernelRequestWindow \<Rightarrow> 'err KernelRequestWindow \<times> 'err window_signal list" where
  "acquire_credit capacity me aborted w =
     (case failure w of
        Some e \<Rightarrow> (w, [Refused me e])
      | None \<Rightarrow> if aborted then (w, [Cancelled me]) else pump capacity (w\<lparr>waiting := waiting w @ [me]\<rparr>))"

definition abort_waiter :: "nat \<Rightarrow> 'err KernelRequestWindow \<Rightarrow> 'err KernelRequestWindow \<times> 'err window_signal list" where
  "abort_waiter me w =
     (if me \<notin> set (waiting w) then (w, []) else (w\<lparr>waiting := remove1 me (waiting w)\<rparr>, [Cancelled me]))"

definition release_credit :: "nat \<Rightarrow> nat \<Rightarrow> 'err KernelRequestWindow \<Rightarrow> 'err KernelRequestWindow \<times> 'err window_signal list" where
  "release_credit capacity me w =
     (if me \<notin> set (outstanding w) then (w, [])
      else
        let (w, signals) = pump capacity (w\<lparr>outstanding := remove1 me (outstanding w), used := used w - 1\<rparr>)
        in if used w = 0 then (w\<lparr>idle := []\<rparr>, signals @ map Idle (idle w)) else (w, signals))"

definition whenIdle :: "nat \<Rightarrow> 'err KernelRequestWindow \<Rightarrow> 'err KernelRequestWindow \<times> 'err window_signal list" where
  "whenIdle me w = (if used w \<noteq> 0 then (w\<lparr>idle := idle w @ [me]\<rparr>, []) else (w, [Idle me]))"

definition close :: "'err \<Rightarrow> 'err KernelRequestWindow \<Rightarrow> 'err KernelRequestWindow \<times> 'err window_signal list" where
  "close e w =
     (let e = (case failure w of None \<Rightarrow> e | Some f \<Rightarrow> f)
      in (w\<lparr>failure := Some e, waiting := []\<rparr>, map (\<lambda>waiter. Refused waiter e) (waiting w)))"

section \<open>Runs\<close>

datatype 'err window_event = CreditAcquire nat bool | CreditAbort nat | CreditRelease nat | WhenIdle nat | Close 'err

definition window_start :: "'err KernelRequestWindow" where
  "window_start = \<lparr>used = 0, failure = None, waiting = [], idle = [], outstanding = []\<rparr>"

inductive window_step :: "nat \<Rightarrow> 'err KernelRequestWindow \<Rightarrow> 'err window_event \<Rightarrow> 'err KernelRequestWindow \<Rightarrow> bool" for capacity where
  window_acquire: "window_step capacity w (CreditAcquire me aborted) (fst (acquire_credit capacity me aborted w))"
| window_abort: "window_step capacity w (CreditAbort me) (fst (abort_waiter me w))"
| window_release: "window_step capacity w (CreditRelease me) (fst (release_credit capacity me w))"
| window_idle: "window_step capacity w (WhenIdle me) (fst (whenIdle me w))"
| window_close: "window_step capacity w (Close e) (fst (close e w))"

definition window_inv :: "nat \<Rightarrow> 'err KernelRequestWindow \<Rightarrow> bool" where
  "window_inv capacity w \<longleftrightarrow>
     used w = length (outstanding w) \<and> used w \<le> capacity
     \<and> (waiting w = [] \<or> failure w = None \<and> used w = capacity)
     \<and> (idle w = [] \<or> used w > 0)"

text \<open>The number of waiters one call of \<open>pump\<close> serves.\<close>

definition pump_count :: "nat \<Rightarrow> 'err KernelRequestWindow \<Rightarrow> nat" where
  "pump_count capacity w = (if failure w = None then min (capacity - used w) (length (waiting w)) else 0)"

lemma pump_spec:
  "pump capacity w =
    (w\<lparr>waiting := drop (pump_count capacity w) (waiting w), used := used w + pump_count capacity w,
       outstanding := outstanding w @ take (pump_count capacity w) (waiting w)\<rparr>,
     map Granted (take (pump_count capacity w) (waiting w)))"
proof (induction capacity w rule: pump.induct)
  case (1 capacity w)
  show ?case
  proof (cases "failure w = None \<and> used w < capacity \<and> waiting w \<noteq> []")
    case True
    then obtain x xs where x: "waiting w = x # xs" by (cases "waiting w") auto
    have m: "min (capacity - used w) (Suc (length xs)) = Suc (min (capacity - Suc (used w)) (length xs))"
      using True by auto
    show ?thesis
      using True x 1 [OF True, of x] by (subst pump.simps) (simp add: m pump_count_def)
  next
    case False
    then show ?thesis
      by (subst pump.simps) (auto simp: pump_count_def)
  qed
qed

lemma pump_core:
  assumes "used w = length (outstanding w)" "used w \<le> capacity" "failure w = None \<or> waiting w = []"
  shows "used (fst (pump capacity w)) = length (outstanding (fst (pump capacity w)))"
    "used (fst (pump capacity w)) \<le> capacity"
    "waiting (fst (pump capacity w)) = [] \<or>
       failure (fst (pump capacity w)) = None \<and> used (fst (pump capacity w)) = capacity"
    "idle (fst (pump capacity w)) = idle w" "used w \<le> used (fst (pump capacity w))"
  using assms by (auto simp: pump_spec pump_count_def)

interpretation request_window: invariant_system window_start "window_step capacity" "window_inv capacity" for capacity
proof
  show "window_inv capacity window_start"
    by (simp add: window_inv_def window_start_def)
  show "window_inv capacity t" if "window_inv capacity w" "window_step capacity w e t" for w t :: "'err KernelRequestWindow" and e
    using that(2)
  proof cases
    case (window_acquire me aborted)
    show ?thesis
    proof (cases "failure w = None \<and> \<not> aborted")
      case True
      with pump_core [of "w\<lparr>waiting := waiting w @ [me]\<rparr>" capacity] that(1) show ?thesis
        unfolding window_acquire by (auto simp: acquire_credit_def window_inv_def)
    next
      case False
      with that(1) show ?thesis
        unfolding window_acquire by (auto simp: acquire_credit_def split: option.split)
    qed
  next
    case (window_abort me)
    then show ?thesis
      using that(1) by (auto simp: abort_waiter_def window_inv_def)
  next
    case (window_release me)
    let ?v = "w\<lparr>outstanding := remove1 me (outstanding w), used := used w - 1\<rparr>"
    show ?thesis
    proof (cases "me \<in> set (outstanding w)")
      case True
      have "used ?v = length (outstanding ?v)" "used ?v \<le> capacity" "failure ?v = None \<or> waiting ?v = []"
        using that(1) True by (auto simp: window_inv_def length_remove1)
      from pump_core [OF this] True show ?thesis
        unfolding window_release by (auto simp: release_credit_def window_inv_def Let_def split_beta)
    next
      case False
      with that(1) show ?thesis unfolding window_release by (simp add: release_credit_def)
    qed
  next
    case (window_idle me)
    then show ?thesis using that(1) by (auto simp: whenIdle_def window_inv_def)
  next
    case (window_close e)
    then show ?thesis using that(1) by (auto simp: close_def window_inv_def Let_def)
  qed
qed

section \<open>Properties\<close>

text \<open>
  The window never overcommits and never loses a wake-up: in every reachable state the credits in use are
  exactly the credits granted and not returned and at most the capacity, somebody waits only while the window
  is open and full, and somebody waits for idleness only while a credit is in use.
\<close>

theorem request_window_sound:
  "reachable window_start (window_step capacity) w \<Longrightarrow>
     used w = length (outstanding w) \<and> used w \<le> capacity
     \<and> (waiting w = [] \<or> failure w = None \<and> used w = capacity) \<and> (idle w = [] \<or> used w > 0)"
  by (rule request_window.reachable_inv [unfolded window_inv_def])

theorem request_window_sound_witness:
  "\<exists>w :: unit KernelRequestWindow. reachable window_start (window_step 1) w \<and> used w = 1 \<and> used w \<le> 1"
proof -
  let ?w = "fst (acquire_credit 1 7 False window_start) :: unit KernelRequestWindow"
  have "reachable window_start (window_step 1) ?w"
    by (rule reach_step [where step = "window_step 1", OF reach_start], rule window_acquire)
  moreover from request_window_sound [OF this] have "used ?w \<le> 1" by blast
  moreover have "used ?w = 1"
    by (simp add: acquire_credit_def window_start_def pump_spec pump_count_def)
  ultimately show ?thesis by blast
qed

text \<open>
  Credits are handed out in the order of the requests: returning a credit while others wait grants exactly
  one credit, to the caller that has waited longest; returning it a second time changes nothing.
\<close>

theorem request_window_fifo:
  assumes "reachable window_start (window_step capacity) w" "me \<in> set (outstanding w)" "waiting w = x # xs"
  shows "snd (release_credit capacity me w) = [Granted x]
    \<and> waiting (fst (release_credit capacity me w)) = xs
    \<and> outstanding (fst (release_credit capacity me w)) = remove1 me (outstanding w) @ [x]"
proof -
  have "failure w = None" "used w = capacity" "used w = length (outstanding w)"
    using request_window.reachable_inv [OF assms(1)] assms(3) by (auto simp: window_inv_def)
  moreover have "0 < capacity" using calculation assms(2) by (auto simp: length_pos_if_in_set)
  moreover have "min (capacity - (capacity - Suc 0)) (Suc (length xs)) = 1" using \<open>0 < capacity\<close> by auto
  ultimately show ?thesis
    using assms(2,3) by (simp add: release_credit_def pump_spec pump_count_def Let_def)
qed

theorem request_window_fifo_witness:
  "\<exists>w :: unit KernelRequestWindow. reachable window_start (window_step 1) w
     \<and> snd (release_credit 1 7 w) = [Granted 8]"
proof -
  let ?v = "fst (acquire_credit 1 7 False window_start) :: unit KernelRequestWindow"
  let ?w = "fst (acquire_credit 1 8 False ?v)"
  have r: "reachable window_start (window_step 1) ?w"
    by (rule reach_step [where step = "window_step 1", OF
          reach_step [where step = "window_step 1", OF reach_start window_acquire] window_acquire])
  have "7 \<in> set (outstanding ?w)" "waiting ?w = [8]"
    by (simp_all add: acquire_credit_def window_start_def pump_spec pump_count_def)
  from request_window_fifo [OF r this] r show ?thesis by blast
qed

end
