(* ===== verification/State_Trie.thy ===== *)
theory State_Trie
  imports Recovery_State "HOL-Library.List_Lexorder" "HOL-Library.Char_ord"
begin

text \<open>
  The Merkle map of path states, \<^verbatim>\<open>src/packages/web/application-host/lib/harness/working-state/state-trie.ts\<close>.

  \<open>sha\<close> is the hexadecimal SHA-256 digest of the platform, an argument of every definition that hashes. A node
  pool is a map from hashes; the prototype chain \<open>Object.create(trie.nodes)\<close> is the same map with new entries.
  The children of a node are an object: own properties are an association list, and reading a name that is not
  an own property but is inherited from \<open>Object.prototype\<close> gives a value that is no hash, so that the next
  lookup throws. The recursions over a pool take the depth of the call stack as fuel; running out of it is the
  error \<open>StackOverflow\<close>.
\<close>

section \<open>Nodes and hashes\<close>

record StateTrieNode =
  children :: "(string \<times> string) list"
  self :: "RecoveryState option"

type_synonym node_pool = "string \<rightharpoonup> StateTrieNode"

record StateTrie =
  root :: string
  nodes :: node_pool

datatype trie_error =
    NodeMissing
  | NodeMissingAt string string
  | NodeCorrupt string string string
  | TrieCycle string string
  | StackOverflow

definition child_names :: "StateTrieNode \<Rightarrow> string list" where
  "child_names node = sort (map fst (children node))"

definition child_bytes :: "StateTrieNode \<Rightarrow> string \<Rightarrow> string" where
  "child_bytes node name = name @ [CHR 0x00] @ the (map_of (children node) name) @ [CHR 0x00]"

definition node_bytes :: "StateTrieNode \<Rightarrow> string" where
  "node_bytes node =
     ''dir'' @ [CHR 0x00] @ concat (map (child_bytes node) (child_names node))
     @ ''self'' @ [CHR 0x00] @ (case self node of None \<Rightarrow> [] | Some s \<Rightarrow> stateIdentity s)"

definition nodeHash :: "(string \<Rightarrow> string) \<Rightarrow> StateTrieNode \<Rightarrow> string" where
  "nodeHash sha node = sha (node_bytes node)"

definition EMPTY_NODE :: StateTrieNode where
  "EMPTY_NODE = \<lparr>children = [], self = None\<rparr>"

definition EMPTY_ROOT :: "(string \<Rightarrow> string) \<Rightarrow> string" where
  "EMPTY_ROOT sha = nodeHash sha EMPTY_NODE"

definition EMPTY_STATE_TRIE :: "(string \<Rightarrow> string) \<Rightarrow> StateTrie" where
  "EMPTY_STATE_TRIE sha = \<lparr>root = EMPTY_ROOT sha, nodes = [EMPTY_ROOT sha \<mapsto> EMPTY_NODE]\<rparr>"

definition lookupNode :: "node_pool \<Rightarrow> string \<Rightarrow> (trie_error, StateTrieNode) outcome" where
  "lookupNode pool hash = (case pool hash of None \<Rightarrow> Inl NodeMissing | Some node \<Rightarrow> Inr node)"

text \<open>The property read \<open>node.children[name]\<close>.\<close>

datatype child_ref = OwnChild string | Inherited | Absent

definition child_of :: "StateTrieNode \<Rightarrow> string \<Rightarrow> child_ref" where
  "child_of node name =
     (case map_of (children node) name of
        Some hash \<Rightarrow> OwnChild hash
      | None \<Rightarrow> if name \<in> set object_prototype_names then Inherited else Absent)"

text \<open>\<open>path.split("/").filter(Boolean)\<close>\<close>

definition path_segments :: "string \<Rightarrow> string list" where
  "path_segments path = filter (\<lambda>s. s \<noteq> []) (split_on CHR ''/'' path)"

section \<open>Reading and writing a path\<close>

fun trie_walk :: "node_pool \<Rightarrow> string \<Rightarrow> string list \<Rightarrow> (trie_error, RecoveryState option) outcome" where
  "trie_walk pool hash [] = obind (lookupNode pool hash) (\<lambda>node. Inr (self node))"
| "trie_walk pool hash (name # segs) =
     obind (lookupNode pool hash) (\<lambda>node.
       case child_of node name of
         OwnChild child \<Rightarrow> if child = [] then Inr None else trie_walk pool child segs
       | Inherited \<Rightarrow> Inl NodeMissing
       | Absent \<Rightarrow> Inr None)"

definition trieGet :: "StateTrie \<Rightarrow> string \<Rightarrow> (trie_error, RecoveryState option) outcome" where
  "trieGet trie path = trie_walk (nodes trie) (root trie) (path_segments path)"

text \<open>The closure \<open>set\<close> of \<open>trieSet\<close>: the new hash of the directory and the pool with the new nodes.\<close>

fun trie_set_at ::
  "(string \<Rightarrow> string) \<Rightarrow> RecoveryState \<Rightarrow> node_pool \<Rightarrow> string \<Rightarrow> string list \<Rightarrow> (trie_error, string \<times> node_pool) outcome" where
  "trie_set_at sha state pool dirHash [] = Inr (dirHash, pool)"
| "trie_set_at sha state pool dirHash (name # segs) =
     obind (lookupNode pool dirHash) (\<lambda>dir.
       case child_of dir name of
         Inherited \<Rightarrow> Inl NodeMissing
       | ref \<Rightarrow>
           let child = (case ref of OwnChild c \<Rightarrow> c | _ \<Rightarrow> EMPTY_ROOT sha)
           in obind
                (if segs = [] then
                   obind (if child = EMPTY_ROOT sha \<and> pool child = None then Inr EMPTY_NODE else lookupNode pool child)
                     (\<lambda>childNode.
                        let nextChild = \<lparr>children = children childNode, self = Some state\<rparr>;
                            childHash = nodeHash sha nextChild
                        in Inr (childHash, pool(childHash \<mapsto> nextChild)))
                 else trie_set_at sha state pool child segs)
                (\<lambda>(childHash, pool).
                   let next = \<lparr>children = AList.update name childHash (children dir), self = self dir\<rparr>;
                       nextHash = nodeHash sha next
                   in Inr (nextHash, pool(nextHash \<mapsto> next))))"

definition with_empty_node :: "(string \<Rightarrow> string) \<Rightarrow> node_pool \<Rightarrow> node_pool" where
  "with_empty_node sha pool =
     (case pool (EMPTY_ROOT sha) of None \<Rightarrow> pool(EMPTY_ROOT sha \<mapsto> EMPTY_NODE) | Some node \<Rightarrow> pool)"

definition trieSet :: "(string \<Rightarrow> string) \<Rightarrow> string \<Rightarrow> RecoveryState \<Rightarrow> StateTrie \<Rightarrow> (trie_error, StateTrie) outcome" where
  "trieSet sha path state trie =
     (let segs = path_segments path
      in if segs = [] then Inr trie
         else obind (trieGet trie path) (\<lambda>existing.
           if (case existing of None \<Rightarrow> False | Some e \<Rightarrow> stateIdentity e = stateIdentity state) then Inr trie
           else obind (trie_set_at sha state (with_empty_node sha (nodes trie)) (root trie) segs)
                  (\<lambda>(hash, pool). Inr \<lparr>root = hash, nodes = pool\<rparr>)))"

text \<open>The closure \<open>remove\<close> of \<open>trieRemove\<close>; \<open>None\<close> is \<open>null\<close>, and \<open>at_root\<close> is \<open>depth === 0\<close>.\<close>

fun trie_remove_at ::
  "(string \<Rightarrow> string) \<Rightarrow> node_pool \<Rightarrow> string \<Rightarrow> string list \<Rightarrow> bool \<Rightarrow> (trie_error, string option \<times> node_pool) outcome" where
  "trie_remove_at sha pool dirHash [] at_root = Inr (Some dirHash, pool)"
| "trie_remove_at sha pool dirHash (name # segs) at_root =
     obind (lookupNode pool dirHash) (\<lambda>dir.
       case child_of dir name of
         Inherited \<Rightarrow> Inl NodeMissing
       | Absent \<Rightarrow> Inr (Some dirHash, pool)
       | OwnChild child \<Rightarrow>
           if child = [] then Inr (Some dirHash, pool)
           else obind
             (if segs = [] then
                obind (lookupNode pool child) (\<lambda>childNode.
                  if self childNode = None then Inr (None, pool)
                  else if children childNode = [] then Inr (Some (AList.delete name (children dir)), pool)
                  else let nextChild = \<lparr>children = children childNode, self = None\<rparr>;
                           nextChildHash = nodeHash sha nextChild
                       in Inr (Some (AList.update name nextChildHash (children dir)), pool(nextChildHash \<mapsto> nextChild)))
              else
                obind (trie_remove_at sha pool child segs False) (\<lambda>(childHash, pool).
                  if childHash = Some child then Inr (None, pool)
                  else case childHash of
                         None \<Rightarrow> Inr (Some (AList.delete name (children dir)), pool)
                       | Some c \<Rightarrow> Inr (Some (AList.update name c (children dir)), pool)))
             (\<lambda>(changed, pool).
                case changed of
                  None \<Rightarrow> Inr (Some dirHash, pool)
                | Some kids \<Rightarrow>
                    if kids = [] \<and> self dir = None \<and> \<not> at_root then Inr (None, pool)
                    else let next = \<lparr>children = kids, self = self dir\<rparr>;
                             nextHash = nodeHash sha next
                         in Inr (Some nextHash, pool(nextHash \<mapsto> next))))"

definition trieRemove :: "(string \<Rightarrow> string) \<Rightarrow> string \<Rightarrow> StateTrie \<Rightarrow> (trie_error, StateTrie) outcome" where
  "trieRemove sha path trie =
     (let segs = path_segments path
      in if segs = [] then Inr trie
         else obind (trieGet trie path) (\<lambda>existing.
           if existing = None then Inr trie
           else obind (trie_remove_at sha (nodes trie) (root trie) segs True) (\<lambda>(hash, pool).
             Inr \<lparr>root = (case hash of None \<Rightarrow> EMPTY_ROOT sha | Some h \<Rightarrow> h), nodes = with_empty_node sha pool\<rparr>)))"

section \<open>Whole maps\<close>

definition join_segment :: "string \<Rightarrow> string \<Rightarrow> string" where
  "join_segment pre name = (if pre = [] then name else pre @ ''/'' @ name)"

fun trie_collect :: "nat \<Rightarrow> node_pool \<Rightarrow> string \<Rightarrow> string \<Rightarrow> (trie_error, (string \<times> RecoveryState) list) outcome" where
  "trie_collect 0 pool hash pre = Inl StackOverflow"
| "trie_collect (Suc fuel) pool hash pre =
     obind (lookupNode pool hash) (\<lambda>node.
       obind (ocollect (map (\<lambda>name. trie_collect fuel pool (the (map_of (children node) name)) (join_segment pre name))
                          (child_names node)))
         (\<lambda>parts. Inr ((case self node of None \<Rightarrow> [] | Some s \<Rightarrow> [(pre, s)]) @ concat parts)))"

definition trieEntries :: "nat \<Rightarrow> StateTrie \<Rightarrow> (trie_error, (string \<times> RecoveryState) list) outcome" where
  "trieEntries fuel trie = trie_collect fuel (nodes trie) (root trie) []"

text \<open>\<open>trieFromEntries\<close>: the nested build nodes, and hashing them bottom-up.\<close>

datatype BuildNode = BuildNode (build_kids: "(string \<times> BuildNode) list") (build_self: "RecoveryState option")

fun build_insert :: "RecoveryState \<Rightarrow> string list \<Rightarrow> BuildNode \<Rightarrow> BuildNode" where
  "build_insert state [] node = node"
| "build_insert state (name # segs) node =
     (let child = (case map_of (build_kids node) name of None \<Rightarrow> BuildNode [] None | Some c \<Rightarrow> c);
          child = (if segs = [] then BuildNode (build_kids child) (Some state) else build_insert state segs child)
      in BuildNode (AList.update name child (build_kids node)) (build_self node))"

text \<open>Assigning the property \<open>__proto__\<close> of an object literal does not create a property.\<close>

fun hashBuildNode :: "(string \<Rightarrow> string) \<Rightarrow> BuildNode \<Rightarrow> node_pool \<Rightarrow> string \<times> node_pool"
and hash_kids :: "(string \<Rightarrow> string) \<Rightarrow> (string \<times> BuildNode) list \<Rightarrow> node_pool \<Rightarrow> (string \<times> string) list \<times> node_pool" where
  "hashBuildNode sha (BuildNode kids s) pool =
     (let (hashes, pool) = hash_kids sha kids pool;
          node = \<lparr>children = hashes, self = s\<rparr>;
          hash = nodeHash sha node
      in (hash, pool(hash \<mapsto> node)))"
| "hash_kids sha [] pool = ([], pool)"
| "hash_kids sha ((name, child) # kids) pool =
     (let (hash, pool) = hashBuildNode sha child pool;
          (hashes, pool) = hash_kids sha kids pool
      in (if name = ''__proto__'' then hashes else (name, hash) # hashes, pool))"

definition trieFromEntries :: "(string \<Rightarrow> string) \<Rightarrow> (string \<times> RecoveryState) list \<Rightarrow> StateTrie" where
  "trieFromEntries sha entries =
     (let ordered = sort_key fst entries
      in if ordered = [] then EMPTY_STATE_TRIE sha
         else let build = fold (\<lambda>(path, state). build_insert state (path_segments path)) ordered (BuildNode [] None);
                  (hash, pool) = hashBuildNode sha build [EMPTY_ROOT sha \<mapsto> EMPTY_NODE]
              in \<lparr>root = hash, nodes = pool\<rparr>)"

definition trieIdentity :: "StateTrie \<Rightarrow> string" where
  "trieIdentity trie = ''sha256-'' @ root trie"

section \<open>Integrity\<close>

text \<open>The closure \<open>check\<close> of \<open>verifyTrie\<close>, with the sets \<open>visiting\<close> and \<open>verified\<close> threaded through.\<close>

fun check_node ::
  "(string \<Rightarrow> string) \<Rightarrow> nat \<Rightarrow> node_pool \<Rightarrow> string \<Rightarrow> string \<Rightarrow> string list \<Rightarrow> string list \<Rightarrow> (trie_error, string list) outcome"
and check_children ::
  "(string \<Rightarrow> string) \<Rightarrow> nat \<Rightarrow> node_pool \<Rightarrow> string \<Rightarrow> (string \<times> string) list \<Rightarrow> string list \<Rightarrow> string list
   \<Rightarrow> (trie_error, string list) outcome" where
  "check_node sha 0 pool hash path visiting verified = Inl StackOverflow"
| "check_node sha (Suc fuel) pool hash path visiting verified =
     (if hash \<in> set verified then Inr verified
      else if hash \<in> set visiting then Inl (TrieCycle hash path)
      else case pool hash of
             None \<Rightarrow> Inl (NodeMissingAt hash path)
           | Some node \<Rightarrow>
               if nodeHash sha node \<noteq> hash then Inl (NodeCorrupt hash (nodeHash sha node) path)
               else obind (check_children sha fuel pool path (children node) (hash # visiting) verified)
                      (\<lambda>verified. Inr (hash # verified)))"
| "check_children sha fuel pool path [] visiting verified = Inr verified"
| "check_children sha fuel pool path ((name, child) # kids) visiting verified =
     obind (check_node sha fuel pool child (join_segment path name) visiting verified)
       (\<lambda>verified. check_children sha fuel pool path kids visiting verified)"

definition verifyTrie :: "(string \<Rightarrow> string) \<Rightarrow> nat \<Rightarrow> StateTrie \<Rightarrow> (trie_error, unit) outcome" where
  "verifyTrie sha fuel trie = obind (check_node sha fuel (nodes trie) (root trie) [] [] []) (\<lambda>verified. Inr ())"

text \<open>The reachable nodes, as a record in the order of the visits.\<close>

fun visit_node :: "nat \<Rightarrow> node_pool \<Rightarrow> string \<Rightarrow> (string \<times> StateTrieNode) list \<Rightarrow> (trie_error, (string \<times> StateTrieNode) list) outcome"
and visit_nodes :: "nat \<Rightarrow> node_pool \<Rightarrow> string list \<Rightarrow> (string \<times> StateTrieNode) list \<Rightarrow> (trie_error, (string \<times> StateTrieNode) list) outcome" where
  "visit_node 0 pool hash result = Inl StackOverflow"
| "visit_node (Suc fuel) pool hash result =
     (if hash \<in> set (map fst result) then Inr result
      else obind (lookupNode pool hash) (\<lambda>node.
             visit_nodes fuel pool (map snd (children node)) (result @ [(hash, node)])))"
| "visit_nodes fuel pool [] result = Inr result"
| "visit_nodes fuel pool (hash # hashes) result =
     obind (visit_node fuel pool hash result) (\<lambda>result. visit_nodes fuel pool hashes result)"

definition trieReachableNodes :: "(string \<Rightarrow> string) \<Rightarrow> nat \<Rightarrow> StateTrie \<Rightarrow> (trie_error, (string \<times> StateTrieNode) list) outcome" where
  "trieReachableNodes sha fuel trie =
     obind (verifyTrie sha fuel trie) (\<lambda>u. visit_node fuel (nodes trie) (root trie) [])"

section \<open>Differences\<close>

record StateTrieDiff =
  added :: "string list"
  removed :: "string list"
  changed :: "string list"

text \<open>
  The closure \<open>visit\<close> of \<open>trieDiff\<close>; the result is what it appends to the three lists. \<open>left_of\<close> is
  \<open>left.children[name] ?? ""\<close>, \<open>None\<close> when the value is inherited.
\<close>

definition hash_or_empty :: "StateTrieNode \<Rightarrow> string \<Rightarrow> string option" where
  "hash_or_empty node name = (case child_of node name of OwnChild c \<Rightarrow> Some c | Inherited \<Rightarrow> None | Absent \<Rightarrow> Some [])"

definition self_diff :: "string \<Rightarrow> RecoveryState option \<Rightarrow> RecoveryState option \<Rightarrow> StateTrieDiff" where
  "self_diff pre l r =
     (case (l, r) of
        (Some a, Some b) \<Rightarrow> \<lparr>added = [], removed = [], changed = (if stateIdentity a \<noteq> stateIdentity b then [pre] else [])\<rparr>
      | (Some a, None) \<Rightarrow> \<lparr>added = [], removed = [pre], changed = []\<rparr>
      | (None, Some b) \<Rightarrow> \<lparr>added = [pre], removed = [], changed = []\<rparr>
      | (None, None) \<Rightarrow> \<lparr>added = [], removed = [], changed = []\<rparr>)"

definition diff_append :: "StateTrieDiff \<Rightarrow> StateTrieDiff \<Rightarrow> StateTrieDiff" where
  "diff_append x y = \<lparr>added = added x @ added y, removed = removed x @ removed y, changed = changed x @ changed y\<rparr>"

definition no_diff :: StateTrieDiff where
  "no_diff = \<lparr>added = [], removed = [], changed = []\<rparr>"

definition either_pool :: "node_pool \<Rightarrow> node_pool \<Rightarrow> node_pool" where
  "either_pool before after hash = (case before hash of Some node \<Rightarrow> Some node | None \<Rightarrow> after hash)"

fun diff_visit :: "nat \<Rightarrow> node_pool \<Rightarrow> node_pool \<Rightarrow> string \<Rightarrow> string \<Rightarrow> string \<Rightarrow> (trie_error, StateTrieDiff) outcome" where
  "diff_visit 0 before after leftHash rightHash pre = Inl StackOverflow"
| "diff_visit (Suc fuel) before after leftHash rightHash pre =
     (if leftHash = rightHash then Inr no_diff
      else if leftHash = [] then
        obind (trie_collect fuel (either_pool before after) rightHash pre)
          (\<lambda>es. Inr (no_diff\<lparr>added := map fst es\<rparr>))
      else if rightHash = [] then
        obind (trie_collect fuel (either_pool before after) leftHash pre)
          (\<lambda>es. Inr (no_diff\<lparr>removed := map fst es\<rparr>))
      else
        obind (lookupNode before leftHash) (\<lambda>left.
        obind (lookupNode after rightHash) (\<lambda>right.
        obind (ocollect (map (\<lambda>name.
                 case (hash_or_empty left name, hash_or_empty right name) of
                   (Some l, Some r) \<Rightarrow> diff_visit fuel before after l r (join_segment pre name)
                 | _ \<Rightarrow> Inl NodeMissing)
               (sort (remdups (map fst (children left) @ map fst (children right))))))
          (\<lambda>parts. Inr (fold (\<lambda>d acc. diff_append acc d) parts (self_diff pre (self left) (self right)))))))"

definition trieDiff :: "nat \<Rightarrow> StateTrie \<Rightarrow> StateTrie \<Rightarrow> (trie_error, StateTrieDiff) outcome" where
  "trieDiff fuel before after =
     obind (diff_visit fuel (nodes before) (nodes after) (root before) (root after) [])
       (\<lambda>d. Inr \<lparr>added = sort (added d), removed = sort (removed d), changed = sort (changed d)\<rparr>)"

end
