(* ===== verification/Trie_Map.thy ===== *)
theory Trie_Map
  imports State_Trie
begin

text \<open>
  The state trie as a map. The digest is assumed to be free of collisions and to give strings without NUL
  characters (\<open>collision_free\<close>); then the bytes a node hashes determine its children and the identity of its state.
  Nodes are compared by \<open>view\<close>, which forgets the order of the children and the mode of symbolic links, since two
  nodes that differ only there have the same hash and replace each other in a pool. A trie is valid
  (\<open>trie_ok\<close>) when every node of its pool has the hash it is stored under, every child resolves, and no child is
  an empty node; \<open>trie_content\<close> is the map it stands for.
\<close>

section \<open>Well-formed pools\<close>

definition collision_free :: "(string \<Rightarrow> string) \<Rightarrow> bool" where
  "collision_free sha \<longleftrightarrow> inj sha \<and> (\<forall>s. sha s \<noteq> [] \<and> CHR 0x00 \<notin> set (sha s))"

definition name_ok :: "string \<Rightarrow> bool" where
  "name_ok name \<longleftrightarrow> name \<noteq> [] \<and> CHR ''/'' \<notin> set name \<and> CHR 0x00 \<notin> set name \<and> name \<notin> set object_prototype_names"

definition node_wf :: "StateTrieNode \<Rightarrow> bool" where
  "node_wf node \<longleftrightarrow> distinct (map fst (children node))
     \<and> list_all (\<lambda>(name, c). name_ok name \<and> c \<noteq> [] \<and> CHR 0x00 \<notin> set c) (children node)"

definition view :: "StateTrieNode \<Rightarrow> (string \<rightharpoonup> string) \<times> RecoveryState option" where
  "view node = (map_of (children node), map_option portable (self node))"

lemma set_child_names [simp]: "set (child_names node) = dom (map_of (children node))"
  by (simp add: child_names_def dom_map_of_conv_image_fst)

lemma node_wf_child:
  "node_wf node \<Longrightarrow> map_of (children node) name = Some c \<Longrightarrow> name_ok name \<and> c \<noteq> [] \<and> CHR 0x00 \<notin> set c"
  by (auto simp: node_wf_def list_all_iff dest!: map_of_SomeD)

lemma hex_char_not_nul: "n < 16 \<Longrightarrow> CHR 0x00 \<noteq> hex_char n"
proof
  assume n: "n < 16" and "CHR 0x00 = hex_char n"
  then have "of_char (CHR 0x00) = (of_char (hex_char n) :: nat)" by simp
  then show False by (simp add: of_char_hex_char [OF n] split: if_splits)
qed

lemma json_char_no_nul: "CHR 0x00 \<notin> set (json_char c)"
proof -
  have small: "of_char c < (32 :: nat) \<Longrightarrow> of_char c div 16 < (16 :: nat)" by simp
  have big: "\<not> of_char c < (32 :: nat) \<Longrightarrow> CHR 0x00 \<noteq> c" by auto
  show ?thesis
    unfolding json_char_def Let_def
    by (simp add: hex_char_not_nul small big split del: if_split split: if_split)
qed

lemma json_string_no_nul: "CHR 0x00 \<notin> set (json_string s)"
  using json_char_no_nul by (auto simp: json_string_def)

lemma json_number_no_nul: "CHR 0x00 \<notin> set (json_number_or_null v)"
  using dec_digits by (fastforce simp: json_number_or_null_def is_digit_def split: option.splits)

lemma stateIdentity_no_nul: "CHR 0x00 \<notin> set (stateIdentity s)" "stateIdentity s \<noteq> []"
  using json_string_no_nul json_number_no_nul
  by (auto simp: stateIdentity_def identity_json_def json_string_or_null_def split: option.split)

definition self_bytes :: "StateTrieNode \<Rightarrow> string" where
  "self_bytes node = (case self node of None \<Rightarrow> [] | Some s \<Rightarrow> stateIdentity s)"

lemma self_bytes_no_nul: "CHR 0x00 \<notin> set (self_bytes node)"
  by (simp add: self_bytes_def stateIdentity_no_nul split: option.split)

lemma self_bytes_eq_iff:
  "self_bytes a = self_bytes b \<longleftrightarrow> map_option portable (self a) = map_option portable (self b)"
  using stateIdentity_no_nul(2) by (auto simp: self_bytes_def stateIdentity_eq_iff split: option.splits) metis+

definition node_tokens :: "StateTrieNode \<Rightarrow> string list" where
  "node_tokens node =
     ''dir'' # concat (map (\<lambda>name. [name, the (map_of (children node) name)]) (child_names node)) @ [''self'', self_bytes node]"

lemma split_child_tokens:
  assumes "\<forall>name \<in> set names. CHR 0x00 \<notin> set name \<and> CHR 0x00 \<notin> set (f name)"
  shows "split_on (CHR 0x00) (concat (map (\<lambda>name. name @ [CHR 0x00] @ f name @ [CHR 0x00]) names) @ rest)
    = concat (map (\<lambda>name. [name, f name]) names) @ split_on (CHR 0x00) rest"
  using assms by (induction names) (simp_all add: split_on_append_sep)

lemma split_node_bytes:
  assumes "node_wf node"
  shows "split_on (CHR 0x00) (node_bytes node) = node_tokens node"
proof -
  have "\<forall>name \<in> set (child_names node). CHR 0x00 \<notin> set name \<and> CHR 0x00 \<notin> set (the (map_of (children node) name))"
    using node_wf_child [OF assms] by (auto simp: name_ok_def)
  from split_child_tokens [OF this, of "''self'' @ CHR 0x00 # self_bytes node"]
  show ?thesis
    using self_bytes_no_nul [of node]
    by (simp add: node_bytes_def node_tokens_def child_bytes_def [abs_def] self_bytes_def [symmetric]
        split_on_append_sep [of _ "''dir''", simplified] split_on_append_sep [of _ "''self''", simplified])
qed

lemma pair_concat_inject:
  "concat (map (\<lambda>x. [x, f x]) xs) @ [a, b] = concat (map (\<lambda>x. [x, g x]) ys) @ [a, c]
   \<Longrightarrow> xs = ys \<and> (\<forall>x \<in> set xs. f x = g x) \<and> b = c"
proof (induction xs arbitrary: ys)
  case Nil
  then show ?case by (cases ys) auto
next
  case (Cons x xs)
  then show ?case by (cases ys) auto
qed

lemma node_hash_view:
  assumes "collision_free sha" "node_wf a" "node_wf b"
  shows "nodeHash sha a = nodeHash sha b \<longleftrightarrow> view a = view b"
proof
  assume "nodeHash sha a = nodeHash sha b"
  then have "node_bytes a = node_bytes b"
    using assms(1) by (auto simp: nodeHash_def collision_free_def dest: injD)
  then have "node_tokens a = node_tokens b"
    using split_node_bytes assms(2,3) by metis
  then have eq: "child_names a = child_names b
      \<and> (\<forall>x \<in> set (child_names a). the (map_of (children a) x) = the (map_of (children b) x))
      \<and> self_bytes a = self_bytes b"
    unfolding node_tokens_def by (intro pair_concat_inject [where a = "''self''"]) (simp only: list.inject)
  then have dom: "dom (map_of (children a)) = dom (map_of (children b))"
    using set_child_names by metis
  have "map_of (children a) = map_of (children b)"
  proof
    fix x
    show "map_of (children a) x = map_of (children b) x"
    proof (cases "x \<in> dom (map_of (children a))")
      case True
      then show ?thesis
        using eq dom set_child_names [of a] by (metis domIff option.expand)
    next
      case False
      then show ?thesis using dom by (metis domIff)
    qed
  qed
  with eq show "view a = view b"
    by (simp add: view_def self_bytes_eq_iff)
next
  assume eq: "view a = view b"
  then have "set (map fst (children a)) = set (map fst (children b))"
    by (metis dom_map_of_conv_image_fst fst_conv list.set_map view_def)
  then have "child_names a = child_names b"
    using assms(2,3) by (auto simp: child_names_def node_wf_def intro: sorted_distinct_set_unique)
  moreover have "map_of (children a) = map_of (children b)" "self_bytes a = self_bytes b"
    using eq by (auto simp: view_def self_bytes_eq_iff)
  ultimately show "nodeHash sha a = nodeHash sha b"
    unfolding nodeHash_def node_bytes_def self_bytes_def [symmetric] child_bytes_def [abs_def] by simp
qed


section \<open>Pools\<close>

definition pool_ok :: "(string \<Rightarrow> string) \<Rightarrow> node_pool \<Rightarrow> bool" where
  "pool_ok sha pool \<longleftrightarrow> (\<forall>h node. pool h = Some node \<longrightarrow> nodeHash sha node = h \<and> node_wf node)"

definition pool_le :: "node_pool \<Rightarrow> node_pool \<Rightarrow> bool" where
  "pool_le p p' \<longleftrightarrow> (\<forall>h node. p h = Some node \<longrightarrow> (\<exists>node'. p' h = Some node' \<and> view node' = view node))"

inductive good :: "(string \<Rightarrow> string) \<Rightarrow> node_pool \<Rightarrow> string \<Rightarrow> bool" for sha pool where
  good: "pool h = Some node \<Longrightarrow>
    (\<And>name c. map_of (children node) name = Some c \<Longrightarrow> good sha pool c \<and> c \<noteq> EMPTY_ROOT sha) \<Longrightarrow> good sha pool h"

inductive_cases good_cases: "good sha pool h"

definition trie_map :: "node_pool \<Rightarrow> string \<Rightarrow> string list \<Rightarrow> RecoveryState option" where
  "trie_map pool h q = (case trie_walk pool h q of Inr (Some s) \<Rightarrow> Some (portable s) | _ \<Rightarrow> None)"

lemma pool_le_refl [simp]: "pool_le p p"
  by (simp add: pool_le_def)

lemma pool_le_trans: "pool_le p q \<Longrightarrow> pool_le q r \<Longrightarrow> pool_le p r"
  by (metis pool_le_def)

lemma pool_insert:
  assumes "collision_free sha" "pool_ok sha p" "node_wf node"
  shows "pool_ok sha (p(nodeHash sha node \<mapsto> node))" "pool_le p (p(nodeHash sha node \<mapsto> node))"
proof -
  show "pool_ok sha (p(nodeHash sha node \<mapsto> node))"
    using assms by (simp add: pool_ok_def)
  have "view node = view old" if "p (nodeHash sha node) = Some old" for old
    using that assms node_hash_view [OF assms(1), of node old] by (auto simp: pool_ok_def)
  then show "pool_le p (p(nodeHash sha node \<mapsto> node))"
    by (auto simp: pool_le_def)
qed

lemma view_children: "view a = view b \<Longrightarrow> map_of (children a) = map_of (children b)"
  by (simp add: view_def)

lemma good_child:
  "good sha p h \<Longrightarrow> p h = Some node \<Longrightarrow> map_of (children node) name = Some c \<Longrightarrow> good sha p c \<and> c \<noteq> EMPTY_ROOT sha"
  by (erule good_cases) auto

lemma good_le: "good sha p h \<Longrightarrow> pool_le p p' \<Longrightarrow> good sha p' h"
proof (induction rule: good.induct)
  case (good h node)
  then obtain node' where node': "p' h = Some node'" "view node' = view node"
    unfolding pool_le_def by blast
  show ?case
    by (rule good.good [where pool = p' and h = h and node = node'])
      (use good node' view_children [OF node'(2)] in simp_all)
qed

lemma child_of_ok [simp]:
  "name_ok name \<Longrightarrow> child_of node name = (case map_of (children node) name of None \<Rightarrow> Absent | Some c \<Rightarrow> OwnChild c)"
  by (auto simp: child_of_def name_ok_def split: option.split)

lemma trie_map_Nil: "p h = Some node \<Longrightarrow> trie_map p h [] = map_option portable (self node)"
  by (simp add: trie_map_def lookupNode_def split: option.split)

lemma trie_map_Cons:
  "pool_ok sha p \<Longrightarrow> p h = Some node \<Longrightarrow> name_ok name \<Longrightarrow>
   trie_map p h (name # q) = (case map_of (children node) name of None \<Rightarrow> None | Some c \<Rightarrow> trie_map p c q)"
  by (auto simp: trie_map_def lookupNode_def pool_ok_def dest: node_wf_child split: option.split)

lemma trie_map_le:
  assumes "pool_ok sha p" "pool_ok sha p'" "pool_le p p'" "good sha p h" "list_all name_ok q"
  shows "trie_map p' h q = trie_map p h q"
  using assms(4,5)
proof (induction q arbitrary: h)
  case Nil
  then obtain node node' where "p h = Some node" "p' h = Some node'" "view node' = view node"
    using assms(3) by (metis good_cases pool_le_def)
  then show ?case by (simp add: trie_map_Nil view_def)
next
  case (Cons name q)
  then obtain node node' where "p h = Some node" "p' h = Some node'" "view node' = view node"
    and kids: "\<And>name c. map_of (children node) name = Some c \<Longrightarrow> good sha p c"
    using assms(3) by (metis good_cases pool_le_def)
  with Cons assms(1,2) show ?case
    by (auto simp: trie_map_Cons dest: view_children split: option.split)
qed

lemma walk_total:
  assumes "pool_ok sha p" "good sha p h" "list_all name_ok q"
  shows "\<exists>r. trie_walk p h q = Inr r"
  using assms(2,3)
proof (induction q arbitrary: h)
  case Nil
  then show ?case by (auto simp: lookupNode_def elim: good_cases)
next
  case (Cons name q)
  then show ?case
    by (auto simp: lookupNode_def elim!: good_cases split: option.split)
qed

text \<open>A changed map: what the directory holds after one path was given a new value.\<close>

definition updated :: "(string \<Rightarrow> string) \<Rightarrow> node_pool \<Rightarrow> string \<Rightarrow> node_pool \<Rightarrow> string \<Rightarrow> string list \<Rightarrow> RecoveryState option \<Rightarrow> bool" where
  "updated sha p d p' h segs v \<longleftrightarrow> pool_ok sha p' \<and> pool_le p p' \<and> good sha p' h
     \<and> (\<forall>q. list_all name_ok q \<longrightarrow> trie_map p' h q = (if q = segs then v else trie_map p d q))"

lemma node_wf_iff:
  "node_wf node \<longleftrightarrow> distinct (map fst (children node))
     \<and> (\<forall>name c. map_of (children node) name = Some c \<longrightarrow> name_ok name \<and> c \<noteq> [] \<and> CHR 0x00 \<notin> set c)"
  by (cases "distinct (map fst (children node))") (force simp: node_wf_def list_all_iff map_of_eq_Some_iff)+

lemma node_wf_update:
  "node_wf node \<Longrightarrow> name_ok name \<Longrightarrow> c \<noteq> [] \<Longrightarrow> CHR 0x00 \<notin> set c \<Longrightarrow>
   node_wf \<lparr>children = AList.update name c (children node), self = s\<rparr>"
  by (auto simp: node_wf_iff split: if_splits)

lemma node_wf_delete:
  "node_wf node \<Longrightarrow> node_wf \<lparr>children = AList.delete name (children node), self = s\<rparr>"
  by (auto simp: node_wf_iff split: if_splits)

lemma nodeHash_clean: "collision_free sha \<Longrightarrow> nodeHash sha node \<noteq> [] \<and> CHR 0x00 \<notin> set (nodeHash sha node)"
  by (simp add: nodeHash_def collision_free_def)

lemma EMPTY_NODE_wf [simp]: "node_wf EMPTY_NODE"
  by (simp add: node_wf_def EMPTY_NODE_def)

lemma EMPTY_ROOT_iff:
  "collision_free sha \<Longrightarrow> node_wf node \<Longrightarrow> nodeHash sha node = EMPTY_ROOT sha \<longleftrightarrow> children node = [] \<and> self node = None"
  by (simp add: EMPTY_ROOT_def node_hash_view) (auto simp: view_def EMPTY_NODE_def)

lemma empty_root_node:
  assumes "collision_free sha" "pool_ok sha p" "p (EMPTY_ROOT sha) = Some node"
  shows "children node = []" "self node = None" "good sha p (EMPTY_ROOT sha)"
    "list_all name_ok q \<Longrightarrow> trie_map p (EMPTY_ROOT sha) q = None"
proof -
  show e: "children node = []" "self node = None"
    using assms EMPTY_ROOT_iff [OF assms(1), of node] by (auto simp: pool_ok_def)
  show "good sha p (EMPTY_ROOT sha)"
    using assms(3) e by (auto intro: good.good)
  show "trie_map p (EMPTY_ROOT sha) q = None" if "list_all name_ok q"
    using that e assms by (cases q) (auto simp: trie_map_Nil trie_map_Cons)
qed

lemma put_self:
  assumes "collision_free sha" "pool_ok sha p" "good sha p d" "p d = Some node"
    and nd: "nd = \<lparr>children = children node, self = v\<rparr>"
  shows "updated sha p d (p(nodeHash sha nd \<mapsto> nd)) (nodeHash sha nd) [] (map_option portable v)"
proof -
  let ?p = "p(nodeHash sha nd \<mapsto> nd)" and ?h = "nodeHash sha nd"
  have wf: "node_wf nd" using assms(2,4) by (simp add: pool_ok_def node_wf_def nd)
  note p = pool_insert [OF assms(1,2) wf]
  have kids: "good sha p c \<and> c \<noteq> EMPTY_ROOT sha" if "map_of (children node) name = Some c" for name c
    using good_child [OF assms(3,4)] that .
  then have "good sha ?p ?h"
    using good_le [OF _ p(2)] by (intro good.good [of ?p ?h nd]) (auto simp: nd)
  moreover have "trie_map ?p ?h q = (if q = [] then map_option portable v else trie_map p d q)" if "list_all name_ok q" for q
  proof (cases q)
    case Nil
    then show ?thesis by (simp add: trie_map_Nil nd)
  next
    case (Cons name r)
    then have "trie_map ?p ?h q = (case map_of (children node) name of None \<Rightarrow> None | Some c \<Rightarrow> trie_map ?p c r)"
      using trie_map_Cons [OF p(1), of ?h nd name r] that by (simp add: nd)
    also have "\<dots> = trie_map p d q"
      using Cons that assms kids trie_map_le [OF assms(2) p(1,2)] by (auto simp: trie_map_Cons split: option.split)
    finally show ?thesis using Cons by simp
  qed
  ultimately show ?thesis
    using p by (simp add: updated_def)
qed

lemma put_child:
  assumes "collision_free sha" "pool_ok sha p" "good sha p d" "p d = Some dir" "name_ok name"
    and child: "updated sha p c0 p1 c segs v" "c \<noteq> EMPTY_ROOT sha" "c \<noteq> []" "CHR 0x00 \<notin> set c"
    and old: "case map_of (children dir) name of Some x \<Rightarrow> x = c0 | None \<Rightarrow> (\<forall>q. list_all name_ok q \<longrightarrow> trie_map p c0 q = None)"
    and nd: "nd = \<lparr>children = AList.update name c (children dir), self = self dir\<rparr>"
  shows "updated sha p d (p1(nodeHash sha nd \<mapsto> nd)) (nodeHash sha nd) (name # segs) v"
    and "nodeHash sha nd \<noteq> EMPTY_ROOT sha"
proof -
  let ?p = "p1(nodeHash sha nd \<mapsto> nd)" and ?h = "nodeHash sha nd"
  have wf: "node_wf nd"
    using assms(2,4,5) child by (simp add: pool_ok_def node_wf_update nd)
  have p1: "pool_ok sha p1" "pool_le p p1" "good sha p1 c" using child(1) by (auto simp: updated_def)
  note p = pool_insert [OF assms(1) p1(1) wf]
  have le: "pool_le p ?p" using p1(2) p(2) by (rule pool_le_trans)
  have kids: "good sha p x \<and> x \<noteq> EMPTY_ROOT sha" if "map_of (children dir) n = Some x" for n x
    using good_child [OF assms(3,4)] that .
  have "good sha ?p ?h"
    using kids child good_le [OF _ le] good_le [OF p1(3) p(2)]
    by (intro good.good [of ?p ?h nd]) (auto simp: nd split: if_splits)
  moreover have "trie_map ?p ?h q = (if q = name # segs then v else trie_map p d q)" if "list_all name_ok q" for q
  proof (cases q)
    case Nil
    then show ?thesis using assms(4) by (simp add: trie_map_Nil nd)
  next
    case (Cons n r)
    have step: "trie_map ?p ?h q = (if n = name then trie_map ?p c r else
        case map_of (children dir) n of None \<Rightarrow> None | Some x \<Rightarrow> trie_map ?p x r)"
      using trie_map_Cons [OF p(1), of ?h nd n r] that Cons by (simp add: nd)
    have new: "trie_map ?p c r = (if r = segs then v else trie_map p c0 r)"
      using that Cons child(1) trie_map_le [OF p1(1) p p1(3)] by (auto simp: updated_def)
    show ?thesis
      using step new Cons that old assms(2,4) kids trie_map_le [OF assms(2) p(1) le]
      by (auto simp: trie_map_Cons split: option.splits)
  qed
  ultimately show "updated sha p d ?p ?h (name # segs) v"
    using p le by (simp add: updated_def)
  show "?h \<noteq> EMPTY_ROOT sha"
    using EMPTY_ROOT_iff [OF assms(1) wf] by (simp add: nd)
qed

lemma with_empty_node_props:
  assumes "collision_free sha" "pool_ok sha p"
  shows "pool_ok sha (with_empty_node sha p)" "pool_le p (with_empty_node sha p)"
    "\<exists>node. with_empty_node sha p (EMPTY_ROOT sha) = Some node"
  using pool_insert [OF assms EMPTY_NODE_wf] assms(2)
  by (auto simp: with_empty_node_def EMPTY_ROOT_def split: option.split)

lemma trie_set_at_spec:
  assumes "collision_free sha" "pool_ok sha p" "good sha p d" "p (EMPTY_ROOT sha) \<noteq> None"
    and "segs \<noteq> []" "list_all name_ok segs"
  shows "\<exists>h p'. trie_set_at sha s p d segs = Inr (h, p') \<and> h \<noteq> EMPTY_ROOT sha \<and> h \<noteq> [] \<and> CHR 0x00 \<notin> set h
    \<and> updated sha p d p' h segs (Some (portable s))"
  using assms(3,5,6)
proof (induction segs arbitrary: d)
  case Nil
  then show ?case by simp
next
  case (Cons name segs)
  obtain dir where dir: "p d = Some dir" using Cons.prems(1) by (auto elim: good_cases)
  obtain e where e: "p (EMPTY_ROOT sha) = Some e" using assms(4) by blast
  define c0 where "c0 = (case map_of (children dir) name of None \<Rightarrow> EMPTY_ROOT sha | Some c \<Rightarrow> c)"
  have c0: "good sha p c0"
    using empty_root_node(3) [OF assms(1,2) e] good_child [OF Cons.prems(1) dir]
    by (auto simp: c0_def split: option.split)
  have old: "case map_of (children dir) name of Some x \<Rightarrow> x = c0 | None \<Rightarrow> (\<forall>q. list_all name_ok q \<longrightarrow> trie_map p c0 q = None)"
    using empty_root_node(4) [OF assms(1,2) e] by (auto simp: c0_def split: option.split)
  obtain childNode where cn: "p c0 = Some childNode" using c0 by (auto elim: good_cases)
  have "\<exists>c p1. (if segs = [] then
            (let nextChild = \<lparr>children = children childNode, self = Some s\<rparr>
             in Inr (nodeHash sha nextChild, p(nodeHash sha nextChild \<mapsto> nextChild)))
          else trie_set_at sha s p c0 segs) = (Inr (c, p1) :: (trie_error, _) outcome)
        \<and> c \<noteq> EMPTY_ROOT sha \<and> c \<noteq> [] \<and> CHR 0x00 \<notin> set c \<and> updated sha p c0 p1 c segs (Some (portable s))"
  proof (cases "segs = []")
    case True
    define nd where "nd = \<lparr>children = children childNode, self = Some s\<rparr>"
    have "node_wf nd" using assms(2) cn by (simp add: pool_ok_def nd_def node_wf_def)
    then show ?thesis
      using put_self [OF assms(1,2) c0 cn nd_def] nodeHash_clean [OF assms(1), of nd] EMPTY_ROOT_iff [OF assms(1), of nd] True
      by (simp add: nd_def Let_def)
  next
    case False
    then show ?thesis using Cons.IH [OF c0] Cons.prems(3) by simp
  qed
  then obtain c p1 where sub: "(if segs = [] then
            (let nextChild = \<lparr>children = children childNode, self = Some s\<rparr>
             in Inr (nodeHash sha nextChild, p(nodeHash sha nextChild \<mapsto> nextChild)))
          else trie_set_at sha s p c0 segs) = (Inr (c, p1) :: (trie_error, _) outcome)"
      "c \<noteq> EMPTY_ROOT sha" "c \<noteq> []" "CHR 0x00 \<notin> set c" "updated sha p c0 p1 c segs (Some (portable s))"
    by blast
  define nd where "nd = \<lparr>children = AList.update name c (children dir), self = self dir\<rparr>"
  have name: "name_ok name" using Cons.prems(3) by simp
  note res = put_child [OF assms(1,2) Cons.prems(1) dir name sub(5,2,3,4) old nd_def]
  have "trie_set_at sha s p d (name # segs) = Inr (nodeHash sha nd, p1(nodeHash sha nd \<mapsto> nd))"
    using sub(1) dir cn name by (auto simp: lookupNode_def c0_def nd_def Let_def split: option.splits if_splits)
  then show ?case
    using res nodeHash_clean [OF assms(1), of nd] by blast
qed

lemma drop_child:
  assumes "collision_free sha" "pool_ok sha p" "good sha p d" "p d = Some dir" "name_ok name"
    and child: "map_of (children dir) name = Some c0" "pool_ok sha p1" "pool_le p p1"
      "\<And>q. list_all name_ok q \<Longrightarrow> q \<noteq> segs \<Longrightarrow> trie_map p c0 q = None"
    and nd: "nd = \<lparr>children = AList.delete name (children dir), self = self dir\<rparr>"
  shows "updated sha p d (p1(nodeHash sha nd \<mapsto> nd)) (nodeHash sha nd) (name # segs) None"
    and "children nd = [] \<Longrightarrow> self dir = None \<Longrightarrow> list_all name_ok q \<Longrightarrow> q \<noteq> name # segs \<Longrightarrow> trie_map p d q = None"
proof -
  let ?p = "p1(nodeHash sha nd \<mapsto> nd)" and ?h = "nodeHash sha nd"
  have wf: "node_wf nd"
    using assms(2,4) by (simp add: pool_ok_def node_wf_delete nd)
  note p = pool_insert [OF assms(1) child(2) wf]
  have le: "pool_le p ?p" using child(3) p(2) by (rule pool_le_trans)
  note kids = good_child [OF assms(3,4)]
  have nd_kids: "map_of (children nd) n = (if n = name then None else map_of (children dir) n)" for n
    by (simp add: nd)
  have "good sha ?p ?h"
    using kids good_le [OF _ le] by (intro good.good [of ?p ?h nd]) (auto simp: nd_kids split: if_splits)
  moreover have "trie_map ?p ?h q = (if q = name # segs then None else trie_map p d q)" if "list_all name_ok q" for q
  proof (cases q)
    case Nil
    then show ?thesis using assms(4) by (simp add: trie_map_Nil nd)
  next
    case (Cons n r)
    have "trie_map ?p ?h q = (if n = name then None else
        case map_of (children dir) n of None \<Rightarrow> None | Some x \<Rightarrow> trie_map ?p x r)"
      using trie_map_Cons [OF p(1), of ?h nd n r] that Cons by (simp add: nd_kids)
    then show ?thesis
      using Cons that child(1,4) assms(2,4) kids trie_map_le [OF assms(2) p(1) le]
      by (auto simp: trie_map_Cons split: option.splits)
  qed
  ultimately show "updated sha p d ?p ?h (name # segs) None"
    using p le by (simp add: updated_def)
  show "trie_map p d q = None"
    if "children nd = []" "self dir = None" "list_all name_ok q" "q \<noteq> name # segs"
  proof (cases q)
    case Nil
    then show ?thesis using that assms(4) by (simp add: trie_map_Nil)
  next
    case (Cons n r)
    then show ?thesis
      using that child(1,4) assms(2,4) nd_kids [of n]
      by (cases "n = name") (auto simp: trie_map_Cons split: option.split)
  qed
qed

definition removed_at :: "(string \<Rightarrow> string) \<Rightarrow> node_pool \<Rightarrow> string \<Rightarrow> string list \<Rightarrow> bool \<Rightarrow> string option \<Rightarrow> node_pool \<Rightarrow> bool" where
  "removed_at sha p d segs at_root r p' \<longleftrightarrow> pool_ok sha p' \<and> pool_le p p' \<and>
     (case r of
        None \<Rightarrow> \<not> at_root \<and> (\<forall>q. list_all name_ok q \<longrightarrow> q \<noteq> segs \<longrightarrow> trie_map p d q = None)
      | Some h \<Rightarrow> updated sha p d p' h segs None \<and> h \<noteq> [] \<and> CHR 0x00 \<notin> set h
          \<and> (\<not> at_root \<longrightarrow> d \<noteq> EMPTY_ROOT sha \<longrightarrow> h \<noteq> EMPTY_ROOT sha))"

lemma removed_unchanged:
  assumes "collision_free sha" "pool_ok sha p" "good sha p d" "pool_ok sha p'" "pool_le p p'"
    and "list_all name_ok segs" "trie_map p d segs = None"
  shows "removed_at sha p d segs at_root (Some d) p'"
proof -
  obtain dir where "p d = Some dir" using assms(3) by (auto elim: good_cases)
  then have "d \<noteq> [] \<and> CHR 0x00 \<notin> set d"
    using assms(2) nodeHash_clean [OF assms(1), of dir] by (auto simp: pool_ok_def)
  then show ?thesis
    using assms good_le [OF assms(3,5)] trie_map_le [OF assms(2,4,5,3)]
    by (auto simp: removed_at_def updated_def)
qed

lemma removed_drop:
  assumes "collision_free sha" "pool_ok sha p" "good sha p d" "p d = Some dir" "name_ok name"
    and "map_of (children dir) name = Some c0" "pool_ok sha p1" "pool_le p p1"
    and "\<And>q. list_all name_ok q \<Longrightarrow> q \<noteq> segs \<Longrightarrow> trie_map p c0 q = None"
    and nd: "nd = \<lparr>children = AList.delete name (children dir), self = self dir\<rparr>"
  shows "if children nd = [] \<and> self dir = None \<and> \<not> at_root then removed_at sha p d (name # segs) at_root None p1
    else removed_at sha p d (name # segs) at_root (Some (nodeHash sha nd)) (p1(nodeHash sha nd \<mapsto> nd))"
proof -
  have wf: "node_wf nd"
    using assms(2,4) by (simp add: pool_ok_def node_wf_delete nd)
  note dc = drop_child [OF assms(1-9) nd]
  have "self nd = self dir" by (simp add: nd)
  then show ?thesis
    using dc assms(7,8) nodeHash_clean [OF assms(1), of nd] EMPTY_ROOT_iff [OF assms(1) wf]
    by (auto simp: removed_at_def updated_def)
qed

lemma removed_put:
  assumes "collision_free sha" "pool_ok sha p" "good sha p d" "p d = Some dir" "name_ok name"
    and "map_of (children dir) name = Some c0" "updated sha p c0 p1 c segs None"
    and "c \<noteq> EMPTY_ROOT sha" "c \<noteq> []" "CHR 0x00 \<notin> set c"
    and nd: "nd = \<lparr>children = AList.update name c (children dir), self = self dir\<rparr>"
  shows "removed_at sha p d (name # segs) at_root (Some (nodeHash sha nd)) (p1(nodeHash sha nd \<mapsto> nd))"
  using put_child [OF assms(1-5,7-10) _ nd] assms(6) nodeHash_clean [OF assms(1), of nd]
  by (simp add: removed_at_def updated_def)

lemma trie_remove_at_spec:
  assumes "collision_free sha" "pool_ok sha p" "good sha p d" "segs \<noteq> []" "list_all name_ok segs"
  shows "\<exists>r p'. trie_remove_at sha p d segs at_root = Inr (r, p') \<and> removed_at sha p d segs at_root r p'"
  using assms(3-5)
proof (induction segs arbitrary: d at_root)
  case Nil
  then show ?case by simp
next
  case (Cons name segs)
  obtain dir where dir: "p d = Some dir" using Cons.prems(1) by (auto elim: good_cases)
  have ok: "name_ok name" "list_all name_ok segs" using Cons.prems(3) by auto
  note unchanged = removed_unchanged [OF assms(1,2) Cons.prems(1) _ _ Cons.prems(3)]
  show ?case
  proof (cases "map_of (children dir) name")
    case None
    then show ?thesis
      using dir ok unchanged [OF assms(2)] trie_map_Cons [OF assms(2) dir ok(1)] by (simp add: lookupNode_def)
  next
    case (Some c0)
    note child = good_child [OF Cons.prems(1) dir Some]
    then obtain cn where cn: "p c0 = Some cn" by (auto elim: good_cases)
    have c0: "c0 \<noteq> []" using assms(2) dir Some by (auto simp: pool_ok_def dest: node_wf_child)
    have at: "trie_map p d (name # q) = trie_map p c0 q" for q
      using trie_map_Cons [OF assms(2) dir ok(1)] Some by simp
    note drop = removed_drop [OF assms(1,2) Cons.prems(1) dir ok(1) Some]
    note put = removed_put [OF assms(1,2) Cons.prems(1) dir ok(1) Some]
    show ?thesis
    proof (cases "segs = []")
      case True
      show ?thesis
      proof (cases "self cn = None \<or> children cn = []")
        case True
        have "trie_map p c0 q = None" if "children cn = []" "list_all name_ok q" "q \<noteq> []" for q
          using that cn assms(2) by (cases q) (auto simp: trie_map_Cons)
        then show ?thesis
          using True \<open>segs = []\<close> dir ok Some c0 cn at [of "[]"] unchanged [OF assms(2)]
            drop [OF assms(2) pool_le_refl _ refl, of segs at_root]
          by (auto simp: lookupNode_def trie_map_Nil Let_def split: if_splits)
      next
        case False
        define nx where "nx = \<lparr>children = children cn, self = None\<rparr>"
        have wf: "node_wf nx" using assms(2) cn by (simp add: pool_ok_def nx_def node_wf_def)
        have "nodeHash sha nx \<noteq> EMPTY_ROOT sha"
          using EMPTY_ROOT_iff [OF assms(1) wf] False by (simp add: nx_def)
        then show ?thesis
          using put [OF put_self [OF assms(1,2) _ cn nx_def, simplified] _ _ _ refl] child False
            nodeHash_clean [OF assms(1), of nx] \<open>segs = []\<close> dir ok Some c0 cn
          by (auto simp: lookupNode_def Let_def nx_def)
      qed
    next
      case False
      then obtain r p1 where r: "trie_remove_at sha p c0 segs False = Inr (r, p1)" "removed_at sha p c0 segs False r p1"
        using Cons.IH [of c0 False] child ok by blast
      then have p1: "pool_ok sha p1" "pool_le p p1" by (auto simp: removed_at_def)
      consider "r = Some c0" | "r = None" | c where "r = Some c" "c \<noteq> c0" by blast
      then show ?thesis
      proof cases
        case 1
        then have "trie_map p c0 segs = None"
          using r(2) ok trie_map_le [OF assms(2) p1] child by (auto simp: removed_at_def updated_def)
        then show ?thesis
          using 1 r False dir ok Some c0 unchanged [OF p1] at by (simp add: lookupNode_def)
      next
        case 2
        then show ?thesis
          using r False dir ok Some c0 drop [OF p1 _ refl, of segs at_root]
          by (auto simp: lookupNode_def removed_at_def Let_def split: if_splits)
      next
        case 3
        then show ?thesis
          using r False dir ok Some c0 child put [of p1 c segs _ at_root]
          by (auto simp: lookupNode_def removed_at_def Let_def)
      qed
    qed
  qed
qed

section \<open>Tries as maps\<close>

definition trie_ok :: "(string \<Rightarrow> string) \<Rightarrow> StateTrie \<Rightarrow> bool" where
  "trie_ok sha t \<longleftrightarrow> collision_free sha \<and> pool_ok sha (nodes t) \<and> good sha (nodes t) (root t)"

definition trie_content :: "StateTrie \<Rightarrow> string list \<Rightarrow> RecoveryState option" where
  "trie_content t q = (if list_all name_ok q then trie_map (nodes t) (root t) q else None)"

definition path_ok :: "string \<Rightarrow> bool" where
  "path_ok path \<longleftrightarrow> path_segments path \<noteq> [] \<and> list_all name_ok (path_segments path)"

lemma empty_trie:
  assumes "collision_free sha"
  shows "trie_ok sha (EMPTY_STATE_TRIE sha)" "trie_content (EMPTY_STATE_TRIE sha) = Map.empty"
proof -
  have p: "pool_ok sha [EMPTY_ROOT sha \<mapsto> EMPTY_NODE]"
    by (simp add: pool_ok_def EMPTY_ROOT_def)
  note e = empty_root_node [OF assms p, of EMPTY_NODE]
  show "trie_ok sha (EMPTY_STATE_TRIE sha)" "trie_content (EMPTY_STATE_TRIE sha) = Map.empty"
    using assms p e by (auto simp: trie_ok_def trie_content_def EMPTY_STATE_TRIE_def fun_eq_iff)
qed

lemma trieGet_content:
  assumes "trie_ok sha t" "list_all name_ok (path_segments path)"
  shows "\<exists>r. trieGet t path = Inr r \<and> map_option portable r = trie_content t (path_segments path)"
  using assms walk_total [of sha "nodes t" "root t" "path_segments path"]
  by (auto simp: trie_ok_def trieGet_def trie_content_def trie_map_def split: option.split)

lemma updated_content:
  assumes "updated sha p d p' h segs v" "good sha (nodes t) (root t)" "pool_ok sha (nodes t)" "collision_free sha"
    and "pool_ok sha p" "pool_le (nodes t) p" "root t = d" "list_all name_ok segs"
  shows "trie_ok sha \<lparr>root = h, nodes = p'\<rparr>" "trie_content \<lparr>root = h, nodes = p'\<rparr> = (trie_content t)(segs := v)"
  using assms trie_map_le [OF assms(3,5,6,2)]
  by (auto simp: trie_ok_def trie_content_def updated_def fun_eq_iff)

lemma trieSet_content:
  assumes "trie_ok sha t" "path_ok path"
  shows "\<exists>t'. trieSet sha path s t = Inr t' \<and> trie_ok sha t'
    \<and> trie_content t' = (trie_content t)(path_segments path \<mapsto> portable s)"
proof -
  let ?segs = "path_segments path" and ?p = "with_empty_node sha (nodes t)"
  have t: "collision_free sha" "pool_ok sha (nodes t)" "good sha (nodes t) (root t)" and segs: "?segs \<noteq> []" "list_all name_ok ?segs"
    using assms by (auto simp: trie_ok_def path_ok_def)
  obtain r where r: "trieGet t path = Inr r" "map_option portable r = trie_content t ?segs"
    using trieGet_content [OF assms(1) segs(2)] by blast
  show ?thesis
  proof (cases "case r of None \<Rightarrow> False | Some e \<Rightarrow> stateIdentity e = stateIdentity s")
    case True
    then have "trie_content t ?segs = Some (portable s)"
      using r by (auto simp: stateIdentity_eq_iff split: option.splits)
    then show ?thesis
      using True r segs assms(1) by (auto simp: trieSet_def Let_def)
  next
    case False
    note w = with_empty_node_props [OF t(1,2)]
    obtain h p' where "trie_set_at sha s ?p (root t) ?segs = Inr (h, p')"
      "updated sha ?p (root t) p' h ?segs (Some (portable s))"
      using trie_set_at_spec [OF t(1) w(1) good_le [OF t(3) w(2)] _ segs] w(3) by force
    then show ?thesis
      using False r segs updated_content [OF _ t(3,2,1) w(1,2) refl segs(2)] by (auto simp: trieSet_def Let_def)
  qed
qed

lemma trieRemove_content:
  assumes "trie_ok sha t" "path_ok path"
  shows "\<exists>t'. trieRemove sha path t = Inr t' \<and> trie_ok sha t' \<and> trie_content t' = (trie_content t)(path_segments path := None)"
proof -
  let ?segs = "path_segments path"
  have t: "collision_free sha" "pool_ok sha (nodes t)" "good sha (nodes t) (root t)" and segs: "?segs \<noteq> []" "list_all name_ok ?segs"
    using assms by (auto simp: trie_ok_def path_ok_def)
  obtain r where r: "trieGet t path = Inr r" "map_option portable r = trie_content t ?segs"
    using trieGet_content [OF assms(1) segs(2)] by blast
  show ?thesis
  proof (cases "r = None")
    case True
    then have "trie_content t = (trie_content t)(?segs := None)"
      using r(2) by (auto simp: fun_eq_iff)
    then show ?thesis
      using True r segs assms(1) by (auto simp: trieRemove_def Let_def)
  next
    case False
    obtain h p' where rm: "trie_remove_at sha (nodes t) (root t) ?segs True = Inr (Some h, p')"
      "updated sha (nodes t) (root t) p' h ?segs None"
      using trie_remove_at_spec [OF t segs, of True] by (fastforce simp: removed_at_def split: option.splits)
    then have p': "pool_ok sha p'" by (simp add: updated_def)
    note w = with_empty_node_props [OF t(1) p']
    have "updated sha (nodes t) (root t) (with_empty_node sha p') h ?segs None"
      using rm(2) w good_le [of sha p' h] trie_map_le [OF p' w(1,2)] pool_le_trans [OF _ w(2)]
      by (auto simp: updated_def)
    then show ?thesis
      using False r segs rm(1) updated_content [OF _ t(3,2,1,2) pool_le_refl refl segs(2)]
      by (auto simp: trieRemove_def Let_def)
  qed
qed

lemma good_nonempty:
  assumes "collision_free sha" "pool_ok sha p" "good sha p h" "h \<noteq> EMPTY_ROOT sha"
  shows "\<exists>q. list_all name_ok q \<and> trie_map p h q \<noteq> None"
  using assms(3,4)
proof (induction rule: good.induct)
  case (good h node)
  have node: "node_wf node" "nodeHash sha node = h" using assms(2) good.hyps by (auto simp: pool_ok_def)
  show ?case
  proof (cases "self node")
    case (Some s)
    then show ?thesis using good.hyps by (intro exI [of _ "[]"]) (simp add: trie_map_Nil)
  next
    case None
    then have "children node \<noteq> []"
      using good.prems EMPTY_ROOT_iff [OF assms(1) node(1)] node(2) by simp
    then have "map_of (children node) (fst (hd (children node))) = Some (snd (hd (children node)))"
      by (cases "children node") auto
    then obtain name c where c: "map_of (children node) name = Some c" by blast
    then obtain q where "list_all name_ok q" "trie_map p c q \<noteq> None"
      using good.IH by blast
    then show ?thesis
      using node_wf_child [OF node(1) c] c good.hyps trie_map_Cons [OF assms(2)]
      by (intro exI [of _ "name # q"]) simp
  qed
qed

lemma same_root_same_map:
  assumes "collision_free sha" "pool_ok sha p" "pool_ok sha p'" "good sha p h" "good sha p' h" "list_all name_ok q"
  shows "trie_map p h q = trie_map p' h q"
  using assms(4-6)
proof (induction q arbitrary: h)
  case Nil
  then obtain a b where "p h = Some a" "p' h = Some b" by (auto elim!: good_cases)
  then show ?case
    using assms(2,3) node_hash_view [OF assms(1), of a b] by (simp add: trie_map_Nil pool_ok_def view_def)
next
  case (Cons name q)
  then obtain a b where ab: "p h = Some a" "p' h = Some b" by (auto elim!: good_cases)
  then have "map_of (children a) = map_of (children b)"
    using assms(2,3) node_hash_view [OF assms(1), of a b] by (simp add: pool_ok_def view_def)
  then show ?case
    using Cons ab good_child [OF Cons.prems(1) ab(1)] good_child [OF Cons.prems(2) ab(2)]
    by (auto simp: trie_map_Cons [OF assms(2)] trie_map_Cons [OF assms(3)] split: option.split)
qed

lemma same_map_same_root:
  assumes "collision_free sha" "pool_ok sha p" "pool_ok sha p'" "good sha p h" "good sha p' h'"
    and "\<And>q. list_all name_ok q \<Longrightarrow> trie_map p h q = trie_map p' h' q"
  shows "h = h'"
  using assms(4-6)
proof (induction arbitrary: h' rule: good.induct)
  case (good h a)
  obtain b where b: "p' h' = Some b" using good.prems(1) by (auto elim: good_cases)
  have wf: "node_wf a" "node_wf b" "nodeHash sha a = h" "nodeHash sha b = h'"
    using assms(2,3) good.hyps b by (auto simp: pool_ok_def)
  have at: "(case map_of (children a) n of None \<Rightarrow> None | Some c \<Rightarrow> trie_map p c q) =
      (case map_of (children b) n of None \<Rightarrow> None | Some c \<Rightarrow> trie_map p' c q)"
    if "name_ok n" "list_all name_ok q" for n q
    using good.prems(2) [of "n # q"] that good.hyps b
    by (simp add: trie_map_Cons [OF assms(2)] trie_map_Cons [OF assms(3)])
  have "map_of (children a) n = map_of (children b) n" for n
  proof (cases "map_of (children a) n")
    case None
    have False if c: "map_of (children b) n = Some c" for c
    proof -
      obtain q where "list_all name_ok q" "trie_map p' c q \<noteq> None"
        using good_nonempty [OF assms(1,3)] good_child [OF good.prems(1) b c] by blast
      then show False using at [of n q] None c node_wf_child [OF wf(2) c] by simp
    qed
    with None show ?thesis by (cases "map_of (children b) n") auto
  next
    case (Some c)
    then have c: "good sha p c" "c \<noteq> EMPTY_ROOT sha" "name_ok n" using good.IH node_wf_child [OF wf(1)] by blast+
    obtain q where q: "list_all name_ok q" "trie_map p c q \<noteq> None"
      using good_nonempty [OF assms(1,2) c(1,2)] by blast
    then obtain c' where c': "map_of (children b) n = Some c'"
      using at [OF c(3) q(1)] Some by (cases "map_of (children b) n") auto
    then have "c = c'"
      using good.IH [OF Some] good_child [OF good.prems(1) b c'] at [OF c(3)] Some by auto
    with Some c' show ?thesis by simp
  qed
  moreover have "map_option portable (self a) = map_option portable (self b)"
    using good.prems(2) [of "[]"] good.hyps b by (simp add: trie_map_Nil)
  ultimately have "view a = view b" by (auto simp: view_def)
  then show ?case using node_hash_view [OF assms(1) wf(1,2)] wf(3,4) by simp
qed

section \<open>Building bottom-up\<close>

fun build_map :: "BuildNode \<Rightarrow> string list \<Rightarrow> RecoveryState option" where
  "build_map b [] = build_self b"
| "build_map b (n # q) = (case map_of (build_kids b) n of None \<Rightarrow> None | Some c \<Rightarrow> build_map c q)"

definition build_empty :: "BuildNode \<Rightarrow> bool" where
  "build_empty b \<longleftrightarrow> build_kids b = [] \<and> build_self b = None"

inductive build_ok :: "BuildNode \<Rightarrow> bool" where
  build_ok: "distinct (map fst (build_kids b)) \<Longrightarrow>
    (\<And>n c. (n, c) \<in> set (build_kids b) \<Longrightarrow> name_ok n \<and> build_ok c \<and> \<not> build_empty c) \<Longrightarrow> build_ok b"

lemma build_ok_kid: "build_ok b \<Longrightarrow> map_of (build_kids b) n = Some c \<Longrightarrow> name_ok n \<and> build_ok c \<and> \<not> build_empty c"
  by (erule build_ok.cases) (auto dest: map_of_SomeD)

lemma build_ok_update:
  assumes "build_ok b" "name_ok n" "build_ok c" "\<not> build_empty c"
  shows "build_ok (BuildNode (AList.update n c (build_kids b)) s)"
proof -
  have d: "distinct (map fst (build_kids b))" using assms(1) by (auto elim: build_ok.cases)
  show ?thesis
  proof (rule build_ok)
    show "distinct (map fst (build_kids (BuildNode (AList.update n c (build_kids b)) s)))" using d by simp
    fix m x assume "(m, x) \<in> set (build_kids (BuildNode (AList.update n c (build_kids b)) s))"
    then have "map_of (AList.update n c (build_kids b)) m = Some x"
      using d by (intro map_of_is_SomeI) simp_all
    then show "name_ok m \<and> build_ok x \<and> \<not> build_empty x"
      using assms build_ok_kid [OF assms(1)] by (auto split: if_splits)
  qed
qed

lemma build_ok_leaf [simp]: "build_ok (BuildNode [] None)"
  by (rule build_ok) auto

lemma build_ok_self: "build_ok b \<Longrightarrow> build_ok (BuildNode (build_kids b) s)"
  by (erule build_ok.cases) (auto intro: build_ok)

lemma build_map_self: "build_map (BuildNode (build_kids b) s) q = (if q = [] then s else build_map b q)"
  by (cases q) auto

lemma build_insert_props:
  assumes "build_ok b" "segs \<noteq> []" "list_all name_ok segs"
  shows "build_ok (build_insert s segs b) \<and> \<not> build_empty (build_insert s segs b)
    \<and> build_map (build_insert s segs b) = (build_map b)(segs \<mapsto> s)"
  using assms
proof (induction segs arbitrary: b)
  case Nil
  then show ?case by simp
next
  case (Cons n segs)
  define c where "c = (case map_of (build_kids b) n of None \<Rightarrow> BuildNode [] None | Some c \<Rightarrow> c)"
  define c' where "c' = (if segs = [] then BuildNode (build_kids c) (Some s) else build_insert s segs c)"
  have "build_ok c" using build_ok_kid [OF Cons.prems(1)] by (auto simp: c_def split: option.split)
  then have c': "build_ok c' \<and> \<not> build_empty c' \<and> build_map c' = (build_map c)(segs \<mapsto> s)"
    using Cons.IH [of c] Cons.prems(3)
    by (auto simp: c'_def build_ok_self build_empty_def fun_eq_iff build_map_self)
  have eq: "build_insert s (n # segs) b = BuildNode (AList.update n c' (build_kids b)) (build_self b)"
    by (simp add: c'_def c_def Let_def)
  have none: "build_map (BuildNode [] None) q = None" for q
    by (cases q) auto
  have "build_map (build_insert s (n # segs) b) q = ((build_map b)(n # segs \<mapsto> s)) q" for q
    using c' none by (cases q) (auto simp: eq c_def simp del: build_insert.simps split: option.splits)
  then show ?case
    using c' Cons.prems build_ok_update [OF Cons.prems(1), of n c' "build_self b"]
    by (auto simp: eq build_empty_def fun_eq_iff simp del: build_insert.simps)
qed

definition hashed :: "(string \<Rightarrow> string) \<Rightarrow> node_pool \<Rightarrow> BuildNode \<Rightarrow> string \<Rightarrow> bool" where
  "hashed sha p b h \<longleftrightarrow> good sha p h \<and> h \<noteq> [] \<and> CHR 0x00 \<notin> set h \<and> (\<not> build_empty b \<longrightarrow> h \<noteq> EMPTY_ROOT sha)
     \<and> (\<forall>q. list_all name_ok q \<longrightarrow> trie_map p h q = map_option portable (build_map b q))"

lemma hashed_le: "hashed sha p b h \<Longrightarrow> pool_ok sha p \<Longrightarrow> pool_ok sha p' \<Longrightarrow> pool_le p p' \<Longrightarrow> hashed sha p' b h"
  using good_le [of sha p h p'] trie_map_le [of sha p p' h] by (simp add: hashed_def)

lemma hashed_at: "hashed sha p b h \<Longrightarrow> list_all name_ok q \<Longrightarrow> trie_map p h q = map_option portable (build_map b q)"
  by (simp add: hashed_def)

lemma hash_build_spec:
  "collision_free sha \<Longrightarrow> pool_ok sha p \<Longrightarrow> build_ok b \<Longrightarrow>
     (case hashBuildNode sha b p of (h, p') \<Rightarrow> pool_ok sha p' \<and> pool_le p p' \<and> hashed sha p' b h)"
  "collision_free sha \<Longrightarrow> pool_ok sha p \<Longrightarrow> distinct (map fst kids) \<Longrightarrow>
     (\<And>n c. (n, c) \<in> set kids \<Longrightarrow> name_ok n \<and> build_ok c \<and> \<not> build_empty c) \<Longrightarrow>
     (case hash_kids sha kids p of (hs, p') \<Rightarrow> pool_ok sha p' \<and> pool_le p p' \<and> map fst hs = map fst kids
        \<and> (\<forall>n. rel_option (hashed sha p') (map_of kids n) (map_of hs n)))"
proof (induction sha b p and sha kids p rule: hashBuildNode_hash_kids.induct)
  case (1 sha kids s p)
  have kids: "distinct (map fst kids)" "\<And>n c. (n, c) \<in> set kids \<Longrightarrow> name_ok n \<and> build_ok c \<and> \<not> build_empty c"
    using "1.prems"(3) by (auto elim: build_ok.cases)
  obtain hs p1 where hk: "hash_kids sha kids p = (hs, p1)" by force
  have h1: "pool_ok sha p1" "pool_le p p1" "map fst hs = map fst kids"
      "\<And>n. rel_option (hashed sha p1) (map_of kids n) (map_of hs n)"
    using "1.IH" [OF "1.prems"(1,2) kids] hk by auto
  define nd where "nd = \<lparr>children = hs, self = s\<rparr>"
  have kid: "\<exists>c. map_of kids n = Some c \<and> name_ok n \<and> \<not> build_empty c \<and> hashed sha p1 c x" if "map_of hs n = Some x" for n x
    using that h1(4) [of n] kids(2) by (cases "map_of kids n") (auto dest: map_of_SomeD)
  have wf: "node_wf nd"
    using h1(3) kids(1) kid by (fastforce simp: nd_def node_wf_iff hashed_def)
  let ?h = "nodeHash sha nd" and ?p = "p1(nodeHash sha nd \<mapsto> nd)"
  note p = pool_insert [OF "1.prems"(1) h1(1) wf]
  have at: "map_option portable (build_map (BuildNode kids s) q) = trie_map ?p ?h q" if "list_all name_ok q" for q
  proof (cases q)
    case Nil
    then show ?thesis by (simp add: trie_map_Nil nd_def)
  next
    case (Cons n r)
    then show ?thesis
      using that h1(4) [of n] trie_map_Cons [OF p(1), of ?h nd n r] hashed_at [OF hashed_le [OF _ h1(1) p]]
      by (cases "map_of kids n"; cases "map_of hs n") (simp_all add: nd_def)
  qed
  have good: "good sha ?p ?h"
  proof (rule good.good [of ?p ?h nd])
    fix n x assume "map_of (children nd) n = Some x"
    then show "good sha ?p x \<and> x \<noteq> EMPTY_ROOT sha"
      using kid [of n x] hashed_le [OF _ h1(1) p] by (auto simp: nd_def hashed_def)
  qed simp
  have "kids = [] \<longleftrightarrow> hs = []" using h1(3) by (metis map_is_Nil_conv)
  then have "hashed sha ?p (BuildNode kids s) ?h"
    using good at nodeHash_clean [OF "1.prems"(1), of nd] EMPTY_ROOT_iff [OF "1.prems"(1) wf]
    by (simp add: hashed_def build_empty_def nd_def)
  then show ?case
    using hk p pool_le_trans [OF h1(2) p(2)] by (simp add: nd_def Let_def)
next
  case (2 sha p)
  then show ?case by simp
next
  case (3 sha n c kids p)
  obtain h p1 where b: "hashBuildNode sha c p = (h, p1)" by force
  have c: "name_ok n" "build_ok c" "\<not> build_empty c" using "3.prems"(4) by auto
  then have h: "pool_ok sha p1" "pool_le p p1" "hashed sha p1 c h"
    using "3.IH"(1) [OF "3.prems"(1,2)] b by auto
  obtain hs p2 where hk: "hash_kids sha kids p1 = (hs, p2)" by force
  have k: "pool_ok sha p2" "pool_le p1 p2" "map fst hs = map fst kids"
      "\<And>m. rel_option (hashed sha p2) (map_of kids m) (map_of hs m)"
    using "3.IH"(2) [OF b [symmetric] refl "3.prems"(1) h(1)] "3.prems"(3,4) hk by auto
  have "n \<noteq> ''__proto__''" using c(1) by (auto simp: name_ok_def object_prototype_names_def)
  then show ?case
    using b hk k h pool_le_trans [OF h(2) k(2)] hashed_le [OF h(3,1) k(1,2)] by simp
qed

section \<open>The contract of a content-addressed map\<close>

text \<open>
  A map whose operations may throw: \<open>put\<close> and \<open>drop_key\<close> succeed on valid keys of a valid map and change it at
  that key only. In a canonical map the identity determines the content and the content the identity.
\<close>

fun put_each :: "('k \<Rightarrow> 's \<Rightarrow> 'm \<Rightarrow> ('e, 'm) outcome) \<Rightarrow> ('k \<times> 's) list \<Rightarrow> 'm \<Rightarrow> ('e, 'm) outcome" where
  "put_each put [] m = Inr m"
| "put_each put ((k, s) # es) m = obind (put k s m) (put_each put es)"

locale path_map =
  fixes inv :: "'m \<Rightarrow> bool"
    and content :: "'m \<Rightarrow> 'q \<Rightarrow> 'v option"
    and key :: "'k \<Rightarrow> 'q"
    and key_ok :: "'k \<Rightarrow> bool"
    and stored :: "'s \<Rightarrow> 'v"
    and put :: "'k \<Rightarrow> 's \<Rightarrow> 'm \<Rightarrow> ('e, 'm) outcome"
    and erase :: "'k \<Rightarrow> 'm \<Rightarrow> ('e, 'm) outcome"
  assumes put_law: "inv m \<Longrightarrow> key_ok k \<Longrightarrow> \<exists>m'. put k s m = Inr m' \<and> inv m' \<and> content m' = (content m)(key k \<mapsto> stored s)"
    and erase_law: "inv m \<Longrightarrow> key_ok k \<Longrightarrow> \<exists>m'. erase k m = Inr m' \<and> inv m' \<and> content m' = (content m)(key k := None)"
begin

lemma put_each_content:
  "inv m \<Longrightarrow> \<forall>(k, s) \<in> set es. key_ok k \<Longrightarrow>
   \<exists>m'. put_each put es m = Inr m' \<and> inv m'
     \<and> content m' = content m ++ map_of (rev (map (\<lambda>(k, s). (key k, stored s)) es))"
proof (induction es arbitrary: m)
  case Nil
  then show ?case by simp
next
  case (Cons e es)
  obtain k s where e: "e = (k, s)" by force
  obtain m1 where m1: "put k s m = Inr m1" "inv m1" "content m1 = (content m)(key k \<mapsto> stored s)"
    using put_law [OF Cons.prems(1), of k s] Cons.prems(2) e by auto
  moreover have "\<forall>(k, s) \<in> set es. key_ok k" using Cons.prems(2) by simp
  ultimately obtain m' where "put_each put es m1 = Inr m'" "inv m'"
      "content m' = content m1 ++ map_of (rev (map (\<lambda>(k, s). (key k, stored s)) es))"
    using Cons.IH [OF m1(2)] by blast
  with m1 e show ?case by (simp add: map_add_upd_left map_add_def fun_eq_iff split: option.split)
qed

end

locale canonical_map = path_map inv content key key_ok stored put erase
  for inv :: "'m \<Rightarrow> bool" and content :: "'m \<Rightarrow> 'q \<Rightarrow> 'v option" and key :: "'k \<Rightarrow> 'q" and key_ok :: "'k \<Rightarrow> bool"
    and stored :: "'s \<Rightarrow> 'v" and put :: "'k \<Rightarrow> 's \<Rightarrow> 'm \<Rightarrow> ('e, 'm) outcome" and erase :: "'k \<Rightarrow> 'm \<Rightarrow> ('e, 'm) outcome" +
  fixes identity :: "'m \<Rightarrow> 'h"
  assumes identity_law: "inv m \<Longrightarrow> inv m' \<Longrightarrow> identity m = identity m' \<longleftrightarrow> content m = content m'"
begin

lemma put_commute:
  assumes "inv m" "key_ok k" "key_ok k'" "key k \<noteq> key k'"
  shows "\<exists>a b. obind (put k s m) (put k' s') = Inr a \<and> obind (put k' s' m) (put k s) = Inr b
    \<and> inv a \<and> inv b \<and> identity a = identity b"
proof -
  obtain x y where x: "put k s m = Inr x" "inv x" "content x = (content m)(key k \<mapsto> stored s)"
      and y: "put k' s' m = Inr y" "inv y" "content y = (content m)(key k' \<mapsto> stored s')"
    using put_law assms(1-3) by metis
  obtain a b where "put k' s' x = Inr a" "inv a" "content a = (content x)(key k' \<mapsto> stored s')"
      and "put k s y = Inr b" "inv b" "content b = (content y)(key k \<mapsto> stored s)"
    using put_law x(2) y(2) assms(2,3) by metis
  then show ?thesis
    using x y assms(4) by (auto simp: identity_law fun_upd_twist)
qed

lemma put_erase:
  assumes "inv m" "key_ok k" "content m (key k) = None"
  shows "\<exists>a. obind (put k s m) (erase k) = Inr a \<and> inv a \<and> identity a = identity m"
proof -
  obtain x where x: "put k s m = Inr x" "inv x" "content x = (content m)(key k \<mapsto> stored s)"
    using put_law assms(1,2) by metis
  then obtain a where a: "erase k x = Inr a" "inv a" "content a = (content x)(key k := None)"
    using erase_law assms(2) by metis
  have "content a = content m" using a x assms(3) by (auto simp: fun_eq_iff)
  then show ?thesis using x a assms(1) by (auto simp: identity_law)
qed

end

lemma trie_root_content:
  assumes "trie_ok sha a" "trie_ok sha b"
  shows "root a = root b \<longleftrightarrow> trie_content a = trie_content b"
proof
  assume "root a = root b"
  then show "trie_content a = trie_content b"
    using assms same_root_same_map [of sha "nodes a" "nodes b" "root a"]
    by (auto simp: trie_ok_def trie_content_def fun_eq_iff)
next
  assume "trie_content a = trie_content b"
  then show "root a = root b"
    using assms by (intro same_map_same_root [of sha "nodes a" "nodes b"])
      (auto simp: trie_ok_def trie_content_def fun_eq_iff split: if_splits)
qed

interpretation state_trie: canonical_map "trie_ok sha" trie_content path_segments path_ok portable "trieSet sha" "trieRemove sha" root
  for sha
  by unfold_locales (auto intro: trieSet_content trieRemove_content simp: trie_root_content)

lemma map_of_rev_image:
  "map_option f (map_of (rev (map (\<lambda>x. (k x, v x)) xs)) q) = map_of (rev (map (\<lambda>x. (k x, f (v x))) xs)) q"
proof -
  have "rev (map (\<lambda>x. (k x, f (v x))) xs) = map (\<lambda>(a, b). (a, f b)) (rev (map (\<lambda>x. (k x, v x)) xs))"
    by (simp add: rev_map o_def)
  then show ?thesis by (simp add: map_of_map)
qed

lemma build_all:
  assumes "\<forall>(path, s) \<in> set es. path_ok path" "build_ok b"
  shows "build_ok (fold (\<lambda>(path, state). build_insert state (path_segments path)) es b)
    \<and> build_map (fold (\<lambda>(path, state). build_insert state (path_segments path)) es b)
        = build_map b ++ map_of (rev (map (\<lambda>(path, s). (path_segments path, s)) es))"
  using assms
proof (induction es arbitrary: b)
  case Nil
  then show ?case by simp
next
  case (Cons e es)
  obtain path s where e: "e = (path, s)" by force
  have i: "build_ok (build_insert s (path_segments path) b)
      \<and> build_map (build_insert s (path_segments path) b) = (build_map b)(path_segments path \<mapsto> s)"
    using build_insert_props [OF Cons.prems(2)] Cons.prems(1) e by (auto simp: path_ok_def)
  then show ?case
    using Cons.IH [of "build_insert s (path_segments path) b"] Cons.prems(1) e
    by (simp add: map_add_def fun_eq_iff split: option.split)
qed

lemma trieFromEntries_content:
  assumes "collision_free sha" "\<forall>(path, s) \<in> set es. path_ok path"
  shows "trie_ok sha (trieFromEntries sha es)
    \<and> trie_content (trieFromEntries sha es) = map_of (rev (map (\<lambda>(path, s). (path_segments path, portable s)) (sort_key fst es)))"
proof (cases "sort_key fst es = []")
  case True
  then show ?thesis using empty_trie [OF assms(1)] by (simp add: trieFromEntries_def)
next
  case False
  let ?es = "sort_key fst es"
  define b where "b = fold (\<lambda>(path, state). build_insert state (path_segments path)) ?es (BuildNode [] None)"
  have none: "build_map (BuildNode [] None) = Map.empty"
    by (rule ext, case_tac x) auto
  have b: "build_ok b" "build_map b = map_of (rev (map (\<lambda>(path, s). (path_segments path, s)) ?es))"
    using build_all [of ?es "BuildNode [] None"] assms(2) none by (auto simp: b_def)
  have p: "pool_ok sha [EMPTY_ROOT sha \<mapsto> EMPTY_NODE]"
    by (simp add: pool_ok_def EMPTY_ROOT_def)
  obtain h p' where hb: "hashBuildNode sha b [EMPTY_ROOT sha \<mapsto> EMPTY_NODE] = (h, p')" by force
  then have h: "pool_ok sha p'" "hashed sha p' b h"
    using hash_build_spec(1) [OF assms(1) p b(1)] by auto
  have t: "trieFromEntries sha es = \<lparr>root = h, nodes = p'\<rparr>"
    using False hb by (simp add: trieFromEntries_def b_def)
  have ok: "build_map b q = None" if "\<not> list_all name_ok q" for q
    using that assms(2) by (auto simp: b(2) map_of_eq_None_iff path_ok_def)
  have "trie_content (trieFromEntries sha es) q = map_option portable (build_map b q)" for q
    using h(2) ok by (auto simp: t trie_content_def hashed_at)
  moreover have "trie_ok sha (trieFromEntries sha es)"
    using assms(1) h by (simp add: t trie_ok_def hashed_def)
  ultimately show ?thesis
    by (simp add: fun_eq_iff b(2) map_of_rev_image split_def)
qed

lemma trieFromEntries_incremental:
  assumes "collision_free sha" "\<forall>(path, s) \<in> set es. path_ok path"
  shows "\<exists>t. put_each (trieSet sha) (sort_key fst es) (EMPTY_STATE_TRIE sha) = Inr t
    \<and> trie_ok sha t \<and> root t = root (trieFromEntries sha es)"
proof -
  have "\<forall>(path, s) \<in> set (sort_key fst es). path_ok path" using assms(2) by simp
  from state_trie.put_each_content [OF empty_trie(1) [OF assms(1)] this]
  show ?thesis
    using empty_trie(2) [OF assms(1)] trieFromEntries_content [OF assms] by (auto simp: trie_root_content)
qed

text \<open>A function with the properties assumed of the digest, for the instances below.\<close>

definition hex_digest :: "string \<Rightarrow> string" where
  "hex_digest s = CHR ''h'' # concat (map (\<lambda>c. [hex_char (of_char c div 16), hex_char (of_char c mod 16)]) s)"

lemma of_char_div_16: "of_char c div 16 < (16 :: nat)"
proof -
  have "of_char c < (256 :: nat)" by (cases c) simp
  then show ?thesis by (simp add: div_less_iff_less_mult)
qed

lemma hex_pair_inject:
  assumes "hex_char (of_char c div 16) = hex_char (of_char d div 16)" "hex_char (of_char c mod 16) = hex_char (of_char d mod 16)"
  shows "c = d"
proof -
  have "of_char c div 16 = (of_char d div 16 :: nat)" "of_char c mod 16 = (of_char d mod 16 :: nat)"
    using assms hex_value_hex_char of_char_div_16 by (metis mod_less_divisor zero_less_numeral)+
  then have "(of_char c :: nat) = of_char d" by (metis div_mult_mod_eq)
  then show ?thesis by simp
qed

lemma collision_free_hex_digest: "collision_free hex_digest"
proof -
  have inj: "hex_digest s = hex_digest t \<Longrightarrow> s = t" for s t
  proof (induction s arbitrary: t)
    case Nil
    then show ?case by (cases t) (auto simp: hex_digest_def)
  next
    case (Cons c s)
    then show ?case by (cases t) (auto simp: hex_digest_def dest: hex_pair_inject)
  qed
  have nul: "CHR 0x00 \<notin> set (hex_digest s)" for s
    by (induction s) (simp_all add: hex_digest_def hex_char_not_nul of_char_div_16)
  have "hex_digest s \<noteq> []" for s by (simp add: hex_digest_def)
  then show ?thesis
    unfolding collision_free_def using nul by (simp add: injI [OF inj])
qed

section \<open>Properties\<close>

text \<open>
  C15. The trie is a map from paths to states: on every valid trie and every path whose segments are ordinary
  names, setting and removing succeed, keep the trie valid, and afterwards a lookup of any such path gives the
  new value at that path and the old one elsewhere, up to the mode of a symbolic link, which is not part of a
  state's identity. Paths with the same segments are the same key.
\<close>

theorem trie_is_path_map:
  assumes "trie_ok sha t" "path_ok path" "path_ok other"
  shows "\<exists>u v a b c. trieSet sha path s t = Inr u \<and> trieRemove sha path t = Inr v \<and> trie_ok sha u \<and> trie_ok sha v
    \<and> trieGet t other = Inr a \<and> trieGet u other = Inr b \<and> trieGet v other = Inr c
    \<and> map_option portable b
        = (if path_segments other = path_segments path then Some (portable s) else map_option portable a)
    \<and> map_option portable c = (if path_segments other = path_segments path then None else map_option portable a)"
proof -
  obtain u where u: "trieSet sha path s t = Inr u" "trie_ok sha u"
      "trie_content u = (trie_content t)(path_segments path \<mapsto> portable s)"
    using trieSet_content [OF assms(1,2)] by blast
  obtain v where v: "trieRemove sha path t = Inr v" "trie_ok sha v"
      "trie_content v = (trie_content t)(path_segments path := None)"
    using trieRemove_content [OF assms(1,2)] by blast
  have o: "list_all name_ok (path_segments other)" using assms(3) by (simp add: path_ok_def)
  show ?thesis
    using trieGet_content [OF assms(1) o] trieGet_content [OF u(2) o] trieGet_content [OF v(2) o] u v by fastforce
qed

theorem trie_is_path_map_witness:
  "\<exists>u v a b c. trieSet hex_digest ''a/b'' Missing (EMPTY_STATE_TRIE hex_digest) = Inr u
    \<and> trieRemove hex_digest ''a/b'' (EMPTY_STATE_TRIE hex_digest) = Inr v \<and> trie_ok hex_digest u \<and> trie_ok hex_digest v
    \<and> trieGet (EMPTY_STATE_TRIE hex_digest) ''a//b'' = Inr a \<and> trieGet u ''a//b'' = Inr b \<and> trieGet v ''a//b'' = Inr c
    \<and> map_option portable b
        = (if path_segments ''a//b'' = path_segments ''a/b'' then Some (portable Missing) else map_option portable a)
    \<and> map_option portable c = (if path_segments ''a//b'' = path_segments ''a/b'' then None else map_option portable a)"
  by (rule trie_is_path_map [OF empty_trie(1) [OF collision_free_hex_digest]])
    (simp_all add: path_ok_def path_segments_def name_ok_def object_prototype_names_def)

text \<open>
  C29. The root hash is the identity of the whole map: two valid tries have the same root exactly when they hold
  the same states, however they were built.
\<close>

theorem trie_root_is_content:
  assumes "trie_ok sha a" "trie_ok sha b"
  shows "trieIdentity a = trieIdentity b \<longleftrightarrow> trie_content a = trie_content b"
  using trie_root_content [OF assms] by (simp add: trieIdentity_def)

theorem trie_root_is_content_witness:
  "trieIdentity (EMPTY_STATE_TRIE hex_digest) = trieIdentity (trieFromEntries hex_digest [(''a'', Missing)])
   \<longleftrightarrow> trie_content (EMPTY_STATE_TRIE hex_digest) = trie_content (trieFromEntries hex_digest [(''a'', Missing)])"
  by (rule trie_root_is_content [OF empty_trie(1) [OF collision_free_hex_digest]])
    (use trieFromEntries_content [OF collision_free_hex_digest, of "[(''a'', Missing)]"] in
      \<open>simp add: path_ok_def path_segments_def name_ok_def object_prototype_names_def\<close>)

text \<open>
  The bulk construction is equivalent to setting the entries one at a time: building a trie bottom-up from a
  list of entries gives a valid trie with the same root as starting from the empty trie and setting the entries
  in the order of their paths, so that of several entries for one path the last one wins.
\<close>

theorem trie_bulk_build_incremental:
  assumes "collision_free sha" "\<forall>(path, s) \<in> set es. path_ok path"
  shows "\<exists>t. put_each (trieSet sha) (sort_key fst es) (EMPTY_STATE_TRIE sha) = Inr t
    \<and> trie_ok sha t \<and> trie_ok sha (trieFromEntries sha es) \<and> root t = root (trieFromEntries sha es)"
  using trieFromEntries_incremental [OF assms] trieFromEntries_content [OF assms] by blast

theorem trie_bulk_build_incremental_witness:
  "\<exists>t. put_each (trieSet hex_digest) (sort_key fst [(''b'', Missing), (''a/b'', Directory None)]) (EMPTY_STATE_TRIE hex_digest) = Inr t
    \<and> trie_ok hex_digest t \<and> trie_ok hex_digest (trieFromEntries hex_digest [(''b'', Missing), (''a/b'', Directory None)])
    \<and> root t = root (trieFromEntries hex_digest [(''b'', Missing), (''a/b'', Directory None)])"
  by (rule trie_bulk_build_incremental [OF collision_free_hex_digest])
    (simp add: path_ok_def path_segments_def name_ok_def object_prototype_names_def)

text \<open>
  Names that every object inherits are not ordinary: setting a path named like a property of
  \<open>Object.prototype\<close>, at the root or in a fresh directory, throws the error of a damaged trie, and the bulk
  construction silently drops an entry named \<open>__proto__\<close>.
\<close>

theorem prototype_names_break_trie:
  "list_all (\<lambda>name. trieSet sha name s (EMPTY_STATE_TRIE sha) = Inl NodeMissing
      \<and> trieSet sha (''src/'' @ name) s (EMPTY_STATE_TRIE sha) = Inl NodeMissing) object_prototype_names
   \<and> root (trieFromEntries sha [(''__proto__'', s)]) = EMPTY_ROOT sha"
  by (simp add: object_prototype_names_def trieSet_def trieGet_def path_segments_def EMPTY_STATE_TRIE_def
      lookupNode_def child_of_def EMPTY_NODE_def EMPTY_ROOT_def with_empty_node_def trieFromEntries_def Let_def)

end
