(* ===== verification/Trie_Walks.thy ===== *)
theory Trie_Walks
  imports Trie_Map
begin

text \<open>
  The recursions over a whole state trie: listing its entries, comparing two tries, and verifying one. Each is
  shown to end for every stack that is deep enough, and its result is characterised on the map the trie stands
  for (\<open>trie_content\<close>) or, for verification, on the pool itself.
\<close>

section \<open>Depth\<close>

lemma common_bound:
  assumes "finite A" "\<And>x. x \<in> A \<Longrightarrow> \<exists>n. \<forall>m \<ge> n. P x m"
  shows "\<exists>n. \<forall>x \<in> A. \<forall>m \<ge> n. P x (m :: nat)"
  using assms
proof (induction A rule: finite_induct)
  case empty
  then show ?case by simp
next
  case (insert a A)
  then obtain n k where "\<forall>x \<in> A. \<forall>m \<ge> n. P x m" "\<forall>m \<ge> k. P a m"
    by (metis insertCI)
  then have "\<forall>x \<in> insert a A. \<forall>m \<ge> max n k. P x m"
    by simp
  then show ?case by blast
qed

lemma ocollect_total:
  assumes "\<And>x. x \<in> set xs \<Longrightarrow> \<exists>y. f x = Inr y \<and> P x y"
  shows "\<exists>ys. ocollect (map f xs) = Inr ys \<and> list_all2 P xs ys"
  using assms
proof (induction xs)
  case Nil
  then show ?case by simp
next
  case (Cons x xs)
  then obtain y ys where "f x = Inr y" "P x y" "ocollect (map f xs) = Inr ys" "list_all2 P xs ys"
    by (metis list.set_intros(1) list.set_intros(2))
  then show ?case by simp
qed

lemma list_all2_UN:
  assumes "list_all2 (\<lambda>x y. g y = F x) xs ys"
  shows "(\<Union>y \<in> set ys. g y) = (\<Union>x \<in> set xs. F x)"
  using assms by (induction rule: list_all2_induct) auto

text \<open>The path a list of segments denotes below a prefix.\<close>

definition joined :: "string \<Rightarrow> string list \<Rightarrow> string" where
  "joined pre q = fold (\<lambda>name acc. join_segment acc name) q pre"

lemma joined_simps [simp]: "joined pre [] = pre" "joined pre (n # q) = joined (join_segment pre n) q"
  by (simp_all add: joined_def)

lemma joined_nonempty: "pre \<noteq> [] \<Longrightarrow> joined pre q = join_with ''/'' (pre # q)"
proof (induction q arbitrary: pre)
  case Nil
  then show ?case by simp
next
  case (Cons n q)
  then show ?case using Cons.IH [of "join_segment pre n"] by (simp add: join_segment_def join_with_Cons)
qed

lemma joined_root: "list_all name_ok q \<Longrightarrow> joined [] q = join_with ''/'' q"
  by (cases q) (auto simp: join_segment_def joined_nonempty name_ok_def)

lemma walk_Cons:
  assumes "pool_ok sha p" "p h = Some node" "name_ok n"
  shows "trie_walk p h (n # q) = (case map_of (children node) n of None \<Rightarrow> Inr None | Some c \<Rightarrow> trie_walk p c q)"
  using assms node_wf_child [of node n] by (auto simp: lookupNode_def pool_ok_def split: option.split)

section \<open>Entries\<close>

definition entries_below :: "node_pool \<Rightarrow> string \<Rightarrow> string \<Rightarrow> (string \<times> RecoveryState) set" where
  "entries_below p h pre = {(joined pre q, s) | q s. list_all name_ok q \<and> trie_walk p h q = Inr (Some s)}"

lemma entries_below_node:
  assumes "pool_ok sha p" "p h = Some node"
  shows "entries_below p h pre = (case self node of None \<Rightarrow> {} | Some s \<Rightarrow> {(pre, s)})
    \<union> (\<Union>n \<in> set (child_names node). entries_below p (the (map_of (children node) n)) (join_segment pre n))"
proof (intro set_eqI iffI)
  fix e assume "e \<in> entries_below p h pre"
  then obtain q s where q: "e = (joined pre q, s)" "list_all name_ok q" "trie_walk p h q = Inr (Some s)"
    by (auto simp: entries_below_def)
  show "e \<in> (case self node of None \<Rightarrow> {} | Some s \<Rightarrow> {(pre, s)})
    \<union> (\<Union>n \<in> set (child_names node). entries_below p (the (map_of (children node) n)) (join_segment pre n))"
  proof (cases q)
    case Nil
    then show ?thesis using q assms(2) by (simp add: lookupNode_def)
  next
    case (Cons n r)
    then obtain c where "map_of (children node) n = Some c" "trie_walk p c r = Inr (Some s)"
      using q walk_Cons [OF assms, of n r] by (auto split: option.splits)
    then show ?thesis using q Cons by (force simp: entries_below_def)
  qed
next
  fix e assume e: "e \<in> (case self node of None \<Rightarrow> {} | Some s \<Rightarrow> {(pre, s)})
    \<union> (\<Union>n \<in> set (child_names node). entries_below p (the (map_of (children node) n)) (join_segment pre n))"
  show "e \<in> entries_below p h pre"
  proof (cases "e \<in> (case self node of None \<Rightarrow> {} | Some s \<Rightarrow> {(pre, s)})")
    case True
    then obtain s where "self node = Some s" "e = (joined pre [], s)" by (auto split: option.splits)
    moreover from this assms(2) have "trie_walk p h [] = Inr (Some s)" by (simp add: lookupNode_def)
    ultimately show ?thesis unfolding entries_below_def using list.pred_inject(1) [of name_ok] by blast
  next
    case False
    then obtain n c q s where n: "map_of (children node) n = Some c" "list_all name_ok q" "trie_walk p c q = Inr (Some s)"
        "e = (joined pre (n # q), s)"
      using e by (auto simp: entries_below_def)
    then have "name_ok n" using assms node_wf_child [of node n c] by (auto simp: pool_ok_def)
    then have "list_all name_ok (n # q)" "trie_walk p h (n # q) = Inr (Some s)"
      using n walk_Cons [OF assms] by (simp_all del: trie_walk.simps)
    then show ?thesis using n(4) unfolding entries_below_def by blast
  qed
qed

lemma trie_collect_spec:
  assumes "pool_ok sha p" "good sha p h"
  shows "\<exists>n. \<forall>fuel \<ge> n. \<forall>pre. \<exists>es. trie_collect fuel p h pre = Inr es \<and> set es = entries_below p h pre"
  using assms(2)
proof (induction rule: good.induct)
  case (good h node)
  let ?P = "\<lambda>n fuel. \<forall>pre. \<exists>es. trie_collect fuel p (the (map_of (children node) n)) pre = Inr es
    \<and> set es = entries_below p (the (map_of (children node) n)) pre"
  have "\<exists>n. \<forall>x \<in> set (child_names node). \<forall>fuel \<ge> n. ?P x fuel"
    by (rule common_bound) (use good.IH in \<open>auto simp: finite_dom_map_of\<close>)
  then obtain n where n: "\<forall>x \<in> set (child_names node). \<forall>fuel \<ge> n. ?P x fuel" by blast
  have "\<exists>es. trie_collect (Suc fuel) p h pre = Inr es \<and> set es = entries_below p h pre" if "fuel \<ge> n" for fuel pre
  proof -
    have "\<exists>parts. ocollect (map (\<lambda>name. trie_collect fuel p (the (map_of (children node) name)) (join_segment pre name))
        (child_names node)) = Inr parts
      \<and> list_all2 (\<lambda>name es. set es = entries_below p (the (map_of (children node) name)) (join_segment pre name))
          (child_names node) parts"
      by (rule ocollect_total) (use n that in blast)
    then obtain parts where parts: "ocollect (map (\<lambda>name. trie_collect fuel p (the (map_of (children node) name)) (join_segment pre name))
        (child_names node)) = Inr parts"
      "list_all2 (\<lambda>name es. set es = entries_below p (the (map_of (children node) name)) (join_segment pre name))
          (child_names node) parts" by blast
    show ?thesis
      using parts(1) list_all2_UN [OF parts(2)] good.hyps entries_below_node [OF assms(1), of h node pre]
      by (simp add: lookupNode_def split: option.split)
  qed
  then have "\<forall>fuel \<ge> Suc n. \<forall>pre. \<exists>es. trie_collect fuel p h pre = Inr es \<and> set es = entries_below p h pre"
    by (metis Suc_le_D Suc_le_mono)
  then show ?case by blast
qed

lemma trie_map_None_iff: "trie_map p h q \<noteq> None \<longleftrightarrow> (\<exists>s. trie_walk p h q = Inr (Some s))"
  by (auto simp: trie_map_def split: sum.splits option.splits)

lemma entries_below_paths:
  "fst ` entries_below p h pre = joined pre ` {q. list_all name_ok q \<and> trie_map p h q \<noteq> None}"
  unfolding entries_below_def trie_map_None_iff by force

section \<open>Differences\<close>

definition below :: "node_pool \<Rightarrow> string \<Rightarrow> string list \<Rightarrow> RecoveryState option" where
  "below p h q = (if h = [] \<or> \<not> list_all name_ok q then None else trie_map p h q)"

definition is_diff :: "string \<Rightarrow> (string list \<Rightarrow> RecoveryState option) \<Rightarrow> (string list \<Rightarrow> RecoveryState option) \<Rightarrow> StateTrieDiff \<Rightarrow> bool" where
  "is_diff pre l r d \<longleftrightarrow>
     set (added d) = joined pre ` {q. l q = None \<and> r q \<noteq> None}
   \<and> set (removed d) = joined pre ` {q. l q \<noteq> None \<and> r q = None}
   \<and> set (changed d) = joined pre ` {q. l q \<noteq> None \<and> r q \<noteq> None \<and> l q \<noteq> r q}"

lemma diff_fold:
  "added (fold (\<lambda>d acc. diff_append acc d) parts base) = added base @ concat (map added parts)"
  "removed (fold (\<lambda>d acc. diff_append acc d) parts base) = removed base @ concat (map removed parts)"
  "changed (fold (\<lambda>d acc. diff_append acc d) parts base) = changed base @ concat (map changed parts)"
  by (induction parts arbitrary: base) (auto simp: diff_append_def)

lemma either_pool_props:
  assumes "collision_free sha" "pool_ok sha a" "pool_ok sha b"
  shows "pool_ok sha (either_pool a b)" "pool_le a (either_pool a b)" "pool_le b (either_pool a b)"
proof -
  show "pool_ok sha (either_pool a b)" "pool_le a (either_pool a b)"
    using assms(2,3) by (auto simp: pool_ok_def pool_le_def either_pool_def split: option.splits)
  have "view x = view y" if "a h = Some x" "b h = Some y" for h x y
    using that assms node_hash_view [OF assms(1), of x y] by (auto simp: pool_ok_def)
  then show "pool_le b (either_pool a b)"
    by (auto simp: pool_le_def either_pool_def split: option.splits)
qed

text \<open>A set of paths splits into the directory itself and what lies below each child.\<close>

lemma joined_split:
  assumes "\<And>q. P q \<Longrightarrow> (case q of [] \<Rightarrow> True | n # r \<Rightarrow> n \<in> N)"
  shows "joined pre ` {q. P q} = (if P [] then {pre} else {}) \<union> (\<Union>n \<in> N. joined (join_segment pre n) ` {q. P (n # q)})"
proof (intro set_eqI iffI)
  fix x assume "x \<in> joined pre ` {q. P q}"
  then obtain q where "P q" "x = joined pre q" by blast
  then show "x \<in> (if P [] then {pre} else {}) \<union> (\<Union>n \<in> N. joined (join_segment pre n) ` {q. P (n # q)})"
    using assms [of q] by (cases q) auto
next
  fix x assume "x \<in> (if P [] then {pre} else {}) \<union> (\<Union>n \<in> N. joined (join_segment pre n) ` {q. P (n # q)})"
  then consider "P []" "x = pre" | n q where "P (n # q)" "x = joined (join_segment pre n) q"
    by (auto split: if_splits)
  then show "x \<in> joined pre ` {q. P q}"
    by cases (auto intro: image_eqI [of _ _ "[]"] image_eqI [of _ _ "_ # _"])
qed

lemma below_Cons:
  assumes "pool_ok sha p" "p h = Some node" "h \<noteq> []"
  shows "below p h (n # q) = (case map_of (children node) n of None \<Rightarrow> None | Some c \<Rightarrow> below p c q)"
proof (cases "list_all name_ok (n # q)")
  case True
  then show ?thesis
    using assms trie_map_Cons [OF assms(1,2)] node_wf_child [of node n] by (auto simp: below_def pool_ok_def split: option.split)
next
  case False
  then show ?thesis
    using assms node_wf_child [of node n] by (auto simp: below_def pool_ok_def split: option.split)
qed

lemma is_diff_node:
  assumes "pool_ok sha a" "a l = Some left" "l \<noteq> []" "pool_ok sha b" "b r = Some right" "r \<noteq> []"
    and names: "set names = dom (map_of (children left)) \<union> dom (map_of (children right))"
    and parts: "list_all2 (\<lambda>n d. is_diff (join_segment pre n)
        (below a (case map_of (children left) n of None \<Rightarrow> [] | Some c \<Rightarrow> c))
        (below b (case map_of (children right) n of None \<Rightarrow> [] | Some c \<Rightarrow> c)) d) names ds"
  shows "is_diff pre (below a l) (below b r) (fold (\<lambda>d acc. diff_append acc d) ds (self_diff pre (self left) (self right)))"
proof -
  have left: "below a (case map_of (children left) n of None \<Rightarrow> [] | Some c \<Rightarrow> c) q = below a l (n # q)" for n q
    using below_Cons [OF assms(1-3)] by (simp add: below_def split: option.split)
  have right: "below b (case map_of (children right) n of None \<Rightarrow> [] | Some c \<Rightarrow> c) q = below b r (n # q)" for n q
    using below_Cons [OF assms(4-6)] by (simp add: below_def split: option.split)
  have N: "case q of [] \<Rightarrow> True | n # s \<Rightarrow> n \<in> set names" if "below a l q \<noteq> None \<or> below b r q \<noteq> None" for q
    using that names below_Cons [OF assms(1-3)] below_Cons [OF assms(4-6)]
    by (cases q) (auto split: option.splits)
  note parts' = parts [unfolded is_diff_def left right]
  have self: "below a l [] = map_option portable (self left)" "below b r [] = map_option portable (self right)"
    using assms(2,3,5,6) by (simp_all add: below_def trie_map_Nil)
  have U: "(\<Union>d \<in> set ds. set (added d)) = (\<Union>n \<in> set names. joined (join_segment pre n) ` {q. below a l (n # q) = None \<and> below b r (n # q) \<noteq> None})"
      "(\<Union>d \<in> set ds. set (removed d)) = (\<Union>n \<in> set names. joined (join_segment pre n) ` {q. below a l (n # q) \<noteq> None \<and> below b r (n # q) = None})"
      "(\<Union>d \<in> set ds. set (changed d)) = (\<Union>n \<in> set names. joined (join_segment pre n) ` {q. below a l (n # q) \<noteq> None \<and> below b r (n # q) \<noteq> None \<and> below a l (n # q) \<noteq> below b r (n # q)})"
    by (rule list_all2_UN, rule list_all2_mono [OF parts'], simp)+
  show ?thesis
    unfolding is_diff_def diff_fold set_append set_concat set_map image_image
    using joined_split [of "\<lambda>q. below a l q = None \<and> below b r q \<noteq> None" "set names" pre]
      joined_split [of "\<lambda>q. below a l q \<noteq> None \<and> below b r q = None" "set names" pre]
      joined_split [of "\<lambda>q. below a l q \<noteq> None \<and> below b r q \<noteq> None \<and> below a l q \<noteq> below b r q" "set names" pre]
      N U self
    by (auto simp: self_diff_def stateIdentity_eq_iff split: option.splits)
qed

definition diff_works :: "node_pool \<Rightarrow> node_pool \<Rightarrow> string \<Rightarrow> string \<Rightarrow> nat \<Rightarrow> bool" where
  "diff_works a b l r fuel \<longleftrightarrow> (\<forall>pre. \<exists>d. diff_visit fuel a b l r pre = Inr d \<and> is_diff pre (below a l) (below b r) d)"

lemma eventually_Suc: "\<forall>fuel \<ge> n. P (Suc fuel) \<Longrightarrow> \<exists>n. \<forall>fuel \<ge> n. P fuel"
  by (metis Suc_le_D Suc_le_mono)

lemma good_clean: "collision_free sha \<Longrightarrow> pool_ok sha p \<Longrightarrow> good sha p h \<Longrightarrow> h \<noteq> []"
  using nodeHash_clean by (fastforce simp: pool_ok_def elim: good_cases)

lemma same_diff: "is_diff pre l l no_diff"
  by (auto simp: is_diff_def no_diff_def)

lemma below_empty [simp]: "below p [] = Map.empty"
  by (simp add: below_def fun_eq_iff)

lemma collect_paths:
  assumes "collision_free sha" "pool_ok sha p" "pool_ok sha m" "pool_le p m" "good sha p h"
  shows "\<exists>n. \<forall>fuel \<ge> n. \<forall>pre. \<exists>es. trie_collect fuel m h pre = Inr es \<and> fst ` set es = joined pre ` {q. below p h q \<noteq> None}"
proof -
  have "{q. below p h q \<noteq> None} = {q. list_all name_ok q \<and> trie_map m h q \<noteq> None}"
    using trie_map_le [OF assms(2-5)] good_clean [OF assms(1,2,5)] by (auto simp: below_def)
  then show ?thesis
    using trie_collect_spec [OF assms(3) good_le [OF assms(5,4)]] entries_below_paths [of m h] by metis
qed

lemma diff_added:
  assumes "collision_free sha" "pool_ok sha a" "pool_ok sha b" "r = [] \<or> good sha b r"
  shows "\<exists>n. \<forall>fuel \<ge> n. diff_works a b [] r fuel"
proof (cases "r = []")
  case True
  then have "\<forall>fuel \<ge> 0. diff_works a b [] r (Suc fuel)"
    using same_diff by (simp add: diff_works_def)
  then show ?thesis by (rule eventually_Suc)
next
  case False
  note e = either_pool_props [OF assms(1-3)]
  obtain n where n: "\<forall>fuel \<ge> n. \<forall>pre. \<exists>es. trie_collect fuel (either_pool a b) r pre = Inr es
      \<and> fst ` set es = joined pre ` {q. below b r q \<noteq> None}"
    using collect_paths [OF assms(1,3) e(1,3)] assms(4) False by blast
  have "\<forall>fuel \<ge> n. diff_works a b [] r (Suc fuel)"
    unfolding diff_works_def
  proof (intro allI impI)
    fix fuel pre assume "n \<le> fuel"
    then obtain es where "trie_collect fuel (either_pool a b) r pre = Inr es"
        "fst ` set es = joined pre ` {q. below b r q \<noteq> None}"
      using n by blast
    then show "\<exists>d. diff_visit (Suc fuel) a b [] r pre = Inr d \<and> is_diff pre (below a []) (below b r) d"
      using False by (simp add: is_diff_def no_diff_def)
  qed
  then show ?thesis by (rule eventually_Suc)
qed

lemma diff_removed:
  assumes "collision_free sha" "pool_ok sha a" "pool_ok sha b" "good sha a l"
  shows "\<exists>n. \<forall>fuel \<ge> n. diff_works a b l [] fuel"
proof -
  note e = either_pool_props [OF assms(1-3)]
  have l: "l \<noteq> []" using good_clean [OF assms(1,2,4)] .
  obtain n where n: "\<forall>fuel \<ge> n. \<forall>pre. \<exists>es. trie_collect fuel (either_pool a b) l pre = Inr es
      \<and> fst ` set es = joined pre ` {q. below a l q \<noteq> None}"
    using collect_paths [OF assms(1,2) e(1,2) assms(4)] by blast
  have "\<forall>fuel \<ge> n. diff_works a b l [] (Suc fuel)"
    unfolding diff_works_def
  proof (intro allI impI)
    fix fuel pre assume "n \<le> fuel"
    then obtain es where "trie_collect fuel (either_pool a b) l pre = Inr es"
        "fst ` set es = joined pre ` {q. below a l q \<noteq> None}"
      using n by blast
    then show "\<exists>d. diff_visit (Suc fuel) a b l [] pre = Inr d \<and> is_diff pre (below a l) (below b []) d"
      using l by (simp add: is_diff_def no_diff_def)
  qed
  then show ?thesis by (rule eventually_Suc)
qed

lemma hash_or_empty_ok:
  "name_ok n \<Longrightarrow> hash_or_empty node n = Some (case map_of (children node) n of None \<Rightarrow> [] | Some c \<Rightarrow> c)"
  by (simp add: hash_or_empty_def split: option.split)

lemma diff_visit_spec:
  assumes "collision_free sha" "pool_ok sha a" "pool_ok sha b" "good sha a l" "r = [] \<or> good sha b r"
  shows "\<exists>n. \<forall>fuel \<ge> n. diff_works a b l r fuel"
  using assms(4,5)
proof (induction arbitrary: r rule: good.induct)
  case (good l left)
  have "good sha a l" by (rule good.good [of a l left]) (use good in auto)
  then have l: "l \<noteq> []" by (rule good_clean [OF assms(1,2)])
  show ?case
  proof (cases "r = [] \<or> l = r")
    case True
    then show ?thesis
    proof
      assume "r = []"
      then show ?thesis using diff_removed [OF assms(1-3) \<open>good sha a l\<close>] by simp
    next
      assume "l = r"
      then have "below a l = below b r"
        using same_root_same_map [OF assms(1-3) \<open>good sha a l\<close>] good.prems l by (auto simp: below_def fun_eq_iff)
      then have "\<forall>fuel \<ge> 0. diff_works a b l r (Suc fuel)"
        using same_diff \<open>l = r\<close> by (simp add: diff_works_def)
      then show ?thesis by (rule eventually_Suc)
    qed
  next
    case False
    then have "good sha b r" using good.prems by simp
    then obtain right where right: "b r = Some right" by (auto elim: good_cases)
    let ?l = "\<lambda>n. case map_of (children left) n of None \<Rightarrow> [] | Some c \<Rightarrow> c"
      and ?r = "\<lambda>n. case map_of (children right) n of None \<Rightarrow> [] | Some c \<Rightarrow> c"
    let ?names = "sort (remdups (map fst (children left) @ map fst (children right)))"
    have names: "set ?names = dom (map_of (children left)) \<union> dom (map_of (children right))"
      by (simp add: dom_map_of_conv_image_fst)
    have ok: "name_ok n" if "n \<in> set ?names" for n
      using that assms(2,3) good.hyps right node_wf_child unfolding names pool_ok_def by blast
    have "\<exists>n. \<forall>fuel \<ge> n. diff_works a b (?l x) (?r x) fuel" for x
      using good.IH [of x] diff_added [OF assms(1-3), of "?r x"] good_child [OF \<open>good sha b r\<close> right, of x]
      by (cases "map_of (children left) x") (auto split: option.splits)
    then obtain n where n: "\<forall>x \<in> set ?names. \<forall>fuel \<ge> n. diff_works a b (?l x) (?r x) fuel"
      using common_bound [of "set ?names" "\<lambda>x. diff_works a b (?l x) (?r x)"] by blast
    have "\<forall>fuel \<ge> n. diff_works a b l r (Suc fuel)"
      unfolding diff_works_def
    proof (intro allI impI)
      fix fuel pre assume fuel: "n \<le> fuel"
      let ?f = "\<lambda>name. case (hash_or_empty left name, hash_or_empty right name) of
          (Some l, Some r) \<Rightarrow> diff_visit fuel a b l r (join_segment pre name) | _ \<Rightarrow> Inl NodeMissing"
      have each: "\<exists>d. ?f x = Inr d \<and> is_diff (join_segment pre x) (below a (?l x)) (below b (?r x)) d" if "x \<in> set ?names" for x
        using n fuel that ok [OF that] hash_or_empty_ok unfolding diff_works_def by simp
      obtain ds where ds: "ocollect (map ?f ?names) = Inr ds"
          "list_all2 (\<lambda>x d. is_diff (join_segment pre x) (below a (?l x)) (below b (?r x)) d) ?names ds"
        using ocollect_total [of ?names ?f, OF each] by blast
      show "\<exists>d. diff_visit (Suc fuel) a b l r pre = Inr d \<and> is_diff pre (below a l) (below b r) d"
        using ds(1) is_diff_node [OF assms(2) good.hyps l assms(3) right _ names ds(2)] False l good.hyps right
        by (simp add: lookupNode_def)
    qed
    then show ?thesis by (rule eventually_Suc)
  qed
qed

section \<open>Verification\<close>

text \<open>
  A hash is sound when its node is present, has that hash, and all its children are sound; the inductive
  definition rules out cycles. \<open>sound_within\<close> bounds the depth.
\<close>

inductive sound :: "(string \<Rightarrow> string) \<Rightarrow> node_pool \<Rightarrow> string \<Rightarrow> bool" for sha p where
  sound: "p h = Some node \<Longrightarrow> nodeHash sha node = h \<Longrightarrow> (\<And>n c. (n, c) \<in> set (children node) \<Longrightarrow> sound sha p c) \<Longrightarrow> sound sha p h"

fun sound_within :: "(string \<Rightarrow> string) \<Rightarrow> node_pool \<Rightarrow> nat \<Rightarrow> string \<Rightarrow> bool" where
  "sound_within sha p 0 h = False"
| "sound_within sha p (Suc n) h =
     (case p h of None \<Rightarrow> False | Some node \<Rightarrow> nodeHash sha node = h \<and> list_all (\<lambda>(name, c). sound_within sha p n c) (children node))"

lemma sound_within_mono: "sound_within sha p n h \<Longrightarrow> n \<le> m \<Longrightarrow> sound_within sha p m h"
proof (induction n arbitrary: m h)
  case 0
  then show ?case by simp
next
  case (Suc n)
  then obtain k where "m = Suc k" "n \<le> k" by (cases m) auto
  with Suc show ?case by (fastforce simp: list_all_iff split: option.splits)
qed

lemma sound_bounded: "sound sha p h \<Longrightarrow> \<exists>n. sound_within sha p n h"
proof (induction rule: sound.induct)
  case (sound h node)
  have "\<exists>n. \<forall>x \<in> set (children node). \<forall>m \<ge> n. sound_within sha p m (snd x)"
  proof (rule common_bound)
    fix x assume "x \<in> set (children node)"
    then obtain n where "sound_within sha p n (snd x)" using sound.IH [of "fst x" "snd x"] by auto
    then show "\<exists>n. \<forall>m \<ge> n. sound_within sha p m (snd x)" using sound_within_mono by blast
  qed simp
  then obtain n where "\<forall>x \<in> set (children node). sound_within sha p n (snd x)" by blast
  then have "sound_within sha p (Suc n) h" using sound.hyps by (auto simp: list_all_iff)
  then show ?case by blast
qed

lemma check_sound:
  "check_node sha fuel p h path visiting verified = Inr v \<Longrightarrow> \<forall>x \<in> set verified. sound sha p x \<Longrightarrow>
     h \<in> set v \<and> (\<forall>x \<in> set v. sound sha p x)"
  "check_children sha fuel p path kids visiting verified = Inr v \<Longrightarrow> \<forall>x \<in> set verified. sound sha p x \<Longrightarrow>
     (\<forall>(n, c) \<in> set kids. sound sha p c) \<and> (\<forall>x \<in> set v. sound sha p x)"
proof (induction sha fuel p h path visiting verified and sha fuel p path kids visiting verified arbitrary: v and v
    rule: check_node_check_children.induct)
  case (2 sha fuel p h path visiting verified)
  show ?case
  proof (cases "h \<in> set verified")
    case True
    then show ?thesis using 2 by simp
  next
    case False
    with "2.prems" obtain node v1 where n: "h \<notin> set visiting" "p h = Some node" "nodeHash sha node = h"
        "check_children sha fuel p path (children node) (h # visiting) verified = Inr v1" "v = h # v1"
      by (auto simp: obind_Inr_iff split: if_splits option.splits)
    then have "sound sha p h"
      using "2.IH" [OF False n(1,2) _ n(4) "2.prems"(2)] by (intro sound.sound [of p h node]) auto
    then show ?thesis
      using n "2.IH" [OF False n(1,2) _ n(4) "2.prems"(2)] by auto
  qed
next
  case (4 sha fuel p path name child kids visiting verified)
  then obtain v1 where v1: "check_node sha fuel p child (join_segment path name) visiting verified = Inr v1"
      "check_children sha fuel p path kids visiting v1 = Inr v"
    by (auto simp: obind_Inr_iff)
  then show ?case
    using "4.IH"(1) [OF v1(1) "4.prems"(2)] "4.IH"(2) [OF v1(2)] by auto
qed auto

lemma check_complete:
  "sound_within sha p n h \<Longrightarrow> \<forall>x \<in> set visiting. \<not> sound_within sha p n x \<Longrightarrow> n \<le> fuel \<Longrightarrow>
   \<exists>v. check_node sha fuel p h path visiting verified = Inr v"
proof (induction n arbitrary: h path visiting verified fuel)
  case 0
  then show ?case by simp
next
  case (Suc n)
  have visiting: "\<forall>x \<in> set visiting. \<not> sound_within sha p n x"
    using Suc.prems(2) sound_within_mono [of sha p n _ "Suc n"] by auto
  show ?case
  proof (cases "sound_within sha p n h")
    case True
    then show ?thesis using Suc.IH visiting Suc.prems(3) by simp
  next
    case False
    obtain f where f: "fuel = Suc f" "n \<le> f" using Suc.prems(3) by (cases fuel) auto
    obtain node where node: "p h = Some node" "nodeHash sha node = h" "list_all (\<lambda>(name, c). sound_within sha p n c) (children node)"
      using Suc.prems(1) by (auto split: option.splits)
    have "\<exists>v. check_children sha f p path kids (h # visiting) verified = Inr v"
      if "list_all (\<lambda>(name, c). sound_within sha p n c) kids" for kids verified
      using that
    proof (induction kids arbitrary: verified)
      case Nil
      then show ?case by simp
    next
      case (Cons kid kids)
      obtain name c where kid: "kid = (name, c)" by force
      have "\<exists>v. check_node sha f p c (join_segment path name) (h # visiting) verified = Inr v"
        using Suc.IH [of c "h # visiting" f] Cons.prems visiting False f(2) kid by simp
      then obtain v where "check_node sha f p c (join_segment path name) (h # visiting) verified = Inr v" by blast
      then show ?case using Cons kid by simp
    qed
    then obtain v where "check_children sha f p path (children node) (h # visiting) verified = Inr v"
      using node(3) by blast
    then show ?thesis using f node Suc.prems(1,2) by auto
  qed
qed

lemma verify_iff:
  "(\<exists>fuel. verifyTrie sha fuel t = Inr ()) \<longleftrightarrow> sound sha (nodes t) (root t)"
  "sound sha (nodes t) (root t) \<Longrightarrow> \<exists>n. \<forall>fuel \<ge> n. verifyTrie sha fuel t = Inr ()"
proof -
  show ex: "\<exists>n. \<forall>fuel \<ge> n. verifyTrie sha fuel t = Inr ()" if "sound sha (nodes t) (root t)"
  proof -
    obtain n where "sound_within sha (nodes t) n (root t)" using sound_bounded [OF \<open>sound sha (nodes t) (root t)\<close>] by blast
    then have "\<forall>fuel \<ge> n. verifyTrie sha fuel t = Inr ()"
      using check_complete [of sha "nodes t" n "root t" "[]"] by (fastforce simp: verifyTrie_def obind_Inr_iff)
    then show ?thesis by blast
  qed
  show "(\<exists>fuel. verifyTrie sha fuel t = Inr ()) \<longleftrightarrow> sound sha (nodes t) (root t)"
    using ex check_sound(1) [of sha _ "nodes t" "root t" "[]" "[]" "[]"]
    by (fastforce simp: verifyTrie_def obind_Inr_iff)
qed

section \<open>Reading a trie back\<close>

lemma map_of_functional:
  assumes "\<And>k v w. (k, v) \<in> set xs \<Longrightarrow> (k, w) \<in> set xs \<Longrightarrow> v = w"
  shows "map_of xs k = Some v \<longleftrightarrow> (k, v) \<in> set xs"
  using assms by (metis map_of_SomeD weak_map_of_SomeI)

lemma segments_of_join:
  assumes "list_all name_ok q"
  shows "path_segments (join_with ''/'' q) = q"
proof (cases "q = []")
  case True
  then show ?thesis by (simp add: path_segments_def)
next
  case False
  then have "split_on CHR ''/'' (join_with ''/'' q) = q"
    using assms by (intro split_on_join_with) (auto simp: list_all_iff name_ok_def)
  then show ?thesis
    using assms by (simp add: path_segments_def filter_id_conv list_all_iff name_ok_def)
qed

lemma entries_root:
  "entries_below p h [] = {(join_with ''/'' q, s) | q s. list_all name_ok q \<and> trie_walk p h q = Inr (Some s)}"
  unfolding entries_below_def using joined_root by metis

lemma entries_rebuild:
  assumes t: "trie_ok sha t" "trie_content t [] = None"
    and es: "set es = entries_below (nodes t) (root t) []"
  shows "\<forall>(path, s) \<in> set es. path_ok path" "root (trieFromEntries sha es) = root t"
proof -
  have mem: "(path, s) \<in> set es \<longleftrightarrow> (\<exists>q. path = join_with ''/'' q \<and> list_all name_ok q \<and> trie_walk (nodes t) (root t) q = Inr (Some s))" for path s
    unfolding es entries_root by blast
  have "q \<noteq> []" if "trie_walk (nodes t) (root t) q = Inr (Some s)" for q s
    using t(2) that by (auto simp: trie_content_def trie_map_def)
  then show ok: "\<forall>(path, s) \<in> set es. path_ok path"
    using mem segments_of_join by (auto simp: path_ok_def)
  have cf: "collision_free sha" using t(1) by (simp add: trie_ok_def)
  let ?xs = "rev (map (\<lambda>(path, s). (path_segments path, portable s)) (sort_key fst es))"
  have xs: "(q, v) \<in> set ?xs \<longleftrightarrow> list_all name_ok q \<and> (\<exists>s. trie_walk (nodes t) (root t) q = Inr (Some s) \<and> v = portable s)" for q v
  proof
    assume "(q, v) \<in> set ?xs"
    then obtain path s where "(path, s) \<in> set es" "q = path_segments path" "v = portable s" by auto
    then show "list_all name_ok q \<and> (\<exists>s. trie_walk (nodes t) (root t) q = Inr (Some s) \<and> v = portable s)"
      using mem segments_of_join by metis
  next
    assume "list_all name_ok q \<and> (\<exists>s. trie_walk (nodes t) (root t) q = Inr (Some s) \<and> v = portable s)"
    then obtain s where "list_all name_ok q" "(join_with ''/'' q, s) \<in> set es" "v = portable s"
      using mem by blast
    then show "(q, v) \<in> set ?xs"
      using segments_of_join [of q] by (auto intro!: image_eqI [of _ _ "(join_with ''/'' q, s)"])
  qed
  have "map_of ?xs q = trie_content t q" for q
  proof (cases "trie_content t q")
    case None
    then have "\<not> (\<exists>v. (q, v) \<in> set ?xs)"
      unfolding xs by (auto simp: trie_content_def trie_map_def)
    then show ?thesis using None by (metis map_of_SomeD not_None_eq)
  next
    case (Some v)
    then have mem: "(q, v) \<in> set ?xs"
      unfolding xs by (auto simp: trie_content_def trie_map_def split: if_splits sum.splits option.splits)
    have fn: "v1 = v2" if "(k, v1) \<in> set ?xs" "(k, v2) \<in> set ?xs" for k v1 v2
      using that unfolding xs by auto
    have "map_of ?xs q = Some v \<longleftrightarrow> (q, v) \<in> set ?xs"
      by (rule map_of_functional) (rule fn)
    then show ?thesis using Some mem by simp
  qed
  then have "trie_content (trieFromEntries sha es) = trie_content t"
    using trieFromEntries_content [OF cf ok] by (simp add: fun_eq_iff)
  then show "root (trieFromEntries sha es) = root t"
    using trie_root_content trieFromEntries_content [OF cf ok] t(1) by blast
qed

section \<open>Properties\<close>

text \<open>
  C16. Differences are exact: for two valid tries, whatever nodes they share, comparing them ends, and the added,
  removed and changed lists are sorted and hold exactly the paths that only the second trie has, only the first
  trie has, and both have with different identities.
\<close>

theorem trie_diff_exact:
  assumes "trie_ok sha a" "trie_ok sha b"
  shows "\<exists>n. \<forall>fuel \<ge> n. \<exists>d. trieDiff fuel a b = Inr d
    \<and> sorted (added d) \<and> sorted (removed d) \<and> sorted (changed d)
    \<and> set (added d) = join_with ''/'' ` {q. trie_content a q = None \<and> trie_content b q \<noteq> None}
    \<and> set (removed d) = join_with ''/'' ` {q. trie_content a q \<noteq> None \<and> trie_content b q = None}
    \<and> set (changed d) = join_with ''/'' ` {q. trie_content a q \<noteq> None \<and> trie_content b q \<noteq> None
        \<and> trie_content a q \<noteq> trie_content b q}"
proof -
  have ok: "collision_free sha" "pool_ok sha (nodes a)" "pool_ok sha (nodes b)" "good sha (nodes a) (root a)" "good sha (nodes b) (root b)"
    using assms by (auto simp: trie_ok_def)
  obtain n where n: "\<forall>fuel \<ge> n. diff_works (nodes a) (nodes b) (root a) (root b) fuel"
    using diff_visit_spec [OF ok(1-4)] ok(5) by blast
  have content: "below (nodes a) (root a) = trie_content a" "below (nodes b) (root b) = trie_content b"
    using good_clean ok by (auto simp: below_def trie_content_def fun_eq_iff)
  have join: "joined [] ` {q. P q} = join_with ''/'' ` {q. P q}" if "\<And>q. P q \<Longrightarrow> list_all name_ok q" for P
    using joined_root that by force
  have dom: "trie_content t q = Some y \<Longrightarrow> list_all name_ok q" for t q y
    by (auto simp: trie_content_def split: if_splits)
  have "is_diff [] (trie_content a) (trie_content b) d \<Longrightarrow>
      set (added d) = join_with ''/'' ` {q. trie_content a q = None \<and> trie_content b q \<noteq> None}
    \<and> set (removed d) = join_with ''/'' ` {q. trie_content a q \<noteq> None \<and> trie_content b q = None}
    \<and> set (changed d) = join_with ''/'' ` {q. trie_content a q \<noteq> None \<and> trie_content b q \<noteq> None
        \<and> trie_content a q \<noteq> trie_content b q}" for d
    unfolding is_diff_def by (subst (asm) (1 2 3) join) (auto dest: dom)
  moreover have "\<exists>d. diff_visit fuel (nodes a) (nodes b) (root a) (root b) [] = Inr d
      \<and> is_diff [] (trie_content a) (trie_content b) d" if "n \<le> fuel" for fuel
    using n that unfolding diff_works_def content by blast
  ultimately have "\<forall>fuel \<ge> n. \<exists>d. trieDiff fuel a b = Inr d
    \<and> sorted (added d) \<and> sorted (removed d) \<and> sorted (changed d)
    \<and> set (added d) = join_with ''/'' ` {q. trie_content a q = None \<and> trie_content b q \<noteq> None}
    \<and> set (removed d) = join_with ''/'' ` {q. trie_content a q \<noteq> None \<and> trie_content b q = None}
    \<and> set (changed d) = join_with ''/'' ` {q. trie_content a q \<noteq> None \<and> trie_content b q \<noteq> None
        \<and> trie_content a q \<noteq> trie_content b q}"
    by (fastforce simp: trieDiff_def)
  then show ?thesis by blast
qed

lemma sample_ok: "trie_ok hex_digest (trieFromEntries hex_digest [(''a/b'', Missing)])"
  using trieFromEntries_content [OF collision_free_hex_digest, of "[(''a/b'', Missing)]"]
  by (simp add: path_ok_def path_segments_def name_ok_def object_prototype_names_def)

theorem trie_diff_exact_witness:
  "\<exists>n. \<forall>fuel \<ge> n. \<exists>d. trieDiff fuel (EMPTY_STATE_TRIE hex_digest)
        (trieFromEntries hex_digest [(''a/b'', Missing)]) = Inr d
    \<and> sorted (added d) \<and> sorted (removed d) \<and> sorted (changed d)
    \<and> set (added d) = join_with ''/'' ` {q. trie_content (EMPTY_STATE_TRIE hex_digest)
        q = None \<and> trie_content (trieFromEntries hex_digest [(''a/b'', Missing)]) q \<noteq> None}
    \<and> set (removed d) = join_with ''/'' ` {q. trie_content (EMPTY_STATE_TRIE hex_digest)
        q \<noteq> None \<and> trie_content (trieFromEntries hex_digest [(''a/b'', Missing)]) q = None}
    \<and> set (changed d) = join_with ''/'' ` {q. trie_content (EMPTY_STATE_TRIE hex_digest)
        q \<noteq> None \<and> trie_content (trieFromEntries hex_digest [(''a/b'', Missing)]) q \<noteq> None
        \<and> trie_content (EMPTY_STATE_TRIE hex_digest)
        q \<noteq> trie_content (trieFromEntries hex_digest [(''a/b'', Missing)]) q}"
  by (rule trie_diff_exact [OF empty_trie(1) [OF collision_free_hex_digest] sample_ok])


text \<open>
  Reading a trie back: listing the entries of a valid trie ends, and building a trie from the listed entries
  gives a trie with the same root, so that a map survives storage as a plain list.
\<close>

theorem trie_entries_roundtrip:
  assumes "trie_ok sha t" "trie_content t [] = None"
  shows "\<exists>n. \<forall>fuel \<ge> n. \<exists>es. trieEntries fuel t = Inr es \<and> root (trieFromEntries sha es) = root t"
proof -
  obtain n where "\<forall>fuel \<ge> n. \<exists>es. trieEntries fuel t = Inr es \<and> set es = entries_below (nodes t) (root t) []"
    using trie_collect_spec [of sha "nodes t" "root t"] assms(1) unfolding trieEntries_def trie_ok_def by blast
  then show ?thesis using entries_rebuild(2) [OF assms] by blast
qed

theorem trie_entries_roundtrip_witness:
  "\<exists>n. \<forall>fuel \<ge> n. \<exists>es. trieEntries fuel (trieFromEntries hex_digest [(''a/b'', Missing)]) = Inr es
    \<and> root (trieFromEntries hex_digest es) = root (trieFromEntries hex_digest [(''a/b'', Missing)])"
  by (rule trie_entries_roundtrip [OF sample_ok])
    (use trieFromEntries_content [OF collision_free_hex_digest, of "[(''a/b'', Missing)]"] in
      \<open>simp add: path_ok_def path_segments_def name_ok_def object_prototype_names_def\<close>)

end
