(* ===== verification/Service_Routing.thy ===== *)
theory Service_Routing
  imports Recovery_State "HOL-Library.Product_Lexorder"
begin

text \<open>
  Routing of extension services to providers, \<^verbatim>\<open>src/packages/extension-contract/src/service-routing.ts\<close>.

  A routing context is the list of the dimensions it selects, in the order of \<open>SCOPE_FIELDS\<close>, which is the order
  the parser sets them in. \<open>date_ok\<close> says whether \<open>Date.parse\<close> of a string is finite. The timestamps of
  diagnostics, read from the clock, are left out.
\<close>

section \<open>Data\<close>

type_synonym routing_context = "(string \<times> string) list"

record RoutingRule =
  allowFallback :: bool
  rule_providerKey :: string
  scope :: routing_context
  rule_serviceId :: string
  rule_version :: nat

record RoutingDocument =
  doc_revision :: nat
  rules :: "RoutingRule list"
  updatedAt :: string

datatype storage_state = StorageMissing | StorageReady | StorageStale

record RoutingSnapshot =
  authoritative :: bool
  snap_diagnostics :: "jsval list"
  snap_document :: RoutingDocument
  hostId :: string
  storageState :: storage_state

record RoutingUpdateRequest =
  update_expectedRevision :: nat
  update_rule :: RoutingRule

record RoutingRemoveRequest =
  remove_expectedRevision :: nat
  remove_scope :: routing_context
  remove_serviceId :: string
  remove_version :: nat

record RoutingCandidate =
  providerId :: string
  providerKey :: string

record RoutingDiagnostic =
  diag_code :: string
  diag_message :: string
  severity :: string

datatype routing_status = Ambiguous | Resolved | Unavailable

record RoutingResolution =
  diagnostics :: "RoutingDiagnostic list"
  matchedRule :: "RoutingRule option"
  res_providerId :: "string option"
  res_providerKey :: "string option"
  status :: routing_status

datatype routing_error = RoutingError string

section \<open>Parsing\<close>

text \<open>\<open>/^[a-z0-9]+(?:[._-][a-z0-9]+)*$/\<close>: the flag says that the last character was a letter or a digit.\<close>

definition id_letter :: "char \<Rightarrow> bool" where
  "id_letter c \<longleftrightarrow> (let n = (of_char c :: nat) in 97 \<le> n \<and> n \<le> 122 \<or> 48 \<le> n \<and> n \<le> 57)"

fun id_rest :: "bool \<Rightarrow> string \<Rightarrow> bool" where
  "id_rest after_letter [] = after_letter"
| "id_rest after_letter (c # s) =
     (if id_letter c then id_rest True s
      else if c \<in> set ''._-'' then after_letter \<and> id_rest False s
      else False)"

definition ID_PATTERN :: "string \<Rightarrow> bool" where
  "ID_PATTERN s = id_rest False s"

definition SCOPE_FIELDS :: "string list" where
  "SCOPE_FIELDS =
     [''distributionId'', ''profileId'', ''userId'', ''workspaceId'', ''projectId'', ''runtimeId'', ''sessionId'',
      ''agentId'', ''modelProviderId'', ''modelId'', ''invocationId'']"

definition is_record :: "jsval \<Rightarrow> bool" where
  "is_record v \<longleftrightarrow> is_object v \<and> \<not> is_array v"

definition trim :: "string \<Rightarrow> string" where
  "trim s = rev (dropWhile js_space (rev (dropWhile js_space s)))"

definition text_value :: "jsval \<Rightarrow> string \<Rightarrow> (routing_error, string) outcome" where
  "text_value v label =
     (case v of
        JString s \<Rightarrow> if trim s = [] then Inl (RoutingError (label @ '' must be a non-empty string'')) else Inr (trim s)
      | _ \<Rightarrow> Inl (RoutingError (label @ '' must be a non-empty string'')))"

definition serviceId :: "jsval \<Rightarrow> string \<Rightarrow> (routing_error, string) outcome" where
  "serviceId v label =
     obind (text_value v label) (\<lambda>parsed.
       if ID_PATTERN parsed then Inr parsed else Inl (RoutingError (label @ '' is invalid'')))"

definition revision :: "jsval \<Rightarrow> string \<Rightarrow> bool \<Rightarrow> (routing_error, nat) outcome" where
  "revision v label allowZero =
     (case natural_value v of
        Some n \<Rightarrow>
          if n < (if allowZero then 0 else 1)
          then Inl (RoutingError (label @ '' must be a '' @ (if allowZero then ''non-negative'' else ''positive'') @ '' safe integer''))
          else Inr n
      | None \<Rightarrow>
          Inl (RoutingError (label @ '' must be a '' @ (if allowZero then ''non-negative'' else ''positive'') @ '' safe integer'')))"

fun parse_fields :: "jsval \<Rightarrow> string list \<Rightarrow> (routing_error, routing_context) outcome" where
  "parse_fields raw [] = Inr []"
| "parse_fields raw (field # others) =
     (if prop_of raw field = JUndefined then parse_fields raw others
      else obind (text_value (prop_of raw field) (''scope.'' @ field)) (\<lambda>t.
             obind (parse_fields raw others) (\<lambda>ctx. Inr ((field, t) # ctx))))"

definition parseRoutingContext :: "bool \<Rightarrow> jsval \<Rightarrow> (routing_error, routing_context) outcome" where
  "parseRoutingContext allowEmpty v =
     (if \<not> is_record v then Inl (RoutingError ''Service routing context must be an object'')
      else obind (parse_fields v SCOPE_FIELDS) (\<lambda>ctx.
             if \<not> allowEmpty \<and> ctx = []
             then Inl (RoutingError ''Service routing scope must select at least one context dimension'')
             else Inr ctx))"

definition parseRoutingRule :: "jsval \<Rightarrow> (routing_error, RoutingRule) outcome" where
  "parseRoutingRule v =
     (if \<not> is_record v then Inl (RoutingError ''Service routing rule must be an object'')
      else case prop_of v ''allowFallback'' of
             JBool fallback \<Rightarrow>
               obind (text_value (prop_of v ''providerKey'') ''providerKey'') (\<lambda>pk.
               obind (parseRoutingContext False (prop_of v ''scope'')) (\<lambda>sc.
               obind (serviceId (prop_of v ''serviceId'') ''serviceId'') (\<lambda>sid.
               obind (revision (prop_of v ''version'') ''version'' False) (\<lambda>ver.
               Inr \<lparr>allowFallback = fallback, rule_providerKey = pk, scope = sc, rule_serviceId = sid, rule_version = ver\<rparr>))))
           | _ \<Rightarrow> Inl (RoutingError ''Service routing rule allowFallback must be boolean''))"

definition context_value :: "routing_context \<Rightarrow> jsval" where
  "context_value ctx = JObject (map (\<lambda>(f, t). (f, JString t)) ctx)"

definition scope_key_text :: "routing_context \<Rightarrow> string" where
  "scope_key_text sc =
     join_with ''&'' (concat (map (\<lambda>field. case map_of sc field of
         None \<Rightarrow> [] | Some t \<Rightarrow> if t = [] then [] else [field @ ''='' @ json_string t]) SCOPE_FIELDS))"

definition serviceRoutingScopeKey :: "routing_context \<Rightarrow> (routing_error, string) outcome" where
  "serviceRoutingScopeKey scopeValue =
     obind (parseRoutingContext False (context_value scopeValue)) (\<lambda>sc. Inr (scope_key_text sc))"

definition serviceRoutingRuleKey :: "RoutingRule \<Rightarrow> (routing_error, string) outcome" where
  "serviceRoutingRuleKey rule =
     obind (serviceRoutingScopeKey (scope rule)) (\<lambda>key.
       Inr (rule_serviceId rule @ ''@'' @ dec (rule_version rule) @ [CHR 0x00] @ key))"

definition parseRoutingDocument :: "(string \<Rightarrow> bool) \<Rightarrow> jsval \<Rightarrow> (routing_error, RoutingDocument) outcome" where
  "parseRoutingDocument date_ok v =
     (if \<not> is_record v then Inl (RoutingError ''Service routing document must be an object'')
      else if prop_of v ''schemaVersion'' \<noteq> JNumber (JInt 1) then Inl (RoutingError ''Service routing schemaVersion is unsupported'')
      else case prop_of v ''rules'' of
             JArray raw \<Rightarrow>
               obind (ocollect (map parseRoutingRule raw)) (\<lambda>rs.
               obind (ocollect (map serviceRoutingRuleKey rs)) (\<lambda>keys.
               if length (remdups keys) \<noteq> length keys then Inl (RoutingError ''Service routing rule identities must be unique'')
               else obind (text_value (prop_of v ''updatedAt'') ''updatedAt'') (\<lambda>at.
                 if \<not> date_ok at then Inl (RoutingError ''updatedAt must be an ISO timestamp'')
                 else obind (revision (prop_of v ''revision'') ''revision'' True) (\<lambda>rev.
                   Inr \<lparr>doc_revision = rev, rules = rs, updatedAt = at\<rparr>))))
           | _ \<Rightarrow> Inl (RoutingError ''Service routing rules must be an array''))"

definition parse_storage_state :: "jsval \<Rightarrow> storage_state option" where
  "parse_storage_state v =
     (if v = JString ''missing'' then Some StorageMissing
      else if v = JString ''ready'' then Some StorageReady
      else if v = JString ''stale'' then Some StorageStale
      else None)"

definition parseRoutingSnapshot :: "(string \<Rightarrow> bool) \<Rightarrow> jsval \<Rightarrow> (routing_error, RoutingSnapshot) outcome" where
  "parseRoutingSnapshot date_ok v =
     (if \<not> is_record v then Inl (RoutingError ''Service routing snapshot must be an object'')
      else case parse_storage_state (prop_of v ''storageState'') of
             None \<Rightarrow> Inl (RoutingError ''Service routing storageState is unsupported'')
           | Some st \<Rightarrow>
               (case prop_of v ''authoritative'' of
                  JBool auth \<Rightarrow>
                    (case prop_of v ''diagnostics'' of
                       JArray ds \<Rightarrow>
                         obind (parseRoutingDocument date_ok (prop_of v ''document'')) (\<lambda>doc.
                         obind (text_value (prop_of v ''hostId'') ''hostId'') (\<lambda>host.
                         Inr \<lparr>authoritative = auth, snap_diagnostics = ds, snap_document = doc, hostId = host, storageState = st\<rparr>))
                     | _ \<Rightarrow> Inl (RoutingError ''Service routing diagnostics must be an array''))
                | _ \<Rightarrow> Inl (RoutingError ''Service routing authoritative must be boolean'')))"

definition parseRoutingUpdateRequest :: "jsval \<Rightarrow> (routing_error, RoutingUpdateRequest) outcome" where
  "parseRoutingUpdateRequest v =
     (if \<not> is_record v then Inl (RoutingError ''Service routing update request must be an object'')
      else obind (revision (prop_of v ''expectedRevision'') ''expectedRevision'' True) (\<lambda>rev.
           obind (parseRoutingRule (prop_of v ''rule'')) (\<lambda>rule.
           Inr \<lparr>update_expectedRevision = rev, update_rule = rule\<rparr>)))"

definition parseRoutingRemoveRequest :: "jsval \<Rightarrow> (routing_error, RoutingRemoveRequest) outcome" where
  "parseRoutingRemoveRequest v =
     (if \<not> is_record v then Inl (RoutingError ''Service routing remove request must be an object'')
      else obind (revision (prop_of v ''expectedRevision'') ''expectedRevision'' True) (\<lambda>rev.
           obind (parseRoutingContext False (prop_of v ''scope'')) (\<lambda>sc.
           obind (serviceId (prop_of v ''serviceId'') ''serviceId'') (\<lambda>sid.
           obind (revision (prop_of v ''version'') ''version'' False) (\<lambda>ver.
           Inr \<lparr>remove_expectedRevision = rev, remove_scope = sc, remove_serviceId = sid, remove_version = ver\<rparr>)))))"

definition defaultRoutingDocument :: RoutingDocument where
  "defaultRoutingDocument = \<lparr>doc_revision = 0, rules = [], updatedAt = ''1970-01-01T00:00:00.000Z''\<rparr>"

text \<open>
  The storage snapshot of an extension: \<open>exists\<close>, and of its document the \<open>data\<close> object, the revision and the
  time. The later properties of the object literal replace those of the spread.
\<close>

record StorageSnapshot =
  storage_exists :: bool
  storage_data :: "(string \<times> jsval) list"
  storage_revision :: jsnum
  storage_updatedAt :: string

definition serviceRoutingDocumentFromStorage :: "(string \<Rightarrow> bool) \<Rightarrow> StorageSnapshot \<Rightarrow> (routing_error, RoutingDocument) outcome" where
  "serviceRoutingDocumentFromStorage date_ok snapshot =
     (let base = (if storage_exists snapshot then storage_data snapshot
                  else [(''revision'', JNumber (JInt 0)), (''rules'', JArray []), (''schemaVersion'', JNumber (JInt 1)),
                        (''updatedAt'', JString (updatedAt defaultRoutingDocument))])
      in parseRoutingDocument date_ok (JObject
           (AList.update ''updatedAt'' (JString (storage_updatedAt snapshot))
           (AList.update ''schemaVersion'' (JNumber (JInt 1))
           (AList.update ''revision'' (JNumber (storage_revision snapshot)) base)))))"

section \<open>Resolution\<close>

text \<open>The index of the most specific dimension, -1 when there is none, and the number of dimensions.\<close>

definition precedence :: "routing_context \<Rightarrow> int \<times> nat" where
  "precedence sc =
     (let picked = filter (\<lambda>i. map_of sc (SCOPE_FIELDS ! i) \<noteq> None) [0..<length SCOPE_FIELDS]
      in (fold (\<lambda>i highest. max highest (int i)) picked (-1), length picked))"

definition matchesContext :: "routing_context \<Rightarrow> routing_context \<Rightarrow> bool" where
  "matchesContext sc ctx \<longleftrightarrow>
     list_all (\<lambda>field. map_of sc field = None \<or> map_of sc field = map_of ctx field) SCOPE_FIELDS"

fun contains :: "string \<Rightarrow> string \<Rightarrow> bool" where
  "contains pat [] = (pat = [])"
| "contains pat (c # s) = (prefix pat (c # s) \<or> contains pat s)"

definition routingDiagnostic :: "string \<Rightarrow> string \<Rightarrow> RoutingDiagnostic" where
  "routingDiagnostic code msg =
     \<lparr>diag_code = code, diag_message = msg, severity = (if contains ''fallback'' code then ''warning'' else ''error'')\<rparr>"

definition rank :: "RoutingRule \<Rightarrow> int \<times> nat" where
  "rank rule = precedence (scope rule)"

text \<open>\<open>left\<close> before \<open>right\<close> when its precedence is larger: \<open>sort_key\<close> on the negated pair, a stable sort.\<close>

definition rank_order :: "RoutingRule \<Rightarrow> int \<times> int" where
  "rank_order rule = (- fst (rank rule), - int (snd (rank rule)))"

definition matching_rules :: "RoutingDocument \<Rightarrow> routing_context \<Rightarrow> string \<Rightarrow> nat \<Rightarrow> RoutingRule list" where
  "matching_rules doc ctx sid ver =
     sort_key rank_order
       (filter (\<lambda>rule. rule_serviceId rule = sid \<and> rule_version rule = ver \<and> matchesContext (scope rule) ctx) (rules doc))"

definition service_label :: "string \<Rightarrow> nat \<Rightarrow> string" where
  "service_label sid ver = sid @ ''@'' @ dec ver"

definition no_rule_applies :: "string \<Rightarrow> RoutingCandidate list \<Rightarrow> RoutingDiagnostic list \<Rightarrow> RoutingResolution" where
  "no_rule_applies label cands ds =
     (case cands of
        [c] \<Rightarrow> \<lparr>diagnostics = ds, matchedRule = None, res_providerId = Some (providerId c), res_providerKey = Some (providerKey c),
                status = Resolved\<rparr>
      | c # c' # cs \<Rightarrow>
          \<lparr>diagnostics = ds @ [routingDiagnostic ''service_selection_ambiguous''
             (''Multiple providers are available for '' @ label @ ''; an explicit routing rule is required'')],
           matchedRule = None, res_providerId = None, res_providerKey = None, status = Ambiguous\<rparr>
      | [] \<Rightarrow>
          \<lparr>diagnostics = ds @ [routingDiagnostic ''service_provider_unavailable'' (''No provider is available for '' @ label)],
           matchedRule = None, res_providerId = None, res_providerKey = None, status = Unavailable\<rparr>)"

function route :: "string \<Rightarrow> RoutingCandidate list \<Rightarrow> RoutingRule list \<Rightarrow> RoutingDiagnostic list \<Rightarrow> RoutingResolution" where
  "route label cands [] ds = no_rule_applies label cands ds"
| "route label cands (rule # others) ds =
     (let peers = takeWhile (\<lambda>r. rank r = rank rule) (rule # others)
      in if 1 < length (remdups (map rule_providerKey peers)) then
           \<lparr>diagnostics = [routingDiagnostic ''service_selection_scope_conflict''
              (''Multiple equally specific routing rules select different providers for '' @ label)],
            matchedRule = None, res_providerId = None, res_providerKey = None, status = Ambiguous\<rparr>
         else (case find (\<lambda>c. providerKey c = rule_providerKey rule) cands of
                 Some provider \<Rightarrow>
                   \<lparr>diagnostics = ds, matchedRule = Some rule, res_providerId = Some (providerId provider),
                    res_providerKey = Some (providerKey provider), status = Resolved\<rparr>
               | None \<Rightarrow>
                   let ds = ds @ [routingDiagnostic
                         (if allowFallback rule then ''service_selection_fallback'' else ''service_selection_provider_unavailable'')
                         (''Selected provider '' @ rule_providerKey rule @ '' is unavailable for '' @ label)]
                   in if \<not> allowFallback rule then
                        \<lparr>diagnostics = ds, matchedRule = Some rule, res_providerId = None,
                         res_providerKey = Some (rule_providerKey rule), status = Unavailable\<rparr>
                      else route label cands (dropWhile (\<lambda>r. rank r = rank rule) others) ds))"
  by pat_completeness auto
termination
  by (relation "measure (\<lambda>(label, cands, rs, ds). length rs)") (auto simp: le_imp_less_Suc length_dropWhile_le)

definition usable_candidates :: "RoutingCandidate list \<Rightarrow> RoutingCandidate list" where
  "usable_candidates cands = filter (\<lambda>c. trim (providerId c) \<noteq> [] \<and> trim (providerKey c) \<noteq> []) cands"

text \<open>\<open>options.context ?? {}\<close>\<close>

definition given_context :: "jsval \<Rightarrow> jsval" where
  "given_context v = (if v = JUndefined \<or> v = JNull then JObject [] else v)"

definition resolveServiceRouting ::
  "(string \<Rightarrow> bool) \<Rightarrow> RoutingCandidate list \<Rightarrow> jsval \<Rightarrow> jsval \<Rightarrow> jsval \<Rightarrow> jsval \<Rightarrow> (routing_error, RoutingResolution) outcome" where
  "resolveServiceRouting date_ok candidates ctx_value doc_value sid_value ver_value =
     obind (parseRoutingDocument date_ok doc_value) (\<lambda>doc.
     obind (parseRoutingContext True (given_context ctx_value)) (\<lambda>ctx.
     obind (serviceId sid_value ''serviceId'') (\<lambda>sid.
     obind (revision ver_value ''version'' False) (\<lambda>ver.
     Inr (route (service_label sid ver) (usable_candidates candidates) (matching_rules doc ctx sid ver) [])))))"

section \<open>Scopes and keys\<close>

lemma trim_last: "trim s \<noteq> [] \<Longrightarrow> \<not> js_space (last (trim s))"
  by (simp add: trim_def last_rev hd_dropWhile)

lemma trim_hd: "trim s \<noteq> [] \<Longrightarrow> \<not> js_space (hd (trim s))"
proof -
  assume ne: "trim s \<noteq> []"
  define u where "u = dropWhile js_space s"
  obtain a where a: "u = trim s @ a"
    using takeWhile_dropWhile_id [of js_space "rev u"] by (metis rev_append rev_rev_ident trim_def u_def)
  with ne have "u \<noteq> []" "hd u = hd (trim s)" by auto
  then show ?thesis unfolding u_def by (metis hd_dropWhile)
qed

lemma trim_idem [simp]: "trim (trim s) = trim s"
proof (cases "trim s = []")
  case True
  moreover have "trim [] = []" by (simp add: trim_def)
  ultimately show ?thesis by simp
next
  case False
  then have "dropWhile js_space (trim s) = trim s" "dropWhile js_space (rev (trim s)) = rev (trim s)"
    using trim_hd trim_last by (auto simp: dropWhile_eq_self_iff hd_rev)
  then show ?thesis by (simp add: trim_def [of "trim s"])
qed

definition in_order :: "string list \<Rightarrow> (string \<rightharpoonup> string) \<Rightarrow> routing_context" where
  "in_order names m = concat (map (\<lambda>f. case m f of None \<Rightarrow> [] | Some t \<Rightarrow> [(f, t)]) names)"

definition context_ok :: "routing_context \<Rightarrow> bool" where
  "context_ok ctx \<longleftrightarrow> ctx = in_order SCOPE_FIELDS (map_of ctx) \<and> (\<forall>(f, t) \<in> set ctx. t \<noteq> [] \<and> trim t = t)"

lemma text_value_Inr: "text_value v label = Inr t \<longleftrightarrow> (\<exists>s. v = JString s \<and> trim s \<noteq> [] \<and> t = trim s)"
  by (auto simp: text_value_def split: jsval.splits)

lemma in_order_cong: "(\<And>f. f \<in> set names \<Longrightarrow> m f = m' f) \<Longrightarrow> in_order names m = in_order names m'"
  by (simp add: in_order_def cong: map_cong)

lemma parse_fields_Inr:
  assumes "parse_fields raw names = Inr ctx" "distinct names"
  shows "fst ` set ctx \<subseteq> set names" "ctx = in_order names (map_of ctx)" "\<forall>(f, t) \<in> set ctx. t \<noteq> [] \<and> trim t = t"
  using assms
proof (induction names arbitrary: ctx)
  case Nil
  {
    case 1 then show ?case by simp
  next
    case 2 then show ?case by (simp add: in_order_def)
  next
    case 3 then show ?case by simp
  }
next
  case (Cons f names)
  have "fst ` set ctx \<subseteq> set (f # names) \<and> ctx = in_order (f # names) (map_of ctx) \<and> (\<forall>(f, t) \<in> set ctx. t \<noteq> [] \<and> trim t = t)"
    if p: "parse_fields raw (f # names) = Inr ctx" and d: "distinct (f # names)" for ctx
  proof (cases "prop_of raw f = JUndefined")
    case True
    then have q: "parse_fields raw names = Inr ctx" using p by simp
    note ih = Cons.IH [OF q]
    then have "map_of ctx f = None" using d by (auto simp: map_of_eq_None_iff)
    then show ?thesis using ih d by (auto simp: in_order_def)
  next
    case False
    then obtain s c where q: "prop_of raw f = JString s" "trim s \<noteq> []" "parse_fields raw names = Inr c" "ctx = (f, trim s) # c"
      using p by (auto simp: obind_Inr_iff text_value_Inr)
    note ih = Cons.IH [OF q(3)]
    have "in_order names (map_of ctx) = in_order names (map_of c)"
      using d q(4) by (intro in_order_cong) auto
    then have "ctx = in_order (f # names) (map_of ctx)"
      using ih(2) d q(4) by (simp add: in_order_def)
    moreover have "fst ` set ctx \<subseteq> set (f # names)" using ih(1) d q(4) by auto
    moreover have "\<forall>(f, t) \<in> set ctx. t \<noteq> [] \<and> trim t = t" using ih(3) d q(2,4) by simp
    ultimately show ?thesis by blast
  qed
  note all = this
  {
    case 1 then show ?case using all by blast
  next
    case 2 then show ?case using all by blast
  next
    case 3 then show ?case using all by blast
  }
qed

lemma parse_fields_stored:
  assumes "\<And>f. f \<in> set names \<Longrightarrow> prop_of raw f = (case m f of None \<Rightarrow> JUndefined | Some t \<Rightarrow> JString t)"
    and "\<And>f t. m f = Some t \<Longrightarrow> t \<noteq> [] \<and> trim t = t"
  shows "parse_fields raw names = Inr (in_order names m)"
  using assms(1)
proof (induction names)
  case Nil
  then show ?case by (simp add: in_order_def)
next
  case (Cons f names)
  then show ?case
    using assms(2) [of f] by (cases "m f") (auto simp: in_order_def text_value_def)
qed

lemma map_of_JString: "map_of (map (\<lambda>(f, t). (f, JString t)) ctx) f = map_option JString (map_of ctx f)"
  by (induction ctx) auto

lemma context_reparse:
  assumes "context_ok ctx"
  shows "parseRoutingContext allowEmpty (context_value ctx) =
    (if \<not> allowEmpty \<and> ctx = [] then Inl (RoutingError ''Service routing scope must select at least one context dimension'') else Inr ctx)"
proof -
  have "parse_fields (context_value ctx) SCOPE_FIELDS = Inr (in_order SCOPE_FIELDS (map_of ctx))"
  proof (rule parse_fields_stored)
    show "prop_of (context_value ctx) f = (case map_of ctx f of None \<Rightarrow> JUndefined | Some t \<Rightarrow> JString t)" for f
      by (simp add: context_value_def own_prop_def map_of_JString split: option.split)
    show "t \<noteq> [] \<and> trim t = t" if "map_of ctx f = Some t" for f t
      using assms map_of_SomeD [OF that] by (auto simp: context_ok_def)
  qed
  then have "parse_fields (context_value ctx) SCOPE_FIELDS = Inr ctx"
    using assms by (simp add: context_ok_def)
  then show ?thesis
    by (simp add: parseRoutingContext_def is_record_def context_value_def)
qed

lemma scope_fields_distinct: "distinct SCOPE_FIELDS"
  by (simp add: SCOPE_FIELDS_def)

lemma parseRoutingContext_ok:
  assumes "parseRoutingContext allowEmpty v = Inr ctx"
  shows "context_ok ctx \<and> (allowEmpty \<or> ctx \<noteq> [])"
proof -
  have p: "parse_fields v SCOPE_FIELDS = Inr ctx" and "allowEmpty \<or> ctx \<noteq> []"
    using assms by (auto simp: parseRoutingContext_def obind_Inr_iff split: if_splits)
  then show ?thesis
    using parse_fields_Inr(2,3) [OF p scope_fields_distinct] unfolding context_ok_def by blast
qed

definition scope_part :: "string \<times> string \<Rightarrow> string" where
  "scope_part x = fst x @ ''='' @ json_string (snd x)"

lemma scope_key_parts:
  assumes "context_ok ctx"
  shows "scope_key_text ctx = join_with ''&'' (map scope_part ctx)"
proof -
  have "t \<noteq> []" if "map_of ctx f = Some t" for f t
    using assms map_of_SomeD [OF that] by (auto simp: context_ok_def)
  then have "map scope_part (in_order names (map_of ctx)) = concat (map (\<lambda>field. case map_of ctx field of
         None \<Rightarrow> [] | Some t \<Rightarrow> if t = [] then [] else [field @ ''='' @ json_string t]) names)" for names
    by (induction names) (auto simp: in_order_def scope_part_def split: option.split)
  then show ?thesis
    using assms unfolding scope_key_text_def context_ok_def by metis
qed

lemma scope_part_prefix_code:
  assumes "CHR ''='' \<notin> set (fst x)" "CHR ''='' \<notin> set (fst y)" "scope_part x @ r = scope_part y @ s"
  shows "x = y \<and> r = s"
proof -
  have "fst x = fst y \<and> json_string (snd x) @ r = json_string (snd y) @ s"
    using prefix_sep_split [OF assms(1,2), of "json_string (snd x) @ r" "json_string (snd y) @ s"] assms(3)
    by (simp add: scope_part_def)
  then show ?thesis
    using json_string_prefix_code by (metis prod.expand)
qed

lemma scope_parts_inject:
  "join_with ''&'' (map scope_part xs) = join_with ''&'' (map scope_part ys) \<Longrightarrow>
   \<forall>x \<in> set xs \<union> set ys. CHR ''='' \<notin> set (fst x) \<Longrightarrow> xs = ys"
proof (induction xs arbitrary: ys)
  case Nil
  then show ?case by (cases ys) (auto simp: join_with_Cons scope_part_def)
next
  case (Cons x xs)
  show ?case
  proof (cases ys)
    case Nil
    then show ?thesis using Cons.prems by (simp add: join_with_Cons scope_part_def)
  next
    case (Cons y zs)
    define tail where "tail = (\<lambda>us. if us = [] then [] else ''&'' @ join_with ''&'' (map scope_part us))"
    have "scope_part x @ tail xs = scope_part y @ tail zs"
      using Cons.prems(1) Cons by (simp add: join_with_Cons tail_def)
    then have xy: "x = y" "tail xs = tail zs"
      using scope_part_prefix_code Cons.prems(2) Cons by (metis UnI1 UnI2 list.set_intros(1))+
    then have "xs = zs"
      using Cons.IH [of zs] Cons.prems(2) Cons by (auto simp: tail_def split: if_splits)
    then show ?thesis using Cons xy by simp
  qed
qed

lemma set_in_order: "set (in_order names m) = {(f, t). f \<in> set names \<and> m f = Some t}"
  by (induction names) (auto simp: in_order_def split: option.splits)

lemma context_field: "context_ok ctx \<Longrightarrow> x \<in> set ctx \<Longrightarrow> fst x \<in> set SCOPE_FIELDS"
  using set_in_order [of SCOPE_FIELDS "map_of ctx"] by (force simp: context_ok_def)

lemma scope_field_clean: "f \<in> set SCOPE_FIELDS \<Longrightarrow> CHR ''='' \<notin> set f"
  by (auto simp: SCOPE_FIELDS_def)

lemma scope_key_inject:
  assumes "context_ok a" "context_ok b"
  shows "scope_key_text a = scope_key_text b \<longleftrightarrow> a = b"
proof
  assume "scope_key_text a = scope_key_text b"
  then show "a = b"
    using scope_parts_inject [of a b] context_field assms scope_field_clean
    by (simp add: scope_key_parts) blast
qed simp

lemma id_rest_clean: "id_rest b s \<Longrightarrow> CHR ''@'' \<notin> set s"
  by (induction b s rule: id_rest.induct) (auto simp: id_letter_def split: if_splits)

definition rule_ok :: "RoutingRule \<Rightarrow> bool" where
  "rule_ok rule \<longleftrightarrow> context_ok (scope rule) \<and> scope rule \<noteq> [] \<and> ID_PATTERN (rule_serviceId rule)"

lemma parseRoutingRule_ok: "parseRoutingRule v = Inr rule \<Longrightarrow> rule_ok rule"
  by (auto simp: parseRoutingRule_def obind_Inr_iff rule_ok_def serviceId_def
      dest: parseRoutingContext_ok split: if_splits jsval.splits)

lemma rule_key_Inr:
  "rule_ok rule \<Longrightarrow> serviceRoutingRuleKey rule
    = Inr (rule_serviceId rule @ ''@'' @ dec (rule_version rule) @ [CHR 0x00] @ scope_key_text (scope rule))"
  by (simp add: serviceRoutingRuleKey_def serviceRoutingScopeKey_def rule_ok_def context_reparse)

lemma rule_key_inject:
  assumes "rule_ok a" "rule_ok b"
  shows "serviceRoutingRuleKey a = serviceRoutingRuleKey b
    \<longleftrightarrow> rule_serviceId a = rule_serviceId b \<and> rule_version a = rule_version b \<and> scope a = scope b"
proof -
  have at: "CHR ''@'' \<notin> set (rule_serviceId a)" "CHR ''@'' \<notin> set (rule_serviceId b)"
    using assms id_rest_clean by (auto simp: rule_ok_def ID_PATTERN_def)
  have nul: "CHR 0x00 \<notin> set (dec n)" for n
    using dec_digits [of n] by (auto simp: is_digit_def)
  have key: "scope_key_text (scope a) = scope_key_text (scope b) \<longleftrightarrow> scope a = scope b"
    using assms scope_key_inject by (simp add: rule_ok_def)
  let ?rest = "\<lambda>rule. dec (rule_version rule) @ CHR 0x00 # scope_key_text (scope rule)"
  have "serviceRoutingRuleKey a = serviceRoutingRuleKey b
      \<longleftrightarrow> rule_serviceId a @ CHR ''@'' # ?rest a = rule_serviceId b @ CHR ''@'' # ?rest b"
    by (simp add: rule_key_Inr [OF assms(1)] rule_key_Inr [OF assms(2)])
  also have "\<dots> \<longleftrightarrow> rule_serviceId a = rule_serviceId b \<and> ?rest a = ?rest b"
    using prefix_sep_split [OF at, of "?rest a" "?rest b"] by metis
  also have "?rest a = ?rest b \<longleftrightarrow> rule_version a = rule_version b \<and> scope a = scope b"
    using prefix_sep_split [OF nul nul, of "rule_version a" "scope_key_text (scope a)" "rule_version b" "scope_key_text (scope b)"] key
    by (metis dec_inject)
  finally show ?thesis .
qed

section \<open>Choice of a rule\<close>

definition available :: "RoutingCandidate list \<Rightarrow> RoutingRule \<Rightarrow> bool" where
  "available cands rule \<longleftrightarrow> (\<exists>c \<in> set cands. providerKey c = rule_providerKey rule)"

definition more_specific :: "RoutingRule \<Rightarrow> RoutingRule \<Rightarrow> bool" where
  "more_specific a b \<longleftrightarrow> rank_order a < rank_order b"

lemma rank_order_eq: "rank_order a = rank_order b \<longleftrightarrow> rank a = rank b"
  by (auto simp: rank_order_def prod_eq_iff)

lemma peers_of_sorted:
  assumes "sorted (map rank_order (rule # others))"
  shows "set (takeWhile (\<lambda>r. rank r = rank rule) (rule # others)) = {r \<in> set (rule # others). rank r = rank rule}"
    "\<forall>r \<in> set (dropWhile (\<lambda>r. rank r = rank rule) others). more_specific rule r"
    "sorted (map rank_order (dropWhile (\<lambda>r. rank r = rank rule) others))"
proof -
  have lower: "more_specific rule r" if "r \<in> set (dropWhile (\<lambda>r. rank r = rank rule) rs)" "sorted (map rank_order (rule # rs))" for r rs
    using that
  proof (induction rs)
    case (Cons x xs)
    show ?case
    proof (cases "rank x = rank rule")
      case True
      then show ?thesis using Cons by simp
    next
      case False
      then have "rank_order rule < rank_order x"
        using Cons.prems(2) rank_order_eq by (metis list.simps(9) list.set_intros(1) order.not_eq_order_implies_strict sorted_simps(2))
      then show ?thesis
        using False Cons.prems by (auto simp: more_specific_def intro: less_le_trans)
    qed
  qed simp
  show low: "\<forall>r \<in> set (dropWhile (\<lambda>r. rank r = rank rule) others). more_specific rule r"
    using lower assms by blast
  have "set (takeWhile (\<lambda>r. rank r = rank rule) others) = {r \<in> set others. rank r = rank rule}"
  proof (intro equalityI subsetI)
    fix r assume "r \<in> {r \<in> set others. rank r = rank rule}"
    then have r: "r \<in> set others" "rank r = rank rule" by auto
    then have "r \<notin> set (dropWhile (\<lambda>r. rank r = rank rule) others)"
      using low rank_order_eq [of r rule] by (auto simp: more_specific_def)
    then show "r \<in> set (takeWhile (\<lambda>r. rank r = rank rule) others)"
      using r(1) by (metis Un_iff set_append takeWhile_dropWhile_id)
  qed (auto dest: set_takeWhileD)
  then show "set (takeWhile (\<lambda>r. rank r = rank rule) (rule # others)) = {r \<in> set (rule # others). rank r = rank rule}"
    by auto
  show "sorted (map rank_order (dropWhile (\<lambda>r. rank r = rank rule) others))"
    using assms sorted_wrt_drop by (metis dropWhile_eq_drop drop_map list.simps(9) sorted_simps(2))
qed

text \<open>What a resolution says about the rules that match.\<close>

definition resolution_ok :: "RoutingCandidate list \<Rightarrow> RoutingRule set \<Rightarrow> RoutingResolution \<Rightarrow> bool" where
  "resolution_ok cands R res \<longleftrightarrow>
     (case matchedRule res of
        Some rule \<Rightarrow> rule \<in> R
          \<and> (\<forall>r \<in> R. rank r = rank rule \<longrightarrow> rule_providerKey r = rule_providerKey rule)
          \<and> (\<forall>r \<in> R. more_specific r rule \<longrightarrow> \<not> available cands r)
          \<and> res_providerKey res = Some (rule_providerKey rule)
          \<and> (if available cands rule
             then status res = Resolved \<and> (\<exists>c \<in> set cands. res_providerId res = Some (providerId c) \<and> providerKey c = rule_providerKey rule)
             else status res = Unavailable \<and> \<not> allowFallback rule \<and> res_providerId res = None)
      | None \<Rightarrow>
          (case status res of
             Resolved \<Rightarrow> (\<exists>c. cands = [c] \<and> res_providerId res = Some (providerId c) \<and> res_providerKey res = Some (providerKey c))
               \<and> (\<forall>r \<in> R. \<not> available cands r)
           | Unavailable \<Rightarrow> cands = [] \<and> res_providerId res = None
           | Ambiguous \<Rightarrow> res_providerId res = None
               \<and> ((\<exists>r \<in> R. \<exists>r' \<in> R. rank r = rank r' \<and> rule_providerKey r \<noteq> rule_providerKey r')
                  \<or> 1 < length cands \<and> (\<forall>r \<in> R. \<not> available cands r))))"

lemma remdups_one: "\<not> 1 < length (remdups xs) \<Longrightarrow> x \<in> set xs \<Longrightarrow> y \<in> set xs \<Longrightarrow> x = y"
proof -
  assume a: "\<not> 1 < length (remdups xs)" "x \<in> set xs" "y \<in> set xs"
  then have "card (set xs) \<le> 1" by (simp add: length_remdups_card_conv)
  then show "x = y" using a by (metis List.finite_set One_nat_def card_le_Suc0_iff_eq)
qed

lemma remdups_two: "1 < length (remdups xs) \<Longrightarrow> \<exists>x \<in> set xs. \<exists>y \<in> set xs. x \<noteq> y"
  by (metis List.finite_set One_nat_def card_le_Suc0_iff_eq length_remdups_card_conv not_le)

lemma more_specific_rank: "more_specific a b \<Longrightarrow> rank a \<noteq> rank b"
  using rank_order_eq [of a b] by (auto simp: more_specific_def)

lemma more_specific_irrefl_trans:
  "\<not> more_specific a a" "more_specific a b \<Longrightarrow> more_specific b c \<Longrightarrow> more_specific a c"
  "more_specific a b \<Longrightarrow> \<not> more_specific b a" "rank a = rank a' \<Longrightarrow> more_specific a b = more_specific a' b"
  by (auto simp: more_specific_def rank_order_def)

lemma resolution_matched:
  assumes "rule \<in> R" "\<And>r. r \<in> R \<Longrightarrow> rank r = rank rule \<Longrightarrow> rule_providerKey r = rule_providerKey rule"
    and "\<And>r. r \<in> R \<Longrightarrow> more_specific r rule \<Longrightarrow> \<not> available cands r"
    and "matchedRule res = Some rule" "res_providerKey res = Some (rule_providerKey rule)"
    and "if available cands rule
         then status res = Resolved \<and> (\<exists>c \<in> set cands. res_providerId res = Some (providerId c) \<and> providerKey c = rule_providerKey rule)
         else status res = Unavailable \<and> \<not> allowFallback rule \<and> res_providerId res = None"
  shows "resolution_ok cands R res"
  unfolding resolution_ok_def assms(4) option.case using assms(1-3,5,6) by blast

lemma route_ok:
  assumes "sorted (map rank_order rs)"
    and "\<forall>e \<in> E. \<not> available cands e" "\<forall>e \<in> E. \<forall>r \<in> set rs. more_specific e r"
  shows "resolution_ok cands (E \<union> set rs) (route label cands rs ds)"
  using assms
proof (induction label cands rs ds arbitrary: E rule: route.induct)
  case (1 label cands ds)
  show ?case
    using "1.prems"(2) by (cases cands; cases "List.tl cands") (auto simp: no_rule_applies_def resolution_ok_def split: list.splits)
next
  case (2 label cands rule others ds)
  note peers = peers_of_sorted [OF "2.prems"(1)]
  let ?peers = "takeWhile (\<lambda>r. rank r = rank rule) (rule # others)"
    and ?rest = "dropWhile (\<lambda>r. rank r = rank rule) others"
  have all: "set (rule # others) = set ?peers \<union> set ?rest"
    using takeWhile_dropWhile_id [of "\<lambda>r. rank r = rank rule" others] by (simp flip: set_append)
  have E: "rank e \<noteq> rank rule" "more_specific e rule" if "e \<in> E" for e
    using "2.prems"(3) that more_specific_rank by auto
  show ?case
  proof (cases "1 < length (remdups (map rule_providerKey ?peers))")
    case True
    then obtain x y where xy: "x \<in> set ?peers" "y \<in> set ?peers" "rule_providerKey x \<noteq> rule_providerKey y"
      using remdups_two [OF True] by (auto simp del: takeWhile.simps)
    then have "x \<in> set (rule # others)" "y \<in> set (rule # others)" "rank x = rank y"
      unfolding peers(1) by simp_all
    then have "\<exists>r \<in> E \<union> set (rule # others). \<exists>r' \<in> E \<union> set (rule # others).
        rank r = rank r' \<and> rule_providerKey r \<noteq> rule_providerKey r'"
      using xy(3) by blast
    then show ?thesis using True by (simp add: resolution_ok_def)
  next
    case False
    have same: "rule_providerKey r = rule_providerKey rule" if "r \<in> E \<union> set (rule # others)" "rank r = rank rule" for r
    proof -
      have "r \<in> set ?peers" "rule \<in> set ?peers" using that E(1) unfolding peers(1) by auto
      then have "rule_providerKey r \<in> set (map rule_providerKey ?peers)" "rule_providerKey rule \<in> set (map rule_providerKey ?peers)"
        unfolding set_map by blast+
      then show ?thesis by (rule remdups_one [OF False])
    qed
    have above: "\<not> available cands r" if "r \<in> E \<union> set (rule # others)" "more_specific r rule" for r
    proof -
      have "r \<notin> set ?peers" using that(2) more_specific_rank unfolding peers(1) by blast
      moreover have "r \<notin> set ?rest" using that(2) peers(2) more_specific_irrefl_trans(3) by blast
      ultimately show ?thesis using that(1) all "2.prems"(2) by blast
    qed
    show ?thesis
    proof (cases "find (\<lambda>c. providerKey c = rule_providerKey rule) cands")
      case (Some c)
      then have c: "c \<in> set cands" "providerKey c = rule_providerKey rule"
        by (auto simp: find_Some_iff in_set_conv_nth)
      then have a: "available cands rule" by (auto simp: available_def)
      have eq: "route label cands (rule # others) ds = \<lparr>diagnostics = ds, matchedRule = Some rule,
          res_providerId = Some (providerId c), res_providerKey = Some (providerKey c), status = Resolved\<rparr>"
        unfolding route.simps Let_def if_not_P [OF False] Some by simp
      show ?thesis
        unfolding eq by (rule resolution_matched [OF _ same above]) (use a c in auto)
    next
      case None
      then have no: "\<not> available cands rule" by (auto simp: available_def find_None_iff)
      show ?thesis
      proof (cases "allowFallback rule")
        case strict: False
        have "matchedRule (route label cands (rule # others) ds) = Some rule"
          "res_providerKey (route label cands (rule # others) ds) = Some (rule_providerKey rule)"
          "status (route label cands (rule # others) ds) = Unavailable"
          "res_providerId (route label cands (rule # others) ds) = None"
          unfolding route.simps Let_def if_not_P [OF False] None by (simp_all add: strict)
        then show ?thesis
          by (intro resolution_matched [OF _ same above]) (use no strict in auto)
      next
        case True
        let ?ds = "ds @ [routingDiagnostic ''service_selection_fallback''
              (''Selected provider '' @ rule_providerKey rule @ '' is unavailable for '' @ label)]"
        have "\<not> available cands r" if "r \<in> set ?peers" for r
          using same [of r] no that unfolding peers(1) available_def by auto
        then have unavailable: "\<forall>e \<in> E \<union> set ?peers. \<not> available cands e"
          using "2.prems"(2) by blast
        have "more_specific e r" if "e \<in> set ?peers" "r \<in> set ?rest" for e r
          using peers(2) that more_specific_irrefl_trans(4) [of e rule r] unfolding peers(1) by simp
        moreover have "more_specific e r" if "e \<in> E" "r \<in> set ?rest" for e r
          using E(2) peers(2) that more_specific_irrefl_trans(2) by blast
        ultimately have "\<forall>e \<in> E \<union> set ?peers. \<forall>r \<in> set ?rest. more_specific e r"
          by blast
        then have "resolution_ok cands (E \<union> set ?peers \<union> set ?rest) (route label cands ?rest ?ds)"
          using "2.IH" [OF refl False None refl _ peers(3) unavailable] unfolding if_P [OF True] using True by blast
        moreover have "route label cands (rule # others) ds = route label cands ?rest ?ds"
          unfolding route.simps Let_def if_not_P [OF False] None by (simp add: True)
        ultimately show ?thesis using all by (metis Un_assoc)
      qed
    qed
  qed
qed

section \<open>Properties\<close>

text \<open>
  Rule keys are exact: rules that were parsed have a key, and two of them have the same key exactly when they
  agree in service, version and scope, although the key is one string; so a document without repeated keys has
  at most one rule for each of them.
\<close>

theorem routing_rule_key_exact:
  assumes "parseRoutingRule v = Inr a" "parseRoutingRule w = Inr b"
  shows "\<exists>k l. serviceRoutingRuleKey a = Inr k \<and> serviceRoutingRuleKey b = Inr l
    \<and> (k = l \<longleftrightarrow> rule_serviceId a = rule_serviceId b \<and> rule_version a = rule_version b \<and> scope a = scope b)"
  using rule_key_inject [OF parseRoutingRule_ok [OF assms(1)] parseRoutingRule_ok [OF assms(2)]]
    rule_key_Inr [OF parseRoutingRule_ok [OF assms(1)]] rule_key_Inr [OF parseRoutingRule_ok [OF assms(2)]]
  by auto

theorem routing_rule_key_exact_witness:
  "\<exists>k l. serviceRoutingRuleKey \<lparr>allowFallback = True, rule_providerKey = ''p'', scope = [(''userId'', ''u'')], rule_serviceId = ''s.x'', rule_version = 1\<rparr> = Inr k
    \<and> serviceRoutingRuleKey \<lparr>allowFallback = True, rule_providerKey = ''p'', scope = [(''userId'', ''u'')], rule_serviceId = ''s.x'', rule_version = 1\<rparr> = Inr l
    \<and> (k = l \<longleftrightarrow> ''s.x'' = ''s.x'' \<and> (1 :: nat) = 1 \<and> [(''userId'', ''u'')] = [(''userId'', ''u'')])"
proof -
  let ?v = "JObject [(''allowFallback'', JBool True), (''providerKey'', JString '' p''), (''scope'', JObject [(''userId'', JString ''u'')]),
      (''serviceId'', JString ''s.x''), (''version'', JNumber (JInt 1))]"
  have "parseRoutingRule ?v =
      Inr \<lparr>allowFallback = True, rule_providerKey = ''p'', scope = [(''userId'', ''u'')], rule_serviceId = ''s.x'', rule_version = 1\<rparr>"
    by (simp add: parseRoutingRule_def is_record_def own_prop_def text_value_def trim_def js_space_def parseRoutingContext_def
        SCOPE_FIELDS_def serviceId_def ID_PATTERN_def id_letter_def revision_def MAX_SAFE_INTEGER_def)
  from routing_rule_key_exact [OF this this] show ?thesis by simp
qed



end
