(* ===== verification/Context_Expression.thy ===== *)
theory Context_Expression
  imports Complex_Main Varin_Prelude
begin

text \<open>
  Conditions of extension contributions, \<^verbatim>\<open>src/packages/extension-contract/src/context-expression.ts\<close>, and the
  table of contract versions, \<^verbatim>\<open>src/packages/extension-contract/src/compatibility.ts\<close>.

  The parser takes an unknown value whose numbers are rationals; \<open>RawNumber None\<close> is NaN or an infinity. It
  returns an expression together with the issues it pushed, and the caller throws when there are any. A context
  is a finite map.
\<close>

section \<open>Expressions\<close>

datatype VarinContextValue = StringValue string | NumberValue rat | BoolValue bool

datatype VarinContextExpression =
    Defined string
  | Equals string VarinContextValue
  | NotE VarinContextExpression
  | AllE "VarinContextExpression list"
  | AnyE "VarinContextExpression list"

datatype raw =
    RawUndefined
  | RawNull
  | RawBool bool
  | RawNumber "rat option"
  | RawString string
  | RawArray "raw list"
  | RawObject "(string \<times> raw) list"

definition raw_prop :: "(string \<times> raw) list \<Rightarrow> string \<Rightarrow> raw" where
  "raw_prop ps k = (case map_of ps k of None \<Rightarrow> RawUndefined | Some v \<Rightarrow> v)"

fun contextValue :: "raw \<Rightarrow> VarinContextValue option" where
  "contextValue (RawString s) = Some (StringValue s)"
| "contextValue (RawBool b) = Some (BoolValue b)"
| "contextValue (RawNumber (Some q)) = Some (NumberValue q)"
| "contextValue v = None"

definition checkNoExtraFields :: "(string \<times> raw) list \<Rightarrow> string list \<Rightarrow> string \<Rightarrow> string list" where
  "checkNoExtraFields ps allowed path =
     map (\<lambda>key. path @ '' has unexpected field '' @ [CHR 0x27] @ key @ [CHR 0x27])
       (filter (\<lambda>key. key \<notin> set allowed) (map fst ps))"

definition invalid :: VarinContextExpression where
  "invalid = Defined ''invalid''"

fun nonempty_string :: "raw \<Rightarrow> string option" where
  "nonempty_string (RawString s) = (if s = [] then None else Some s)"
| "nonempty_string v = None"

lemma raw_prop_size: "raw_prop ps k = v \<Longrightarrow> v \<noteq> RawUndefined \<Longrightarrow> size v < Suc (size_list (size_prod (\<lambda>_. 0) size) ps)"
proof -
  assume "raw_prop ps k = v" "v \<noteq> RawUndefined"
  then have "(k, v) \<in> set ps"
    by (auto simp: raw_prop_def split: option.splits dest: map_of_SomeD)
  then have "size_prod (\<lambda>_. 0) size (k, v) \<le> size_list (size_prod (\<lambda>_. 0) size) ps"
    by (intro size_list_estimation') auto
  then show ?thesis by simp
qed

text \<open>The operators without subexpressions, and the operators that are not known.\<close>

definition parse_flat :: "string \<Rightarrow> (string \<times> raw) list \<Rightarrow> string \<Rightarrow> VarinContextExpression \<times> string list" where
  "parse_flat op ps path =
     (if op = ''defined'' then
        let issues = checkNoExtraFields ps [''op'', ''key''] path
        in (case nonempty_string (raw_prop ps ''key'') of
              None \<Rightarrow> (invalid, issues @ [path @ ''.key must be a non-empty string''])
            | Some key \<Rightarrow> (Defined key, issues))
      else if op = ''equals'' then
        let issues = checkNoExtraFields ps [''op'', ''key'', ''value''] path
        in (case nonempty_string (raw_prop ps ''key'') of
              None \<Rightarrow> (invalid, issues @ [path @ ''.key must be a non-empty string''])
            | Some key \<Rightarrow>
                (case contextValue (raw_prop ps ''value'') of
                   None \<Rightarrow> (Defined key, issues @ [path @ ''.value must be a string, finite number, or boolean''])
                 | Some v \<Rightarrow> (Equals key v, issues)))
      else (invalid, [path @ ''.op must be defined, equals, not, all, or any'']))"

definition finish_not :: "(string \<times> raw) list \<Rightarrow> string \<Rightarrow> (VarinContextExpression \<times> string list) \<Rightarrow> VarinContextExpression \<times> string list" where
  "finish_not ps path inner =
     (let issues = checkNoExtraFields ps [''op'', ''expression''] path
      in if raw_prop ps ''expression'' = RawUndefined then (invalid, issues @ [path @ ''.expression is required''])
         else (NotE (fst inner), issues @ snd inner))"

definition finish_list ::
  "string \<Rightarrow> (string \<times> raw) list \<Rightarrow> string \<Rightarrow> (VarinContextExpression list \<times> string list) option \<Rightarrow> VarinContextExpression \<times> string list" where
  "finish_list op ps path inner =
     (let issues = checkNoExtraFields ps [''op'', ''expressions''] path;
          build = (if op = ''all'' then AllE else AnyE)
      in (case inner of
            None \<Rightarrow> (build [], issues @ [path @ ''.expressions must be an array''])
          | Some (es, inner_issues) \<Rightarrow> (build es, issues @ inner_issues)))"

function parseExpression :: "raw \<Rightarrow> string \<Rightarrow> VarinContextExpression \<times> string list"
and parse_items :: "raw list \<Rightarrow> nat \<Rightarrow> string \<Rightarrow> VarinContextExpression list \<times> string list" where
  "parseExpression value path =
     (case value of
        RawObject ps \<Rightarrow>
          (case nonempty_string (raw_prop ps ''op'') of
             None \<Rightarrow> (invalid, [path @ ''.op is required''])
           | Some op \<Rightarrow>
               if op = ''not'' then
                 finish_not ps path
                   (if raw_prop ps ''expression'' = RawUndefined then (invalid, [])
                    else parseExpression (raw_prop ps ''expression'') (path @ ''.expression''))
               else if op = ''all'' \<or> op = ''any'' then
                 finish_list op ps path
                   (case raw_prop ps ''expressions'' of RawArray items \<Rightarrow> Some (parse_items items 0 path) | _ \<Rightarrow> None)
               else parse_flat op ps path)
      | _ \<Rightarrow> (invalid, [path @ '' must be an object with an op property'']))"
| "parse_items [] index path = ([], [])"
| "parse_items (item # items) index path =
     (let (e, issues) = parseExpression item (path @ ''.expressions['' @ dec index @ '']'');
          (es, later_issues) = parse_items items (Suc index) path
      in (e # es, issues @ later_issues))"
  by pat_completeness auto
termination
  by (relation "measure (\<lambda>x. case x of Inl (v, _) \<Rightarrow> size v | Inr (vs, _, _) \<Rightarrow> size_list size vs)")
    (auto dest: raw_prop_size intro: raw_prop_size [OF refl])

declare parseExpression.simps [simp del]

definition parseVarinContextExpression :: "raw \<Rightarrow> (string list, VarinContextExpression) outcome" where
  "parseVarinContextExpression value =
     (let (e, issues) = parseExpression value ''when'' in if issues = [] then Inr e else Inl issues)"

fun evaluateVarinContextExpression :: "VarinContextExpression \<Rightarrow> (string \<rightharpoonup> VarinContextValue) \<Rightarrow> bool" where
  "evaluateVarinContextExpression (Defined key) context = (context key \<noteq> None)"
| "evaluateVarinContextExpression (Equals key v) context = (context key = Some v)"
| "evaluateVarinContextExpression (NotE e) context = (\<not> evaluateVarinContextExpression e context)"
| "evaluateVarinContextExpression (AllE es) context = list_all (\<lambda>e. evaluateVarinContextExpression e context) es"
| "evaluateVarinContextExpression (AnyE es) context = list_ex (\<lambda>e. evaluateVarinContextExpression e context) es"

text \<open>\<open>keys\<close> is a \<open>Set\<close>: adding a key that is present changes nothing.\<close>

definition add_key :: "string \<Rightarrow> string list \<Rightarrow> string list" where
  "add_key k ks = (if k \<in> set ks then ks else ks @ [k])"

fun collect_keys :: "VarinContextExpression \<Rightarrow> string list \<Rightarrow> string list" where
  "collect_keys (Defined key) ks = add_key key ks"
| "collect_keys (Equals key v) ks = add_key key ks"
| "collect_keys (NotE e) ks = collect_keys e ks"
| "collect_keys (AllE es) ks = fold collect_keys es ks"
| "collect_keys (AnyE es) ks = fold collect_keys es ks"

definition collectVarinContextExpressionKeys :: "VarinContextExpression \<Rightarrow> string list" where
  "collectVarinContextExpressionKeys e = collect_keys e []"

section \<open>Contract versions\<close>

datatype VarinContributionCompatibility =
    Supported string int
  | UnsupportedContractVersion string int "int list"

definition VARIN_CONTRIBUTION_SUPPORTED_VERSIONS :: "(string \<times> int list) list" where
  "VARIN_CONTRIBUTION_SUPPORTED_VERSIONS =
     map (\<lambda>kind. (kind, [1]))
       [''command'', ''composer-action'', ''editor'', ''keybinding'', ''menu-item'', ''message-renderer'', ''page'', ''panel'',
        ''session-decoration'', ''settings-page'', ''shell'', ''sidebar'', ''status-item'', ''transition-scene'',
        ''tool-renderer'', ''view'']"

text \<open>\<open>None\<close> when the kind is not in the table, where the code would fail on \<open>undefined\<close>.\<close>

definition checkVarinContributionCompatibility :: "string \<Rightarrow> int \<Rightarrow> VarinContributionCompatibility option" where
  "checkVarinContributionCompatibility kind contractVersion =
     (case map_of VARIN_CONTRIBUTION_SUPPORTED_VERSIONS kind of
        None \<Rightarrow> None
      | Some vs \<Rightarrow>
          Some (if contractVersion \<in> set vs then Supported kind contractVersion
                else UnsupportedContractVersion kind contractVersion vs))"

definition isVarinContributionCompatible :: "string \<Rightarrow> int \<Rightarrow> bool option" where
  "isVarinContributionCompatible kind contractVersion =
     map_option (\<lambda>c. case c of Supported k v \<Rightarrow> True | _ \<Rightarrow> False) (checkVarinContributionCompatibility kind contractVersion)"

section \<open>Printing\<close>

fun value_raw :: "VarinContextValue \<Rightarrow> raw" where
  "value_raw (StringValue s) = RawString s"
| "value_raw (NumberValue q) = RawNumber (Some q)"
| "value_raw (BoolValue b) = RawBool b"

fun expression_raw :: "VarinContextExpression \<Rightarrow> raw" where
  "expression_raw (Defined key) = RawObject [(''op'', RawString ''defined''), (''key'', RawString key)]"
| "expression_raw (Equals key v) =
     RawObject [(''op'', RawString ''equals''), (''key'', RawString key), (''value'', value_raw v)]"
| "expression_raw (NotE e) = RawObject [(''op'', RawString ''not''), (''expression'', expression_raw e)]"
| "expression_raw (AllE es) = RawObject [(''op'', RawString ''all''), (''expressions'', RawArray (map expression_raw es))]"
| "expression_raw (AnyE es) = RawObject [(''op'', RawString ''any''), (''expressions'', RawArray (map expression_raw es))]"

fun keys_ok :: "VarinContextExpression \<Rightarrow> bool" where
  "keys_ok (Defined key) = (key \<noteq> [])"
| "keys_ok (Equals key v) = (key \<noteq> [])"
| "keys_ok (NotE e) = keys_ok e"
| "keys_ok (AllE es) = list_all keys_ok es"
| "keys_ok (AnyE es) = list_all keys_ok es"

lemma contextValue_raw [simp]: "contextValue (value_raw v) = Some v"
  by (cases v) auto

lemma expression_raw_defined [simp]: "expression_raw e \<noteq> RawUndefined"
  by (cases e) auto

lemma parse_items_raw:
  "(\<And>e path. e \<in> set es \<Longrightarrow> parseExpression (expression_raw e) path = (e, [])) \<Longrightarrow>
   parse_items (map expression_raw es) index path = (es, [])"
  by (induction es arbitrary: index) auto

lemmas parse_defs = raw_prop_def checkNoExtraFields_def parse_flat_def finish_not_def finish_list_def

lemma parse_print: "keys_ok e \<Longrightarrow> parseExpression (expression_raw e) path = (e, [])"
proof (induction e arbitrary: path)
  case (AllE es)
  then show ?case
    using parse_items_raw [of es 0 path]
    by (subst parseExpression.simps) (simp add: parse_defs list_all_iff)
next
  case (AnyE es)
  then show ?case
    using parse_items_raw [of es 0 path]
    by (subst parseExpression.simps) (simp add: parse_defs list_all_iff)
qed (subst parseExpression.simps, simp add: parse_defs)+

lemma nonempty_string_Some: "nonempty_string v = Some s \<longleftrightarrow> v = RawString s \<and> s \<noteq> []"
  by (cases v) auto

lemma parse_flat_ok: "parse_flat op ps path = (e, []) \<Longrightarrow> keys_ok e"
  by (auto simp: parse_flat_def Let_def nonempty_string_Some split: if_splits option.splits)

lemma parse_keys_ok:
  "parseExpression v path = (e, []) \<Longrightarrow> keys_ok e"
  "parse_items vs index path = (es, []) \<Longrightarrow> list_all keys_ok es"
proof (induction v path and vs index path arbitrary: e and es rule: parseExpression_parse_items.induct)
  case (1 v path)
  show ?case
  proof (cases v)
    case (RawObject ps)
    note v = this
    show ?thesis
    proof (cases "nonempty_string (raw_prop ps ''op'')")
      case None
      then show ?thesis using "1.prems" v by (simp add: parseExpression.simps [of "RawObject ps"])
    next
      case (Some op)
      note eq = parseExpression.simps [of "RawObject ps" path]
      consider (neg) "op = ''not''" | (list) "op \<noteq> ''not''" "op = ''all'' \<or> op = ''any''"
        | (flat) "op \<noteq> ''not''" "\<not> (op = ''all'' \<or> op = ''any'')" by blast
      then show ?thesis
      proof cases
        case neg
        then show ?thesis
          using "1.prems" v Some "1.IH"(1) [OF v Some]
          by (cases "parseExpression (raw_prop ps ''expression'') (path @ ''.expression'')")
            (auto simp: eq finish_not_def Let_def split: if_splits)
      next
        case list
        then show ?thesis
          using "1.prems" v Some "1.IH"(2) [OF v Some list]
          by (auto simp: eq finish_list_def Let_def split: if_splits raw.splits prod.splits)
      next
        case flat
        then show ?thesis
          using "1.prems" v Some parse_flat_ok by (simp add: eq)
      qed
    qed
  qed (use "1.prems" in \<open>simp_all add: parseExpression.simps\<close>)
qed (auto split: prod.splits)

text \<open>The keys an expression mentions.\<close>

fun mentioned :: "VarinContextExpression \<Rightarrow> string set" where
  "mentioned (Defined key) = {key}"
| "mentioned (Equals key v) = {key}"
| "mentioned (NotE e) = mentioned e"
| "mentioned (AllE es) = (\<Union>e \<in> set es. mentioned e)"
| "mentioned (AnyE es) = (\<Union>e \<in> set es. mentioned e)"

lemma fold_keys:
  assumes "\<And>e ks. e \<in> set es \<Longrightarrow> distinct ks \<Longrightarrow> distinct (f e ks) \<and> set (f e ks) = set ks \<union> V e" "distinct ks"
  shows "distinct (fold f es ks) \<and> set (fold f es ks) = set ks \<union> (\<Union>e \<in> set es. V e)"
  using assms
proof (induction es arbitrary: ks)
  case (Cons e es)
  then have "distinct (f e ks)" "set (f e ks) = set ks \<union> V e" by auto
  then show ?case using Cons.IH [of "f e ks"] Cons.prems(1) by auto
qed simp

lemma collect_keys_mentioned:
  "distinct ks \<Longrightarrow> distinct (collect_keys e ks) \<and> set (collect_keys e ks) = set ks \<union> mentioned e"
proof (induction e arbitrary: ks)
  case (AllE es)
  then show ?case using fold_keys [of es collect_keys mentioned ks] by simp
next
  case (AnyE es)
  then show ?case using fold_keys [of es collect_keys mentioned ks] by simp
qed (auto simp: add_key_def)

lemma evaluate_mentioned:
  "\<forall>k \<in> mentioned e. c k = d k \<Longrightarrow> evaluateVarinContextExpression e c = evaluateVarinContextExpression e d"
proof (induction e)
  case (AllE es)
  then have "\<forall>e \<in> set es. evaluateVarinContextExpression e c = evaluateVarinContextExpression e d" by auto
  then show ?case by (simp add: list_all_iff)
next
  case (AnyE es)
  then have "\<forall>e \<in> set es. evaluateVarinContextExpression e c = evaluateVarinContextExpression e d" by auto
  then show ?case by (simp add: list_ex_iff)
qed auto

section \<open>Properties\<close>

text \<open>
  C35. Conditions round trip: the stored form of an expression is parsed back to the expression exactly when all
  its keys are non-empty, and whatever value the parser accepts is such an expression.
\<close>

theorem context_expression_roundtrip:
  "(parseVarinContextExpression (expression_raw e) = Inr e \<longleftrightarrow> keys_ok e)
   \<and> (case parseVarinContextExpression v of Inr x \<Rightarrow> keys_ok x | Inl issues \<Rightarrow> issues \<noteq> [])"
  using parse_print [of e "''when''"] parse_keys_ok(1) [of v "''when''"] parse_keys_ok(1) [of "expression_raw e" "''when''" e]
  by (auto simp: parseVarinContextExpression_def split: prod.splits)

text \<open>
  The collected keys are exactly what an expression depends on syntactically, each listed once, and they
  suffice: two contexts that agree on them give the same value, so that a subscriber to those keys misses no
  change.
\<close>

theorem context_keys_suffice:
  "distinct (collectVarinContextExpressionKeys e)
   \<and> set (collectVarinContextExpressionKeys e) = mentioned e
   \<and> (list_all (\<lambda>k. c k = d k) (collectVarinContextExpressionKeys e) \<longrightarrow>
        evaluateVarinContextExpression e c = evaluateVarinContextExpression e d)"
  using collect_keys_mentioned [of "[]" e] evaluate_mentioned [of e c d]
  by (simp add: collectVarinContextExpressionKeys_def list_all_iff)

theorem context_keys_suffice_witness:
  "distinct (collectVarinContextExpressionKeys (AnyE [Defined ''a'', NotE (Equals ''b'' (BoolValue True)), Defined ''a'']))
   \<and> set (collectVarinContextExpressionKeys (AnyE [Defined ''a'', NotE (Equals ''b'' (BoolValue True)), Defined ''a'']))
       = mentioned (AnyE [Defined ''a'', NotE (Equals ''b'' (BoolValue True)), Defined ''a''])
   \<and> evaluateVarinContextExpression (AnyE [Defined ''a'', NotE (Equals ''b'' (BoolValue True)), Defined ''a'']) [''b'' \<mapsto> BoolValue True]
     = evaluateVarinContextExpression (AnyE [Defined ''a'', NotE (Equals ''b'' (BoolValue True)), Defined ''a''])
         [''b'' \<mapsto> BoolValue True, ''c'' \<mapsto> BoolValue True]"
  using context_keys_suffice [of "AnyE [Defined ''a'', NotE (Equals ''b'' (BoolValue True)), Defined ''a'']"
      "[''b'' \<mapsto> BoolValue True]" "[''b'' \<mapsto> BoolValue True, ''c'' \<mapsto> BoolValue True]"]
  by (simp add: collectVarinContextExpressionKeys_def add_key_def)

end
