(* ===== verification/Observation_Cursors.thy ===== *)
theory Observation_Cursors
  imports Varin_Prelude
begin

text \<open>
  Cursors of repeated observations, \<^verbatim>\<open>src/packages/web/application-host/lib/harness/observation-cursors.ts\<close>.

  The nested maps of \<open>observers\<close> are one map from session, kind and object; an inner map that becomes empty is not
  observable. \<open>observe\<close> and \<open>prepare\<close> suspend twice, on the tail of earlier requests for the same cursor and on
  the caller's task, so each is split at those points: the request joins the queue of its cursor, starts when it
  is the first of the queue, and then finishes or fails. A request is live from \<open>request_observation\<close> until it
  finishes or its pending observation is settled. The clock, random references and the caller's results are
  arguments.
\<close>

section \<open>State\<close>

datatype ObservationObjectKind = Diagnostics | Shell | Zone2Threads

type_synonym cursor_key = "string \<times> ObservationObjectKind \<times> string"
type_synonym namespace = "string \<times> ObservationObjectKind"

record 'v ObservationCursorEntry =
  retainedBy :: "string list"
  observedAt :: nat
  entry_revision :: nat
  entry_value :: 'v

datatype 'v phase = Waiting | Running "nat option" | Prepared "nat option" 'v string

record 'v request =
  req_key :: cursor_key
  requestedEpoch :: nat
  req_phase :: "'v phase"

record 'v cursor_store =
  observers :: "cursor_key \<Rightarrow> 'v ObservationCursorEntry option"
  tails :: "cursor_key \<Rightarrow> nat list"
  epochs :: "namespace \<Rightarrow> nat option"
  activeNamespaces :: "namespace \<Rightarrow> nat option"
  nextRevision :: nat
  disposed_store :: bool
  requests :: "nat \<Rightarrow> 'v request option"

definition createObservationCursorStore :: "'v cursor_store" where
  "createObservationCursorStore =
     \<lparr>observers = Map.empty, tails = (\<lambda>_. []), epochs = Map.empty, activeNamespaces = Map.empty, nextRevision = 0,
      disposed_store = False, requests = Map.empty\<rparr>"

definition or_else :: "'a option \<Rightarrow> 'a \<Rightarrow> 'a" where
  "or_else v d = (case v of None \<Rightarrow> d | Some x \<Rightarrow> x)"

fun namespace_of :: "cursor_key \<Rightarrow> namespace" where
  "namespace_of (sess, knd, obj) = (sess, knd)"

definition invalidate :: "namespace \<Rightarrow> 'v cursor_store \<Rightarrow> 'v cursor_store" where
  "invalidate ns s =
     (if or_else (activeNamespaces s ns) 0 > 0 then s\<lparr>epochs := (epochs s)(ns \<mapsto> or_else (epochs s ns) 0 + 1)\<rparr>
      else s\<lparr>epochs := (epochs s)(ns := None)\<rparr>)"

definition readCursor :: "cursor_key \<Rightarrow> 'v cursor_store \<Rightarrow> 'v ObservationCursorEntry option" where
  "readCursor key s = observers s key"

definition writeCursor :: "cursor_key \<Rightarrow> 'v \<Rightarrow> string \<Rightarrow> nat \<Rightarrow> 'v cursor_store \<Rightarrow> 'v cursor_store" where
  "writeCursor key v ref now s =
     (let entry = \<lparr>retainedBy = (case readCursor key s of None \<Rightarrow> [] | Some e \<Rightarrow> retainedBy e) @ [ref],
                   observedAt = now, entry_revision = nextRevision s + 1, entry_value = v\<rparr>
      in s\<lparr>nextRevision := nextRevision s + 1, observers := (observers s)(key \<mapsto> entry)\<rparr>)"

section \<open>Operations\<close>

definition cursor_get :: "cursor_key \<Rightarrow> 'v cursor_store \<Rightarrow> 'v ObservationCursorEntry option" where
  "cursor_get key s = readCursor key s"

definition cursor_set :: "cursor_key \<Rightarrow> 'v \<Rightarrow> string \<Rightarrow> nat \<Rightarrow> 'v cursor_store \<Rightarrow> 'v cursor_store" where
  "cursor_set key v ref now s = writeCursor key v ref now s"

datatype cursor_error = StoreDisposed

text \<open>The common beginning of \<open>observe\<close> and \<open>prepare\<close>, up to \<open>await previousTail\<close>.\<close>

definition request_observation :: "nat \<Rightarrow> cursor_key \<Rightarrow> 'v cursor_store \<Rightarrow> (cursor_error, 'v cursor_store) outcome" where
  "request_observation i key s =
     (let ns = namespace_of key
      in if disposed_store s then Inl StoreDisposed
         else Inr (s\<lparr>activeNamespaces := (activeNamespaces s)(ns \<mapsto> or_else (activeNamespaces s ns) 0 + 1),
                     tails := (tails s)(key := tails s key @ [i]),
                     requests := (requests s)(i \<mapsto> \<lparr>req_key = key, requestedEpoch = or_else (epochs s ns) 0, req_phase = Waiting\<rparr>)\<rparr>))"

text \<open>The request has reached the head of its queue: \<open>previous\<close> is read and the task is called.\<close>

definition start_task :: "nat \<Rightarrow> 'v request \<Rightarrow> 'v cursor_store \<Rightarrow> 'v cursor_store" where
  "start_task i r s =
     s\<lparr>requests := (requests s)(i \<mapsto> r\<lparr>req_phase := Running (map_option entry_revision (readCursor (req_key r) s))\<rparr>)\<rparr>"

definition release_tail :: "nat \<Rightarrow> 'v request \<Rightarrow> 'v cursor_store \<Rightarrow> 'v cursor_store" where
  "release_tail i r s = s\<lparr>tails := (tails s)(req_key r := remove1 i (tails s (req_key r)))\<rparr>"

definition end_active :: "nat \<Rightarrow> 'v request \<Rightarrow> 'v cursor_store \<Rightarrow> 'v cursor_store" where
  "end_active i r s =
     (let ns = namespace_of (req_key r);
          active = or_else (activeNamespaces s ns) 1 - 1;
          s = s\<lparr>requests := (requests s)(i := None)\<rparr>
      in if active = 0
         then s\<lparr>activeNamespaces := (activeNamespaces s)(ns := None), epochs := (epochs s)(ns := None)\<rparr>
         else s\<lparr>activeNamespaces := (activeNamespaces s)(ns \<mapsto> active)\<rparr>)"

definition same_epoch :: "'v request \<Rightarrow> 'v cursor_store \<Rightarrow> bool" where
  "same_epoch r s \<longleftrightarrow> \<not> disposed_store s \<and> or_else (epochs s (namespace_of (req_key r))) 0 = requestedEpoch r"

definition finish_observe :: "nat \<Rightarrow> 'v request \<Rightarrow> 'v \<Rightarrow> string \<Rightarrow> nat \<Rightarrow> 'v cursor_store \<Rightarrow> 'v cursor_store" where
  "finish_observe i r v ref now s =
     (let s = (if same_epoch r s then writeCursor (req_key r) v ref now s else s)
      in end_active i r (release_tail i r s))"

definition finish_prepare :: "nat \<Rightarrow> 'v request \<Rightarrow> nat option \<Rightarrow> 'v \<Rightarrow> string \<Rightarrow> 'v cursor_store \<Rightarrow> 'v cursor_store" where
  "finish_prepare i r baseline v ref s =
     (release_tail i r s)\<lparr>requests := (requests s)(i \<mapsto> r\<lparr>req_phase := Prepared baseline v ref\<rparr>)\<rparr>"

definition fail_task :: "nat \<Rightarrow> 'v request \<Rightarrow> 'v cursor_store \<Rightarrow> 'v cursor_store" where
  "fail_task i r s = end_active i r (release_tail i r s)"

text \<open>\<open>commit\<close> and \<open>abort\<close> of a pending observation; a settled one is no longer live.\<close>

definition commit :: "nat \<Rightarrow> nat \<Rightarrow> 'v cursor_store \<Rightarrow> 'v cursor_store \<times> bool" where
  "commit i now s =
     (case requests s i of
        Some r \<Rightarrow>
          (case req_phase r of
             Prepared baselineRevision v ref \<Rightarrow>
               let advanced = (same_epoch r s
                     \<and> map_option entry_revision (readCursor (req_key r) s) = baselineRevision);
                   s = (if advanced then writeCursor (req_key r) v ref now s else s)
               in (end_active i r s, advanced)
           | _ \<Rightarrow> (s, False))
      | None \<Rightarrow> (s, False))"

definition abort_pending :: "nat \<Rightarrow> 'v cursor_store \<Rightarrow> 'v cursor_store" where
  "abort_pending i s =
     (case requests s i of
        Some r \<Rightarrow> (case req_phase r of Prepared b v ref \<Rightarrow> end_active i r s | _ \<Rightarrow> s)
      | None \<Rightarrow> s)"

definition clearKind :: "namespace \<Rightarrow> 'v cursor_store \<Rightarrow> 'v cursor_store" where
  "clearKind ns s =
     (let s = invalidate ns s in s\<lparr>observers := (\<lambda>key. if namespace_of key = ns then None else observers s key)\<rparr>)"

definition ALL_KINDS :: "ObservationObjectKind list" where
  "ALL_KINDS = [Diagnostics, Shell, Zone2Threads]"

definition invalidate_all :: "string \<Rightarrow> 'v cursor_store \<Rightarrow> 'v cursor_store" where
  "invalidate_all sess s = fold (\<lambda>knd. invalidate (sess, knd)) ALL_KINDS s"

definition clearObserver :: "string \<Rightarrow> 'v cursor_store \<Rightarrow> 'v cursor_store" where
  "clearObserver sess s =
     (let s = invalidate_all sess s in s\<lparr>observers := (\<lambda>key. if fst key = sess then None else observers s key)\<rparr>)"

definition retained :: "(string \<Rightarrow> bool) \<Rightarrow> 'v ObservationCursorEntry \<Rightarrow> bool" where
  "retained retainedRefs e \<longleftrightarrow> retainedBy e \<noteq> [] \<and> list_all retainedRefs (retainedBy e)"

definition retainObserver :: "string \<Rightarrow> (string \<Rightarrow> bool) \<Rightarrow> 'v cursor_store \<Rightarrow> 'v cursor_store" where
  "retainObserver sess retainedRefs s =
     (let s = invalidate_all sess s
      in s\<lparr>observers := (\<lambda>key. if fst key = sess
                               then (case observers s key of None \<Rightarrow> None | Some e \<Rightarrow> if retained retainedRefs e then Some e else None)
                               else observers s key)\<rparr>)"

definition dispose_store :: "'v cursor_store \<Rightarrow> 'v cursor_store" where
  "dispose_store s =
     s\<lparr>disposed_store := True, observers := Map.empty, epochs := Map.empty, activeNamespaces := Map.empty\<rparr>"

section \<open>Histories\<close>

text \<open>
  The service together with two flags for every request: its namespace was invalidated after the request, and its
  cursor was written after its task started.
\<close>

record flags =
  invalidated :: "nat \<Rightarrow> bool"
  overwritten :: "nat \<Rightarrow> bool"

definition no_flags :: flags where
  "no_flags = \<lparr>invalidated = (\<lambda>_. False), overwritten = (\<lambda>_. False)\<rparr>"

definition mark_invalidated :: "(cursor_key \<Rightarrow> bool) \<Rightarrow> 'v cursor_store \<Rightarrow> flags \<Rightarrow> flags" where
  "mark_invalidated P s g =
     g\<lparr>invalidated := (\<lambda>i. invalidated g i \<or> (case requests s i of Some r \<Rightarrow> P (req_key r) | None \<Rightarrow> False))\<rparr>"

definition mark_written :: "cursor_key \<Rightarrow> 'v cursor_store \<Rightarrow> flags \<Rightarrow> flags" where
  "mark_written key s g =
     g\<lparr>overwritten := (\<lambda>i. overwritten g i \<or> (case requests s i of Some r \<Rightarrow> req_key r = key | None \<Rightarrow> False))\<rparr>"

datatype cursor_event =
    EvSet | EvRequest nat | EvStart nat | EvFinish nat | EvPrepared nat | EvFail nat | EvCommit nat bool | EvAbort nat
  | EvClear | EvRetain | EvDispose

inductive cursor_step :: "'v cursor_store \<times> flags \<Rightarrow> cursor_event \<Rightarrow> 'v cursor_store \<times> flags \<Rightarrow> bool" where
  step_set: "cursor_step (s, g) EvSet (cursor_set key v ref now s, mark_written key s g)"
| step_request: "request_observation i key s = Inr s' \<Longrightarrow> requests s i = None \<Longrightarrow>
    cursor_step (s, g) (EvRequest i)
      (s', \<lparr>invalidated = (invalidated g)(i := False), overwritten = (overwritten g)(i := False)\<rparr>)"
| step_start: "requests s i = Some r \<Longrightarrow> req_phase r = Waiting \<Longrightarrow> tails s (req_key r) \<noteq> [] \<Longrightarrow> hd (tails s (req_key r)) = i \<Longrightarrow>
    cursor_step (s, g) (EvStart i) (start_task i r s, g\<lparr>overwritten := (overwritten g)(i := False)\<rparr>)"
| step_finish: "requests s i = Some r \<Longrightarrow> req_phase r = Running b \<Longrightarrow>
    cursor_step (s, g) (EvFinish i)
      (finish_observe i r v ref now s, if same_epoch r s then mark_written (req_key r) s g else g)"
| step_prepared: "requests s i = Some r \<Longrightarrow> req_phase r = Running b \<Longrightarrow>
    cursor_step (s, g) (EvPrepared i) (finish_prepare i r b v ref s, g)"
| step_fail: "requests s i = Some r \<Longrightarrow> req_phase r = Running b \<Longrightarrow> cursor_step (s, g) (EvFail i) (fail_task i r s, g)"
| step_commit: "commit i now s = (s', adv) \<Longrightarrow> requests s i = Some r \<Longrightarrow>
    cursor_step (s, g) (EvCommit i adv) (s', if adv then mark_written (req_key r) s g else g)"
| step_abort: "cursor_step (s, g) (EvAbort i) (abort_pending i s, g)"
| step_clear_kind: "cursor_step (s, g) EvClear (clearKind ns s, mark_invalidated (\<lambda>key. namespace_of key = ns) s g)"
| step_clear_observer: "cursor_step (s, g) EvClear (clearObserver sess s, mark_invalidated (\<lambda>key. fst key = sess) s g)"
| step_retain: "cursor_step (s, g) EvRetain (retainObserver sess refs s, mark_invalidated (\<lambda>key. fst key = sess) s g)"
| step_dispose: "cursor_step (s, g) EvDispose (dispose_store s, g)"

section \<open>Invariant\<close>

definition live :: "'v cursor_store \<Rightarrow> namespace \<Rightarrow> nat set" where
  "live s ns = {i. \<exists>r. requests s i = Some r \<and> namespace_of (req_key r) = ns}"

definition epoch_at :: "'v cursor_store \<Rightarrow> cursor_key \<Rightarrow> nat" where
  "epoch_at s key = or_else (epochs s (namespace_of key)) 0"

definition revision_at :: "'v cursor_store \<Rightarrow> cursor_key \<Rightarrow> nat option" where
  "revision_at s key = map_option entry_revision (observers s key)"

fun baseline :: "'v phase \<Rightarrow> nat option option" where
  "baseline Waiting = None"
| "baseline (Running b) = Some b"
| "baseline (Prepared b v ref) = Some b"

definition active_ok :: "'v cursor_store \<Rightarrow> bool" where
  "active_ok s \<longleftrightarrow> finite (dom (requests s))
     \<and> (\<forall>ns. activeNamespaces s ns = (if live s ns = {} then None else Some (card (live s ns))))"

definition request_ok :: "'v cursor_store \<Rightarrow> bool \<Rightarrow> bool \<Rightarrow> 'v request \<Rightarrow> bool" where
  "request_ok s inval over r \<longleftrightarrow>
     requestedEpoch r \<le> epoch_at s (req_key r) \<and> (epoch_at s (req_key r) = requestedEpoch r \<longleftrightarrow> \<not> inval)
     \<and> (case baseline (req_phase r) of
          None \<Rightarrow> True
        | Some b \<Rightarrow> (\<forall>n. b = Some n \<longrightarrow> n \<le> nextRevision s) \<and> (\<not> inval \<longrightarrow> (revision_at s (req_key r) = b \<longleftrightarrow> \<not> over)))"

definition revisions_ok :: "'v cursor_store \<Rightarrow> bool" where
  "revisions_ok s \<longleftrightarrow> (\<forall>key n. revision_at s key = Some n \<longrightarrow> n \<le> nextRevision s)"

fun cursor_inv :: "'v cursor_store \<times> flags \<Rightarrow> bool" where
  "cursor_inv (s, g) \<longleftrightarrow> disposed_store s \<or>
     active_ok s \<and> revisions_ok s
     \<and> (\<forall>i r. requests s i = Some r \<longrightarrow> request_ok s (invalidated g i) (overwritten g i) r)"

declare split_paired_All [simp del] split_paired_Ex [simp del]

lemmas cursor_defs = epoch_at_def revision_at_def live_def active_ok_def revisions_ok_def request_ok_def

lemma disposed_simps [simp]:
  "disposed_store (writeCursor key v ref now s) = disposed_store s"
  "disposed_store (end_active i r s) = disposed_store s"
  "disposed_store (release_tail i r s) = disposed_store s"
  "disposed_store (start_task i r s) = disposed_store s"
  "disposed_store (invalidate ns s) = disposed_store s"
  by (simp_all add: writeCursor_def end_active_def release_tail_def start_task_def invalidate_def Let_def)

lemma release_tail_fields [simp]:
  "observers (release_tail i r s) = observers s" "epochs (release_tail i r s) = epochs s"
  "activeNamespaces (release_tail i r s) = activeNamespaces s" "nextRevision (release_tail i r s) = nextRevision s"
  "requests (release_tail i r s) = requests s"
  by (simp_all add: release_tail_def)

lemma release_tail_inv: "cursor_inv (release_tail i r s, g) = cursor_inv (s, g)"
  unfolding cursor_inv.simps cursor_defs release_tail_fields disposed_simps ..

lemma write_inv:
  assumes "cursor_inv (s, g)"
  shows "cursor_inv (writeCursor key v ref now s, mark_written key s g)"
proof (cases "disposed_store s")
  case True
  then show ?thesis by simp
next
  case False
  let ?s = "writeCursor key v ref now s"
  have fields: "requests ?s = requests s" "epochs ?s = epochs s" "activeNamespaces ?s = activeNamespaces s"
      "nextRevision ?s = nextRevision s + 1"
      "\<And>k. revision_at ?s k = (if k = key then Some (nextRevision s + 1) else revision_at s k)"
    by (simp_all add: writeCursor_def Let_def revision_at_def)
  have "request_ok ?s (invalidated g i) (overwritten g i \<or> req_key r = key) r"
    if "request_ok s (invalidated g i) (overwritten g i) r" for i r
    using that fields by (auto simp: request_ok_def epoch_at_def le_Suc_eq split: option.split)
  then show ?thesis
    using assms False fields
    by (auto simp: active_ok_def live_def revisions_ok_def mark_written_def le_Suc_eq)
qed

lemma active_at: "active_ok s \<Longrightarrow> activeNamespaces s ns = (if live s ns = {} then None else Some (card (live s ns)))"
  unfolding active_ok_def by blast

lemma request_ok_cong:
  "epochs s' = epochs s \<Longrightarrow> observers s' = observers s \<Longrightarrow> nextRevision s' = nextRevision s \<Longrightarrow>
   request_ok s' = request_ok s \<and> revisions_ok s' = revisions_ok s"
  by (simp only: request_ok_def [abs_def] epoch_at_def [abs_def] revision_at_def [abs_def] revisions_ok_def)

lemma end_inv:
  assumes "cursor_inv (s, g)" "requests s i = Some r"
  shows "cursor_inv (end_active i r s, g)"
proof (cases "disposed_store s")
  case True
  then show ?thesis by simp
next
  case False
  let ?s = "end_active i r s" and ?ns = "namespace_of (req_key r)"
  have ok: "active_ok s" "revisions_ok s" "\<And>j q. requests s j = Some q \<Longrightarrow> request_ok s (invalidated g j) (overwritten g j) q"
    using assms(1) False by auto
  have i: "i \<in> live s ?ns" using assms(2) by (simp add: live_def)
  have fin: "finite (live s ns)" for ns
    using ok(1) by (auto simp: active_ok_def live_def intro: finite_subset [of _ "dom (requests s)"])
  have lv: "live ?s ns = live s ns - {i}" for ns
    by (auto simp: live_def end_active_def Let_def)
  have act: "activeNamespaces s ?ns = Some (card (live s ?ns))"
    using ok(1) i unfolding active_ok_def by (metis empty_iff)
  have left: "or_else (activeNamespaces s ?ns) 1 - 1 = card (live s ?ns - {i})" using i fin act by (simp add: or_else_def)
  have zero: "card (live s ns - {i}) = 0 \<longleftrightarrow> live s ns - {i} = {}" for ns using fin by simp
  have at_ns: "activeNamespaces ?s ?ns = (if live s ?ns - {i} = {} then None else Some (card (live s ?ns - {i})))"
      "epochs ?s ?ns = (if live s ?ns - {i} = {} then None else epochs s ?ns)"
    unfolding end_active_def Let_def left zero by simp_all
  have away: "activeNamespaces ?s ns = activeNamespaces s ns" "epochs ?s ns = epochs s ns" if "ns \<noteq> ?ns" for ns
    using that unfolding end_active_def Let_def by simp_all
  have other: "live s ns - {i} = live s ns" if "ns \<noteq> ?ns" for ns
    using that assms(2) by (auto simp: live_def)
  have active: "activeNamespaces ?s ns = (if live ?s ns = {} then None else Some (card (live ?s ns)))" for ns
  proof (cases "ns = ?ns")
    case True
    then show ?thesis
      unfolding lv True at_ns by simp
  next
    case False
    show ?thesis
      unfolding lv other [OF False] away [OF False] by (rule active_at [OF ok(1)])
  qed
  have keep: "epochs ?s ns = epochs s ns" if "live ?s ns \<noteq> {}" for ns
    using that away [of ns] at_ns unfolding lv by (cases "ns = ?ns") auto
  have ep: "epoch_at ?s (req_key q) = epoch_at s (req_key q)" if "requests ?s j = Some q" for j q
  proof -
    have "live ?s (namespace_of (req_key q)) \<noteq> {}" using that unfolding live_def by blast
    then show ?thesis using keep by (simp add: epoch_at_def)
  qed
  have fields: "observers ?s = observers s" "nextRevision ?s = nextRevision s" "requests ?s = (requests s)(i := None)"
    by (simp_all add: end_active_def Let_def)
  have "finite (dom (requests ?s))" using ok(1) fields(3) by (simp add: active_ok_def)
  then have "active_ok ?s" using active by (simp add: active_ok_def)
  moreover have "revisions_ok ?s" using ok(2) by (simp add: revisions_ok_def revision_at_def fields)
  moreover have "request_ok ?s a b q = request_ok s a b q" if "requests ?s j = Some q" for a b j q
    by (simp add: request_ok_def ep [OF that] revision_at_def fields cong: option.case_cong)
  ultimately show ?thesis using ok(3) fields(3) by (auto split: if_splits)
qed

lemma active_live: "active_ok s \<Longrightarrow> requests s i = Some r \<Longrightarrow> activeNamespaces s (namespace_of (req_key r)) \<noteq> None"
  using active_at [of s "namespace_of (req_key r)"] by (auto simp: live_def split: if_splits)

lemma invalidated_inv:
  assumes "cursor_inv (s, g)" "\<not> disposed_store s"
    and "\<And>key. P key \<Longrightarrow> activeNamespaces s (namespace_of key) \<noteq> None \<Longrightarrow> epoch_at s key < or_else (E (namespace_of key)) 0"
    and "\<And>key. \<not> P key \<Longrightarrow> obs key = observers s key \<and> or_else (E (namespace_of key)) 0 = epoch_at s key"
    and "\<And>key e. obs key = Some e \<Longrightarrow> observers s key = Some e"
  shows "cursor_inv (s\<lparr>epochs := E, observers := obs\<rparr>, mark_invalidated P s g)"
proof -
  let ?s = "s\<lparr>epochs := E, observers := obs\<rparr>"
  have ok: "active_ok s" "revisions_ok s" "\<And>j q. requests s j = Some q \<Longrightarrow> request_ok s (invalidated g j) (overwritten g j) q"
    using assms(1,2) by auto
  have "request_ok ?s (invalidated g i \<or> P (req_key r)) (overwritten g i) r" if r: "requests s i = Some r" for i r
  proof (cases "P (req_key r)")
    case True
    then show ?thesis
      using assms(3) [OF True active_live [OF ok(1) r]] ok(3) [OF r]
      by (auto simp: request_ok_def epoch_at_def split: option.splits)
  next
    case False
    then show ?thesis
      using assms(4) [OF False] ok(3) [OF r]
      by (auto simp: request_ok_def epoch_at_def revision_at_def split: option.splits)
  qed
  moreover have "active_ok ?s" using ok(1) by (simp add: active_ok_def live_def)
  moreover have "revisions_ok ?s"
    unfolding revisions_ok_def
  proof (intro allI impI)
    fix key n assume "revision_at ?s key = Some n"
    then have "revision_at s key = Some n" using assms(5) [of key] by (auto simp: revision_at_def)
    then show "n \<le> nextRevision ?s" using ok(2) by (simp add: revisions_ok_def)
  qed
  ultimately show ?thesis by (auto simp: mark_invalidated_def)
qed

lemma invalidate_all_fields:
  "invalidate_all sess s = s\<lparr>epochs := (\<lambda>ns. if fst ns = sess
     then (if or_else (activeNamespaces s ns) 0 > 0 then Some (or_else (epochs s ns) 0 + 1) else None) else epochs s ns)\<rparr>"
proof -
  have "fold (\<lambda>knd. invalidate (sess, knd)) ks s = s\<lparr>epochs := (\<lambda>ns. if fst ns = sess \<and> snd ns \<in> set ks
     then (if or_else (activeNamespaces s ns) 0 > 0 then Some (or_else (epochs s ns) 0 + 1) else None) else epochs s ns)\<rparr>"
    if "distinct ks" for ks
    using that
  proof (induction ks arbitrary: s)
    case (Cons k ks)
    then show ?case
      by (auto simp: invalidate_def fun_eq_iff intro!: cursor_store.equality)
  qed simp
  moreover have "snd ns \<in> set ALL_KINDS" for ns :: namespace
    by (cases "snd ns") (simp_all add: ALL_KINDS_def)
  moreover have "distinct ALL_KINDS" by (simp add: ALL_KINDS_def)
  ultimately show ?thesis unfolding invalidate_all_def by simp
qed

lemma active_positive:
  "active_ok s \<Longrightarrow> activeNamespaces s ns \<noteq> None \<Longrightarrow> or_else (activeNamespaces s ns) 0 > 0"
proof -
  assume a: "active_ok s" "activeNamespaces s ns \<noteq> None"
  then have "finite (live s ns)"
    by (auto simp: active_ok_def live_def intro: finite_subset [of _ "dom (requests s)"])
  then show ?thesis
    using a(2) active_at [OF a(1), of ns] by (auto simp: or_else_def card_gt_0_iff split: if_splits)
qed

lemma clear_kind_inv:
  assumes "cursor_inv (s, g)"
  shows "cursor_inv (clearKind ns s, mark_invalidated (\<lambda>key. namespace_of key = ns) s g)"
proof (cases "disposed_store s")
  case True
  then show ?thesis by (simp add: clearKind_def Let_def)
next
  case False
  then have a: "active_ok s" using assms by simp
  have eq: "clearKind ns s = s\<lparr>epochs := (epochs s)(ns := if or_else (activeNamespaces s ns) 0 > 0 then Some (or_else (epochs s ns) 0 + 1) else None),
      observers := (\<lambda>key. if namespace_of key = ns then None else observers s key)\<rparr>"
    by (simp add: clearKind_def invalidate_def Let_def cong: if_cong)
  show ?thesis
    unfolding eq
    by (rule invalidated_inv [OF assms False]) (use active_positive [OF a] in \<open>auto simp: epoch_at_def or_else_def split: if_splits\<close>)
qed

lemma clear_session_inv:
  assumes "cursor_inv (s, g)" "\<And>key e. key_map key = Some e \<Longrightarrow> observers s key = Some e"
    and "\<And>key. fst key \<noteq> sess \<Longrightarrow> key_map key = observers s key"
  shows "cursor_inv ((invalidate_all sess s)\<lparr>observers := key_map\<rparr>, mark_invalidated (\<lambda>key. fst key = sess) s g)"
proof (cases "disposed_store s")
  case True
  then show ?thesis by (simp add: invalidate_all_fields)
next
  case False
  then have a: "active_ok s" using assms by simp
  have fst_ns: "fst (namespace_of key) = fst key" for key by (cases key) simp
  show ?thesis
    unfolding invalidate_all_fields
  proof (rule invalidated_inv [OF assms(1) False])
    fix key :: cursor_key
    assume "fst key = sess" "activeNamespaces s (namespace_of key) \<noteq> None"
    then show "epoch_at s key < or_else (if fst (namespace_of key) = sess
        then if 0 < or_else (activeNamespaces s (namespace_of key)) 0 then Some (or_else (epochs s (namespace_of key)) 0 + 1) else None
        else epochs s (namespace_of key)) 0"
      using active_positive [OF a, of "namespace_of key"] by (simp add: fst_ns epoch_at_def or_else_def [of "Some x" for x])
  next
    fix key :: cursor_key
    assume "fst key \<noteq> sess"
    then show "key_map key = observers s key \<and> or_else (if fst (namespace_of key) = sess
        then if 0 < or_else (activeNamespaces s (namespace_of key)) 0 then Some (or_else (epochs s (namespace_of key)) 0 + 1) else None
        else epochs s (namespace_of key)) 0 = epoch_at s key"
      using assms(3) by (simp add: fst_ns epoch_at_def)
  qed (rule assms(2))
qed

lemma clear_observer_inv:
  "cursor_inv (s, g) \<Longrightarrow> cursor_inv (clearObserver sess s, mark_invalidated (\<lambda>key. fst key = sess) s g)"
  "cursor_inv (s, g) \<Longrightarrow> cursor_inv (retainObserver sess refs s, mark_invalidated (\<lambda>key. fst key = sess) s g)"
proof -
  have obs: "observers (invalidate_all sess s) = observers s" by (simp add: invalidate_all_fields)
  assume inv: "cursor_inv (s, g)"
  show "cursor_inv (clearObserver sess s, mark_invalidated (\<lambda>key. fst key = sess) s g)"
    unfolding clearObserver_def Let_def obs
    by (rule clear_session_inv [OF inv]) (auto split: if_splits)
  show "cursor_inv (retainObserver sess refs s, mark_invalidated (\<lambda>key. fst key = sess) s g)"
    unfolding retainObserver_def Let_def obs
    by (rule clear_session_inv [OF inv]) (auto split: if_splits option.splits)
qed

lemma change_phase_inv:
  assumes "cursor_inv (s, g)" "requests s i = Some r" "req_key r' = req_key r" "requestedEpoch r' = requestedEpoch r"
    and "request_ok s (invalidated g i) ov r' \<or> disposed_store s"
  shows "cursor_inv (s\<lparr>requests := (requests s)(i \<mapsto> r')\<rparr>, g\<lparr>overwritten := (overwritten g)(i := ov)\<rparr>)"
proof (cases "disposed_store s")
  case True
  then show ?thesis by simp
next
  case False
  let ?s = "s\<lparr>requests := (requests s)(i \<mapsto> r')\<rparr>"
  have ok: "active_ok s" "revisions_ok s" "\<And>j q. requests s j = Some q \<Longrightarrow> request_ok s (invalidated g j) (overwritten g j) q"
    using assms(1) False by auto
  have "live ?s = live s"
    using assms(2,3) by (auto simp: live_def fun_eq_iff)
  then have "active_ok ?s" using ok(1) by (simp add: active_ok_def)
  moreover have "request_ok ?s = request_ok s \<and> revisions_ok ?s = revisions_ok s"
    by (rule request_ok_cong) simp_all
  ultimately show ?thesis using ok(2,3) assms(5) False by simp
qed

lemma request_inv:
  assumes "cursor_inv (s, g)" "request_observation i key s = Inr s'" "requests s i = None"
  shows "cursor_inv (s', \<lparr>invalidated = (invalidated g)(i := False), overwritten = (overwritten g)(i := False)\<rparr>)"
proof -
  have nd: "\<not> disposed_store s" using assms(2) by (auto simp: request_observation_def Let_def)
  then have ok: "active_ok s" "revisions_ok s" "\<And>j q. requests s j = Some q \<Longrightarrow> request_ok s (invalidated g j) (overwritten g j) q"
    using assms(1) by auto
  let ?ns = "namespace_of key"
  have s': "requests s' = (requests s)(i \<mapsto> \<lparr>req_key = key, requestedEpoch = or_else (epochs s ?ns) 0, req_phase = Waiting\<rparr>)"
      "observers s' = observers s" "epochs s' = epochs s" "nextRevision s' = nextRevision s" "disposed_store s' = disposed_store s"
      "activeNamespaces s' = (activeNamespaces s)(?ns \<mapsto> or_else (activeNamespaces s ?ns) 0 + 1)"
    using assms(2) nd by (auto simp: request_observation_def Let_def)
  have fin: "finite (live s ns)" for ns
    using ok(1) by (auto simp: active_ok_def live_def intro: finite_subset [of _ "dom (requests s)"])
  have lv: "live s' ns = (if ns = ?ns then insert i (live s ns) else live s ns)" for ns
    using assms(3) unfolding live_def s'(1) by auto
  have "i \<notin> live s ?ns" using assms(3) by (simp add: live_def)
  then have card: "card (live s' ?ns) = card (live s ?ns) + 1" using fin by (simp add: lv)
  have "activeNamespaces s' ns = (if live s' ns = {} then None else Some (card (live s' ns)))" for ns
    using active_at [OF ok(1), of ns] card lv [of ns] unfolding s'(6) by (cases "ns = ?ns") (auto simp: or_else_def)
  moreover have "finite (dom (requests s'))" using ok(1) by (simp add: s'(1) active_ok_def)
  ultimately have "active_ok s'" by (simp add: active_ok_def)
  moreover have "request_ok s' = request_ok s \<and> revisions_ok s' = revisions_ok s"
    by (rule request_ok_cong) (simp_all add: s')
  moreover have "request_ok s False False \<lparr>req_key = key, requestedEpoch = or_else (epochs s ?ns) 0, req_phase = Waiting\<rparr>"
    by (simp add: request_ok_def epoch_at_def)
  ultimately show ?thesis using ok(2,3) by (simp add: s'(1))
qed

lemma start_inv:
  assumes "cursor_inv (s, g)" "requests s i = Some r"
  shows "cursor_inv (start_task i r s, g\<lparr>overwritten := (overwritten g)(i := False)\<rparr>)"
proof -
  let ?r = "r\<lparr>req_phase := Running (map_option entry_revision (readCursor (req_key r) s))\<rparr>"
  have "request_ok s (invalidated g i) False ?r \<or> disposed_store s"
    using assms by (auto simp: request_ok_def readCursor_def revision_at_def revisions_ok_def)
  then show ?thesis
    using change_phase_inv [OF assms, of ?r False] by (simp add: start_task_def)
qed

lemma request_ok_phase:
  "baseline (req_phase r') = baseline (req_phase r) \<Longrightarrow> req_key r' = req_key r \<Longrightarrow> requestedEpoch r' = requestedEpoch r \<Longrightarrow>
   request_ok s a b r' = request_ok s a b r"
  by (simp only: request_ok_def)

lemma prepare_inv:
  assumes "cursor_inv (s, g)" "requests s i = Some r" "req_phase r = Running b"
  shows "cursor_inv (finish_prepare i r b v ref s, g)"
proof -
  let ?t = "release_tail i r s" and ?r = "r\<lparr>req_phase := Prepared b v ref\<rparr>"
  have t: "cursor_inv (?t, g)" "requests ?t i = Some r" using assms release_tail_inv by (blast, simp)
  then have "request_ok ?t (invalidated g i) (overwritten g i) ?r \<or> disposed_store ?t"
    using request_ok_phase [of ?r r] assms(3) by auto
  then show ?thesis
    using change_phase_inv [OF t, of ?r "overwritten g i"] by (simp add: finish_prepare_def)
qed

lemma end_inv_after:
  assumes "cursor_inv (s', g)" "requests s' = requests s" "requests s i = Some r"
  shows "cursor_inv (end_active i r s', g)"
  using end_inv [OF assms(1)] assms(2,3) by simp

lemma write_requests [simp]: "requests (writeCursor key v ref now s) = requests s"
  by (simp add: writeCursor_def Let_def)

lemma commit_cases:
  assumes "commit i now s = (s', advanced)" "requests s i = Some r"
  shows "(\<exists>b v ref. req_phase r = Prepared b v ref \<and> advanced = (same_epoch r s \<and> revision_at s (req_key r) = b)
      \<and> s' = end_active i r (if advanced then writeCursor (req_key r) v ref now s else s))
    \<or> s' = s \<and> \<not> advanced \<and> (\<forall>b v ref. req_phase r \<noteq> Prepared b v ref)"
  using assms by (cases "req_phase r") (auto simp: commit_def Let_def readCursor_def revision_at_def)

lemma step_inv: "cursor_step x e y \<Longrightarrow> cursor_inv x \<Longrightarrow> cursor_inv y"
proof (induction rule: cursor_step.induct)
  case (step_set s g key v ref now)
  then show ?case unfolding cursor_set_def by (rule write_inv)
next
  case (step_request i key s s' g)
  then show ?case using request_inv by blast
next
  case (step_start s i r g)
  then show ?case using start_inv by blast
next
  case (step_finish s i r b g v ref now)
  have "cursor_inv (if same_epoch r s then writeCursor (req_key r) v ref now s else s,
      if same_epoch r s then mark_written (req_key r) s g else g)"
    using write_inv [OF step_finish(3)] step_finish(3) by simp
  from release_tail_inv [THEN iffD2, OF this, of i r]
  have "cursor_inv (end_active i r (release_tail i r (if same_epoch r s then writeCursor (req_key r) v ref now s else s)),
      if same_epoch r s then mark_written (req_key r) s g else g)"
    by (rule end_inv_after [where s = s]) (use step_finish(1) in simp_all)
  then show ?case by (simp add: finish_observe_def Let_def)
next
  case (step_prepared s i r b g v ref)
  show ?case by (rule prepare_inv [OF step_prepared(3,1,2)])
next
  case (step_fail s i r b g)
  from release_tail_inv [THEN iffD2, OF step_fail(3), of i r] show ?case
    unfolding fail_task_def by (rule end_inv_after [where s = s]) (use step_fail(1) in simp_all)
next
  case (step_commit i now s s' advanced r g)
  from commit_cases [OF step_commit(1,2)] show ?case
  proof
    assume "s' = s \<and> \<not> advanced \<and> (\<forall>b v ref. req_phase r \<noteq> Prepared b v ref)"
    then show ?thesis using step_commit(3) by simp
  next
    assume "\<exists>b v ref. req_phase r = Prepared b v ref \<and> advanced = (same_epoch r s \<and> revision_at s (req_key r) = b)
      \<and> s' = end_active i r (if advanced then writeCursor (req_key r) v ref now s else s)"
    then obtain v ref where s': "s' = end_active i r (if advanced then writeCursor (req_key r) v ref now s else s)" by blast
    have "cursor_inv (if advanced then writeCursor (req_key r) v ref now s else s, if advanced then mark_written (req_key r) s g else g)"
      using write_inv [OF step_commit(3)] step_commit(3) by simp
    then show ?thesis
      unfolding s' by (rule end_inv_after [where s = s]) (use step_commit(2) in simp_all)
  qed
next
  case (step_abort s g i)
  show ?case
  proof (cases "requests s i")
    case None
    then show ?thesis using step_abort by (simp add: abort_pending_def)
  next
    case (Some r)
    then show ?thesis
      using step_abort end_inv [OF step_abort Some] by (cases "req_phase r") (simp_all add: abort_pending_def)
  qed
next
  case (step_clear_kind s g ns)
  then show ?case by (rule clear_kind_inv)
next
  case (step_clear_observer s g sess)
  then show ?case by (rule clear_observer_inv)
next
  case (step_retain s g sess refs)
  then show ?case by (rule clear_observer_inv)
next
  case (step_dispose s g)
  then show ?case by (simp add: dispose_store_def)
qed

lemma start_state_inv: "cursor_inv (createObservationCursorStore, no_flags)"
  by (simp add: createObservationCursorStore_def active_ok_def live_def revisions_ok_def revision_at_def)

interpretation observation_cursors: invariant_system "(createObservationCursorStore, no_flags)" cursor_step cursor_inv
  by unfold_locales (rule start_state_inv, rule step_inv)

section \<open>Properties\<close>

text \<open>
  C25. Commit is compare-and-swap: in every reachable state, committing a prepared observation advances the cursor
  exactly when the store is not disposed, nothing invalidated the cursor's namespace since the observation was
  requested, and nobody wrote the cursor since the observation read it; when it advances, the cursor holds the
  observed value under a revision that no cursor had before, and when it does not, every cursor is unchanged.
\<close>

theorem commit_is_compare_and_swap:
  assumes "reachable (createObservationCursorStore, no_flags) cursor_step (s, g)"
    and "requests s i = Some r" "req_phase r = Prepared b v ref" "commit i now s = (s', advanced)"
  shows "(advanced \<longleftrightarrow> \<not> disposed_store s \<and> \<not> invalidated g i \<and> \<not> overwritten g i)
    \<and> (if advanced
       then (\<exists>e. readCursor (req_key r) s' = Some e \<and> entry_value e = v \<and> ref \<in> set (retainedBy e)
              \<and> (\<forall>key n. revision_at s key = Some n \<longrightarrow> n < entry_revision e))
         \<and> (\<forall>key. key \<noteq> req_key r \<longrightarrow> observers s' key = observers s key)
       else observers s' = observers s)
    \<and> requests s' i = None"
proof -
  have inv: "cursor_inv (s, g)" using assms(1) by (rule observation_cursors.reachable_inv)
  have adv: "advanced = (same_epoch r s \<and> revision_at s (req_key r) = b)"
      and s': "s' = end_active i r (if advanced then writeCursor (req_key r) v ref now s else s)"
    using commit_cases [OF assms(4,2)] assms(3) by auto
  have ends: "observers (end_active i r t) = observers t" "requests (end_active i r t) i = None" for t
    by (simp_all add: end_active_def Let_def)
  have "advanced \<longleftrightarrow> \<not> disposed_store s \<and> \<not> invalidated g i \<and> \<not> overwritten g i"
  proof (cases "disposed_store s")
    case True
    then show ?thesis by (simp add: adv same_epoch_def)
  next
    case False
    then have "request_ok s (invalidated g i) (overwritten g i) r" using inv assms(2) by simp
    then show ?thesis
      using False assms(3) by (auto simp: adv same_epoch_def request_ok_def epoch_at_def)
  qed
  moreover have "revision_at s key = Some n \<Longrightarrow> n < nextRevision s + 1" if advanced for key n
  proof -
    have "\<not> disposed_store s" using that by (simp add: adv same_epoch_def)
    then have "revisions_ok s" using inv by simp
    then show "revision_at s key = Some n \<Longrightarrow> n < nextRevision s + 1"
      unfolding revisions_ok_def by (metis Suc_eq_plus1 le_imp_less_Suc)
  qed
  ultimately show ?thesis
    unfolding s' readCursor_def by (simp add: ends writeCursor_def Let_def)
qed

theorem commit_is_compare_and_swap_witness:
  "\<exists>(s :: nat cursor_store) g r s'. reachable (createObservationCursorStore, no_flags) cursor_step (s, g)
    \<and> requests s 0 = Some r \<and> req_phase r = Prepared None 5 ''ref'' \<and> commit 0 9 s = (s', True)
    \<and> \<not> invalidated g 0 \<and> \<not> overwritten g 0 \<and> requests s' 0 = None"
proof -
  let ?key = "(''s'', Shell, ''o'')"
  let ?r = "\<lambda>ph. \<lparr>req_key = ?key, requestedEpoch = 0, req_phase = ph\<rparr>"
  let ?s = "\<lambda>ph q. (createObservationCursorStore :: nat cursor_store)\<lparr>activeNamespaces := [(''s'', Shell) \<mapsto> 1], tails := (\<lambda>_. [])(?key := q),
      requests := [0 \<mapsto> ?r ph]\<rparr>"
  have none: "no_flags\<lparr>overwritten := (overwritten no_flags)(0 := False)\<rparr> = no_flags"
      "\<lparr>invalidated = (invalidated no_flags)(0 := False), overwritten = (overwritten no_flags)(0 := False)\<rparr> = no_flags"
    by (simp_all add: no_flags_def fun_eq_iff)
  have s1: "cursor_step (createObservationCursorStore, no_flags) (EvRequest 0) (?s Waiting [0], no_flags)"
    using step_request [of 0 ?key "createObservationCursorStore :: nat cursor_store" "?s Waiting [0]" no_flags]
    by (simp add: none request_observation_def createObservationCursorStore_def or_else_def)
  have s2: "cursor_step (?s Waiting [0], no_flags) (EvStart 0) (?s (Running None) [0], no_flags)"
    using step_start [of "?s Waiting [0]" 0 "?r Waiting" no_flags]
    by (simp add: none start_task_def readCursor_def createObservationCursorStore_def)
  have s3: "cursor_step (?s (Running None) [0], no_flags) (EvPrepared 0) (?s (Prepared None 5 ''ref'') [], no_flags)"
    using step_prepared [of "?s (Running None) [0]" 0 "?r (Running None)" None no_flags 5 "''ref''"]
    by (simp add: finish_prepare_def release_tail_def)
  have reach: "reachable (createObservationCursorStore, no_flags) cursor_step (?s (Prepared None 5 ''ref'') [], no_flags)"
    by (rule reach_step [where step = cursor_step, OF _ s3], rule reach_step [where step = cursor_step, OF _ s2],
        rule reach_step [where step = cursor_step, OF _ s1], rule reach_start)
  obtain s' advanced where c: "commit 0 9 (?s (Prepared None 5 ''ref'') []) = (s', advanced)" by force
  have r: "requests (?s (Prepared None 5 ''ref'') []) 0 = Some (?r (Prepared None 5 ''ref''))" by simp
  have ph: "req_phase (?r (Prepared None 5 ''ref'')) = Prepared None 5 ''ref''" by simp
  note t = commit_is_compare_and_swap [OF reach r ph c]
  have flags: "\<not> disposed_store (?s (Prepared None 5 ''ref'') [])" "\<not> invalidated no_flags 0" "\<not> overwritten no_flags 0"
    by (simp_all add: no_flags_def createObservationCursorStore_def)
  then have "advanced" using t by blast
  then have c': "commit 0 9 (?s (Prepared None 5 ''ref'') []) = (s', True)" using c by simp
  have "requests s' 0 = None" using t by blast
  with reach r ph c' flags show ?thesis by blast
qed

end
