(* ===== verification/Tunnel_Peers.thy ===== *)
theory Tunnel_Peers
  imports Tunnel_Client Frame_Batcher
begin

unbundle bit_operations_syntax

text \<open>
  The stateful half of the client codec, \<^verbatim>\<open>src/packages/ui/src/lib/relay/tunnel-codec.ts\<close>: its
  fragment assembler and its outbound batcher, and the two peers of a tunnel composed.

  The assembler's \<open>Map\<close> is an association list in insertion order, as \<open>dropStream\<close> iterates over it.
  The batcher's variables are those of the host's and share the host's record; a throw of
  \<open>encodeFrameBatch\<close> leaves the state that the assignments before it made.
\<close>

section \<open>Operations\<close>

type_synonym client_pending = "(string \<times> pending_entry) list"

definition client_fragment_key :: "ClientFrame \<Rightarrow> string" where
  "client_fragment_key frame = dec (cf_streamId frame) @ '':'' @ dec (nat (type_value (cf_frameType frame)))"

fun set_chunks :: "bytes \<Rightarrow> nat \<Rightarrow> bytes list \<Rightarrow> bytes" where
  "set_chunks message offset [] = message"
| "set_chunks message offset (chunk # rest) =
     (let message = place message chunk offset; offset = offset + length chunk
      in set_chunks message offset rest)"

definition client_push ::
  "nat \<Rightarrow> client_pending \<Rightarrow> ClientFrame \<Rightarrow> client_pending \<times> (tunnel_error, bytes option) outcome" where
  "client_push maxMessageBytes pend frame =
     (let key = client_fragment_key frame
      in case map_of pend key of
           None \<Rightarrow>
             if \<not> cf_hasMoreFragments frame then (pend, Inr (Some (cf_payload frame)))
             else let total = length (cf_payload frame)
                  in if total > maxMessageBytes then (AList.delete key pend, Inl FragmentTooLarge)
                     else (AList.update key \<lparr>chunks = [cf_payload frame], totalBytes = total\<rparr> pend, Inr None)
         | Some entry \<Rightarrow>
             let total = totalBytes entry + length (cf_payload frame)
             in if total > maxMessageBytes then (AList.delete key pend, Inl FragmentTooLarge)
                else let cs = chunks entry @ [cf_payload frame]
                     in if cf_hasMoreFragments frame
                        then (AList.update key \<lparr>chunks = cs, totalBytes = total\<rparr> pend, Inr None)
                        else (AList.delete key pend, Inr (Some (set_chunks (replicate total 0) 0 cs))))"

definition client_dropStream :: "nat \<Rightarrow> client_pending \<Rightarrow> client_pending" where
  "client_dropStream sid pend = filter (\<lambda>(key, _). \<not> prefix (dec sid @ '':'') key) pend"

definition CLIENT_BUFFERED_FRAME_TYPES :: "TunnelFrameType list" where
  "CLIENT_BUFFERED_FRAME_TYPES = [HttpBody, WsText, WsBinary]"

definition client_flush :: "int \<Rightarrow> batcher \<Rightarrow> batcher_result" where
  "client_flush now s =
     (let s = (if timer s then s\<lparr>timer := False\<rparr> else s)
      in if length (buffer s) = 0 then (s, [], None)
         else
           let frames = buffer s;
               s = s\<lparr>buffer := []\<rparr>\<lparr>bufferedBytes := 0\<rparr>\<lparr>lastFlushAt := now\<rparr>
           in case client_encodeFrameBatch frames of
                Inl e \<Rightarrow> (s, [], Some e)
              | Inr plaintext \<Rightarrow> (s, [plaintext], None))"

text \<open>
  \<open>client_append\<close> is the end of \<open>enqueue\<close>: the frame is appended, and the buffer flushed or the timer
  armed.
\<close>

definition client_append :: "batcher_options \<Rightarrow> int \<Rightarrow> bytes \<Rightarrow> batcher \<Rightarrow> batcher_result" where
  "client_append opts now frame s =
     (let s = s\<lparr>buffer := buffer s @ [frame]\<rparr>;
          s = s\<lparr>bufferedBytes := bufferedBytes s + (BATCH_FRAME_LENGTH_BYTES + length frame)\<rparr>
      in if int (bufferedBytes s) \<ge> maxBatchBytes opts \<or> int (length (buffer s)) \<ge> maxBatchFrames opts
         then client_flush now s
         else (if timer s then s else s\<lparr>timer := True\<rparr>, [], None))"

definition client_enqueue :: "batcher_options \<Rightarrow> int \<Rightarrow> int \<Rightarrow> int \<Rightarrow> bytes \<Rightarrow> batcher \<Rightarrow> batcher_result" where
  "client_enqueue opts at now1 now2 frame s =
     (if batcher_disposed s then (s, [], None)
      else
        let frameType = uint (byte_at frame 0 AND NOT TUNNEL_FRAGMENT_FLAG)
        in if frameType \<notin> set (map type_value CLIENT_BUFFERED_FRAME_TYPES)
           then client_flush now1 (s\<lparr>buffer := buffer s @ [frame]\<rparr>)
           else if length (buffer s) = 0 \<and> at - lastFlushAt s \<ge> windowMs opts
           then client_flush now1 (s\<lparr>buffer := buffer s @ [frame]\<rparr>)
           else if length (buffer s) > 0 \<and>
                   1 + bufferedBytes s + (BATCH_FRAME_LENGTH_BYTES + length frame) > MAX_PLAINTEXT_FRAME_BYTES
           then case client_flush now1 s of
                  (s, sent, Some e) \<Rightarrow> (s, sent, Some e)
                | (s, sent, None) \<Rightarrow>
                    (case client_append opts now2 frame s of (s, sent', err) \<Rightarrow> (s, sent @ sent', err))
           else client_append opts now2 frame s)"

definition client_batcher_dispose :: "batcher \<Rightarrow> batcher" where
  "client_batcher_dispose s =
     (let s = s\<lparr>batcher_disposed := True\<rparr>;
          s = (if timer s then s\<lparr>timer := False\<rparr> else s)
      in s\<lparr>buffer := []\<rparr>\<lparr>bufferedBytes := 0\<rparr>)"

section \<open>Runs\<close>

definition client_batcher_step :: "batcher_options \<Rightarrow> batcher \<Rightarrow> batcher_event \<Rightarrow> batcher_result" where
  "client_batcher_step opts s ev =
     (case ev of
        Enqueue at n1 n2 frame \<Rightarrow> client_enqueue opts at n1 n2 frame s
      | Timer_Fires now \<Rightarrow> if timer s then client_flush now s else (s, [], None)
      | Flush now \<Rightarrow> client_flush now s)"

fun client_batcher_run ::
  "batcher_options \<Rightarrow> batcher \<Rightarrow> batcher_event list \<Rightarrow> batcher \<times> bytes list \<times> tunnel_error list" where
  "client_batcher_run opts s [] = (s, [], [])"
| "client_batcher_run opts s (ev # evs) =
     (let (s1, sent, err) = client_batcher_step opts s ev;
          (s2, sents, errs) = client_batcher_run opts s1 evs
      in (s2, sent @ sents, (case err of None \<Rightarrow> errs | Some e \<Rightarrow> e # errs)))"

text \<open>
  What the receiving peer hands on: the messages the assembler completed, in order, and whether any
  fragment was refused.
\<close>

fun delivered :: "(tunnel_error, bytes option) outcome list \<Rightarrow> bytes list" where
  "delivered [] = []"
| "delivered (Inr (Some message) # rs) = message # delivered rs"
| "delivered (r # rs) = delivered rs"

section \<open>The client does what the host does\<close>

lemma client_fragment_key_agrees [simp]:
  "client_fragment_key f = fragment_key (streamId (host_frame f)) (frameType (host_frame f))"
  by (simp add: client_fragment_key_def fragment_key_def host_frame_def)

lemma set_chunks_agrees [simp]: "set_chunks message offset cs = place_all message offset cs"
  by (induction cs arbitrary: message offset) (simp_all add: Let_def)

lemma map_of_delete_fun: "map_of (AList.delete k xs) = (map_of xs)(k := None)"
  by (simp add: delete_conv')

lemma client_push_agrees:
  "push limit (map_of pend) (host_frame f) =
     (case client_push limit pend f of (pend', r) \<Rightarrow> (map_of pend', r))"
  by (simp add: push_def client_push_def Let_def host_frame_def map_of_delete_fun update_conv'
      split: option.split)

lemma client_dropStream_agrees: "map_of (client_dropStream sid pend) = dropStream sid (map_of pend)"
  by (induction pend) (auto simp: client_dropStream_def dropStream_def fun_eq_iff)

lemma client_flush_agrees: "client_flush now s = flush now s"
  by (simp add: client_flush_def flush_def clearPendingTimer_def Let_def client_encodeFrameBatch_agrees)

lemma client_enqueue_agrees: "client_enqueue opts at now1 now2 frame s = enqueue opts at now1 now2 frame s"
  by (auto simp: client_enqueue_def client_append_def enqueue_def is_buffered_frame_def client_flush_agrees
      BUFFERED_FRAME_TYPES_def CLIENT_BUFFERED_FRAME_TYPES_def Let_def split: prod.splits option.splits)

lemma client_batcher_run_agrees: "client_batcher_run opts s evs = batcher_run opts s evs"
  by (induction evs arbitrary: s)
    (simp_all add: client_batcher_step_def batcher_step_def client_flush_agrees client_enqueue_agrees
      split: batcher_event.split)

section \<open>From message to message\<close>

lemma push_all_append:
  "push_all limit pend (fs @ gs) =
    (case push_all limit pend fs of (pend', rs) \<Rightarrow>
       case push_all limit pend' gs of (pend'', rs') \<Rightarrow> (pend'', rs @ rs'))"
  by (induction fs arbitrary: pend) (simp_all split: prod.splits)

lemma delivered_append [simp]: "delivered (rs @ rs') = delivered rs @ delivered rs'"
  by (induction rs rule: delivered.induct) auto

lemma delivered_waiting [simp]: "delivered (replicate n (Inr None)) = []"
  by (induction n) auto

lemma message_received:
  assumes "int s \<le> MAX_STREAM_ID" "length pl \<le> limit"
    and "client_encodeFragmentedMessage t (JInt (int s)) pl = Inr frames"
  shows "\<exists>fs. map decodeTunnelFrame frames = map Inr fs \<and>
    push_all limit Map.empty fs = (Map.empty, replicate (length fs - 1) (Inr None) @ [Inr (Some pl)])"
proof -
  from assms(3) obtain cs where cs: "chunkPayload pl (int MAX_TUNNEL_PAYLOAD_BYTES) = Inr cs"
    and fr: "ocollect (map (\<lambda>(i, c). encodeTunnelFrame (type_value t) (JInt (int s)) c (i < 0 + length cs - 1))
           (List.enumerate 0 cs)) = Inr frames"
    by (auto simp: client_fragments_agree encodeFragmentedMessage_def outcome_simps)
  note decoded = encode_fragments [OF isTunnelFrameType_value _ assms(1) fr]
  have len: "length (fragments t' (nat (int s)) cs) = length cs" for t'
    by (induction t' "nat (int s)" cs rule: fragments.induct) auto
  have "sum_list (map length cs) = length pl"
    using chunkPayload_Inr(1) [OF cs] by (metis length_concat)
  then have "push_all limit Map.empty (fragments (type_value t) (nat (int s)) cs) =
      (Map.empty, replicate (length cs - 1) (Inr None) @ [Inr (Some pl)])"
    using push_all_fragments [of cs Map.empty "nat (int s)" "type_value t" "[]" 0 limit]
      chunkPayload_Inr(1,2) [OF cs] assms(2) by (simp add: fun_upd_idem)
  with decoded len [of "type_value t"] show ?thesis by auto
qed

lemma messages_received:
  assumes "\<forall>(t, s, pl) \<in> set ms. int s \<le> MAX_STREAM_ID \<and> length pl \<le> limit"
    and "ocollect (map (\<lambda>(t, s, pl). client_encodeFragmentedMessage t (JInt (int s)) pl) ms) = Inr frames"
  shows "\<exists>fs rs. map decodeTunnelFrame (concat frames) = map Inr fs \<and>
    push_all limit Map.empty fs = (Map.empty, rs) \<and> list_all (\<lambda>r. \<not> isl r) rs \<and> delivered rs = map (snd \<circ> snd) ms"
  using assms
proof (induction ms arbitrary: frames)
  case Nil
  then show ?case by simp
next
  case (Cons m ms)
  obtain t s pl where m: "m = (t, s, pl)" by (cases m) auto
  from Cons.prems(2) obtain fr frs where frames: "frames = fr # frs"
    and fr: "client_encodeFragmentedMessage t (JInt (int s)) pl = Inr fr"
    and frs: "ocollect (map (\<lambda>(t, s, pl). client_encodeFragmentedMessage t (JInt (int s)) pl) ms) = Inr frs"
    by (auto simp: m outcome_simps)
  obtain fs where "map decodeTunnelFrame fr = map Inr fs"
    "push_all limit Map.empty fs = (Map.empty, replicate (length fs - 1) (Inr None) @ [Inr (Some pl)])"
    using message_received [OF _ _ fr] Cons.prems(1) by (auto simp: m)
  moreover obtain gs rs where "map decodeTunnelFrame (concat frs) = map Inr gs"
    "push_all limit Map.empty gs = (Map.empty, rs)" "list_all (\<lambda>r. \<not> isl r) rs" "delivered rs = map (snd \<circ> snd) ms"
    using Cons.IH [OF _ frs] Cons.prems(1) by auto
  ultimately show ?case
    unfolding frames
    by - (rule exI [where x = "fs @ gs"], rule exI [where x = "replicate (length fs - 1) (Inr None) @ [Inr (Some pl)] @ rs"],
        auto simp: push_all_append m list_all_iff)
qed

lemma batcher_run_snoc:
  "fst (batcher_run opts s (evs @ [ev])) = fst (batcher_step opts (fst (batcher_run opts s evs)) ev)"
  by (induction evs arbitrary: s) (simp_all add: case_prod_unfold Let_def)

lemma flush_empties: "buffer (fst (flush now s)) = []"
  by (simp add: flush_def clearPendingTimer_def Let_def split: sum.split)

lemma enqueued_append [simp]: "enqueued (evs @ evs') = enqueued evs @ enqueued evs'"
  by (induction evs rule: enqueued.induct) auto

lemma batcher_run_flushed:
  assumes "\<forall>ev \<in> set evs. roomy_event opts ev"
  shows "\<exists>s sent. batcher_run opts createOutboundFrameBatcher (evs @ [Flush now]) = (s, sent, []) \<and>
    buffer s = [] \<and> unpack sent = enqueued evs"
proof -
  have "batcher_ok opts createOutboundFrameBatcher"
    by (simp add: batcher_ok_def createOutboundFrameBatcher_def MAX_PLAINTEXT_FRAME_BYTES_def)
  moreover have "\<forall>ev \<in> set (evs @ [Flush now]). roomy_event opts ev"
    using assms by (auto simp: roomy_event_def)
  ultimately obtain s sent where run: "batcher_run opts createOutboundFrameBatcher (evs @ [Flush now]) = (s, sent, [])"
    and un: "unpack sent @ buffer s = enqueued (evs @ [Flush now])"
    using batcher_run_good [of opts createOutboundFrameBatcher "evs @ [Flush now]"]
    by (auto simp: createOutboundFrameBatcher_def)
  have "buffer s = []"
    using batcher_run_snoc [of opts createOutboundFrameBatcher evs "Flush now"] run
    by (simp add: batcher_step_def flush_empties)
  with run un show ?thesis by simp
qed

section \<open>Properties\<close>

text \<open>
  The client's assembler is the host's, on every frame and state, and so is its batcher over every
  history: the two mirrored halves of the tunnel protocol cannot drift in what they accept, refuse,
  buffer or send.
\<close>

theorem peers_agree:
  "push limit (map_of pend) (host_frame f) = map_prod map_of id (client_push limit pend f)
   \<and> dropStream sid (map_of pend) = map_of (client_dropStream sid pend)
   \<and> batcher_run opts s evs = client_batcher_run opts s evs
   \<and> batcher_dispose s = client_batcher_dispose s"
  by (simp add: client_push_agrees client_dropStream_agrees client_batcher_run_agrees map_prod_def
      batcher_dispose_def client_batcher_dispose_def clearPendingTimer_def Let_def split: prod.split)

text \<open>
  C3. Messages cross the tunnel: when the client fragments a list of messages and hands the frames to its
  batcher, in whatever pattern of timer expiries and flushes, a final flush leaves nothing buffered; and
  the host that splits the received batches, decodes the frames and reassembles them gets exactly the
  messages, each once and in order, refuses nothing and keeps nothing pending.
\<close>

theorem tunnel_end_to_end:
  assumes "\<forall>(t, s, pl) \<in> set ms. int s \<le> MAX_STREAM_ID \<and> length pl \<le> limit"
    and "ocollect (map (\<lambda>(t, s, pl). client_encodeFragmentedMessage t (JInt (int s)) pl) ms) = Inr frames"
    and "enqueued evs = concat frames" "\<forall>ev \<in> set evs. roomy_event opts ev"
  shows "\<exists>st sent fs rs.
    client_batcher_run opts createOutboundFrameBatcher (evs @ [Flush now]) = (st, sent, []) \<and> buffer st = [] \<and>
    map decodeTunnelFrame (unpack sent) = map Inr fs \<and>
    push_all limit Map.empty fs = (Map.empty, rs) \<and> list_all (\<lambda>r. \<not> isl r) rs \<and> delivered rs = map (snd \<circ> snd) ms"
  using messages_received [OF assms(1,2)] batcher_run_flushed [OF assms(4), of now] assms(3)
  unfolding client_batcher_run_agrees by force

theorem tunnel_end_to_end_witness:
  "\<exists>st sent fs rs.
    client_batcher_run DEFAULT_BATCHER_OPTIONS createOutboundFrameBatcher
      ([Enqueue 500 500 500 [8, 0, 0, 0, 3, 104, 105], Timer_Fires 700, Enqueue 710 710 710 [4, 0, 0, 0, 3]] @
       [Flush 720]) = (st, sent, []) \<and> buffer st = [] \<and>
    map decodeTunnelFrame (unpack sent) = map Inr fs \<and>
    push_all 100 Map.empty fs = (Map.empty, rs) \<and> list_all (\<lambda>r. \<not> isl r) rs \<and>
    delivered rs = map (snd \<circ> snd) [(WsText, 3 :: nat, [104, 105 :: 8 word]), (StreamEnd, 3, [])]"
  by (rule tunnel_end_to_end [where frames = "[[[8, 0, 0, 0, 3, 104, 105]], [[4, 0, 0, 0, 3]]]"])
    (simp_all add: client_fragments_agree encodeFragmentedMessage_def chunkPayload_def tunnel_constants
      chunk_loop.simps slice_def encodeTunnelFrame_def be32_def MAX_STREAM_ID_def roomy_event_def
      roomy_frame_def legal_frame_def DEFAULT_BATCHER_OPTIONS_def)

end
