(* ===== verification/Terminal_History.thy ===== *)
theory Terminal_History
  imports Varin_Prelude
begin

text \<open>
  The sanitiser of replayed terminal output, \<^verbatim>\<open>src/packages/web/application-host/lib/terminal/history.ts\<close>.

  Text is a list of UTF-16 code units. The loop's position \<open>index\<close> is the rest of the input from there
  on; \<open>next_token\<close> is one turn of the loop: how many units it consumes and whether they stay visible,
  or \<open>None\<close> where the code returns with the rest pending. Regular expressions are written out.
\<close>

section \<open>Operations\<close>

type_synonym units = "nat list"

definition units_of :: "string \<Rightarrow> units" where
  "units_of s = map of_char s"

definition isCsiFinalByte :: "nat \<Rightarrow> bool" where
  "isCsiFinalByte code \<longleftrightarrow> 0x40 \<le> code \<and> code \<le> 0x7e"

definition unit_digit :: "nat \<Rightarrow> bool" where
  "unit_digit c \<longleftrightarrow> 0x30 \<le> c \<and> c \<le> 0x39"

text \<open>The expression \<^verbatim>\<open>^\?2031(?:;[0-9]+)?\$$\<close>: the mode report of the colour scheme.\<close>

definition is_mode_2031 :: "units \<Rightarrow> bool" where
  "is_mode_2031 body \<longleftrightarrow>
     (let p = units_of ''?2031'' in
      take 5 body = p \<and>
      (case drop 5 body of
         [] \<Rightarrow> False
       | c # rest \<Rightarrow>
           (c = 0x24 \<and> rest = []) \<or>
           (c = 0x3b \<and> 2 \<le> length rest \<and> list_all unit_digit (butlast rest) \<and> last rest = 0x24)))"

definition shouldStripCsi :: "units \<Rightarrow> nat \<Rightarrow> bool" where
  "shouldStripCsi body finalByte \<longleftrightarrow>
     finalByte = of_char (CHR ''n'')
     \<or> (finalByte = of_char (CHR ''R'') \<and> list_all (\<lambda>c. unit_digit c \<or> c \<in> {0x3b, 0x3f}) body)
     \<or> (finalByte = of_char (CHR ''c'') \<and> list_all (\<lambda>c. unit_digit c \<or> c \<in> {0x3e, 0x3b, 0x3f}) body)
     \<or> ((finalByte = of_char (CHR ''p'') \<or> finalByte = of_char (CHR ''y'')) \<and> is_mode_2031 body)
     \<or> ((finalByte = of_char (CHR ''h'') \<or> finalByte = of_char (CHR ''l'')) \<and> body = units_of ''?2031'')"

definition shouldStripOsc :: "units \<Rightarrow> bool" where
  "shouldStripOsc content \<longleftrightarrow>
     (take 3 content \<in> {units_of ''10;'', units_of ''11;'', units_of ''12;''} \<and>
      (prefix (units_of ''?'') (drop 3 content) \<or> prefix (units_of ''rgb:'') (drop 3 content)))
     \<or> take 4 content \<in> {units_of ''133;'', units_of ''633;''}"

definition stripTerminator :: "units \<Rightarrow> units" where
  "stripTerminator s =
     (if suffix [0x1b, 0x5c] s then take (length s - 2) s
      else if suffix [0x07] s \<or> suffix [0x9c] s then butlast s else s)"

fun findStringEnd :: "units \<Rightarrow> nat option" where
  "findStringEnd [] = None"
| "findStringEnd (code # rest) =
     (if code = 0x07 \<or> code = 0x9c then Some 1
      else if code = 0x1b \<and> take 1 rest = [0x5c] then Some 2
      else map_option Suc (findStringEnd rest))"

definition findEscapeEnd :: "units \<Rightarrow> nat option" where
  "findEscapeEnd input =
     (let cursor = length (takeWhile (\<lambda>c. 0x20 \<le> c \<and> c \<le> 0x2f) input)
      in if cursor \<ge> length input then None
         else if 0x30 \<le> input ! cursor \<and> input ! cursor \<le> 0x7e then Some (cursor + 1)
         else Some 1)"

text \<open>The branches for a control sequence and for a control string, after an introducer of \<open>k\<close> units.\<close>

definition csi_token :: "nat \<Rightarrow> units \<Rightarrow> (bool \<times> nat) option" where
  "csi_token k body =
     (let cursor = length (takeWhile (\<lambda>c. \<not> isCsiFinalByte c) body)
      in if cursor \<ge> length body then None
         else Some (\<not> shouldStripCsi (take cursor body) (body ! cursor), k + (cursor + 1)))"

definition string_token :: "nat \<Rightarrow> bool \<Rightarrow> units \<Rightarrow> (bool \<times> nat) option" where
  "string_token k osc body =
     (case findStringEnd body of
        None \<Rightarrow> None
      | Some stop \<Rightarrow> Some (\<not> osc \<or> \<not> shouldStripOsc (stripTerminator (take stop body)), k + stop))"

fun next_token :: "units \<Rightarrow> (bool \<times> nat) option" where
  "next_token [] = None"
| "next_token (code # rest) =
     (if code = 0x1b then
        (case rest of
           [] \<Rightarrow> None
         | nxt # body \<Rightarrow>
             if nxt = 0x5b then csi_token 2 body
             else if nxt = 0x5d \<or> nxt = 0x50 \<or> nxt = 0x5e \<or> nxt = 0x5f then string_token 2 (nxt = 0x5d) body
             else map_option (\<lambda>stop. (True, 1 + stop)) (findEscapeEnd rest))
      else if code = 0x9b then csi_token 1 rest
      else if code = 0x9d \<or> code = 0x90 \<or> code = 0x9e \<or> code = 0x9f then string_token 1 (code = 0x9d) rest
      else Some (True, 1))"

lemma findStringEnd_bounds: "findStringEnd s = Some n \<Longrightarrow> 0 < n \<and> n \<le> length s"
  by (induction s arbitrary: n) (auto split: if_splits simp: take_Suc_conv_app_nth Suc_le_eq)

lemma next_token_bounds: "next_token s = Some (keep, n) \<Longrightarrow> 0 < n \<and> n \<le> length s"
  by (cases s)
    (auto simp: csi_token_def string_token_def findEscapeEnd_def Let_def
      dest: findStringEnd_bounds split: if_splits list.splits option.splits)

function sanitize_loop :: "units \<Rightarrow> units \<Rightarrow> units \<times> units" where
  "sanitize_loop visible rest =
     (case next_token rest of
        None \<Rightarrow> (rest, visible)
      | Some (keep, n) \<Rightarrow>
          sanitize_loop (if keep then visible @ take n rest else visible) (drop n rest))"
  by pat_completeness auto
termination
  by (relation "measure (length \<circ> snd)") (auto dest: next_token_bounds split: if_splits)

declare sanitize_loop.simps [simp del]

text \<open>The result is the pair of \<open>pending\<close> and \<open>visible\<close>.\<close>

definition sanitizeTerminalHistoryChunk :: "units \<Rightarrow> units \<Rightarrow> units \<times> units" where
  "sanitizeTerminalHistoryChunk held chunk = sanitize_loop [] (held @ chunk)"

text \<open>The history kept for a terminal: the chunks in order, each with what the previous one left.\<close>

fun sanitize_chunks :: "units \<Rightarrow> units list \<Rightarrow> units \<times> units" where
  "sanitize_chunks held [] = (held, [])"
| "sanitize_chunks held (c # cs) =
     (let (pending1, visible1) = sanitizeTerminalHistoryChunk held c;
          (pending2, visible2) = sanitize_chunks pending1 cs
      in (pending2, visible1 @ visible2))"

section \<open>Tokens do not depend on what follows\<close>

lemma takeWhile_stable:
  "length (takeWhile P s) < length s \<Longrightarrow> takeWhile P (s @ t) = takeWhile P s"
  by (induction s) (auto split: if_splits)

lemma findStringEnd_stable: "findStringEnd s = Some n \<Longrightarrow> findStringEnd (s @ t) = Some n"
proof (induction s arbitrary: n)
  case (Cons c s)
  then show ?case by (cases s) (auto split: if_splits)
qed simp

lemma csi_token_stable: "csi_token k s = Some r \<Longrightarrow> csi_token k (s @ t) = Some r"
  using takeWhile_stable [of "\<lambda>c. \<not> isCsiFinalByte c" s t]
  by (auto simp: csi_token_def Let_def nth_append split: if_splits)

lemma string_token_stable: "string_token k osc s = Some r \<Longrightarrow> string_token k osc (s @ t) = Some r"
  using findStringEnd_bounds [of s] findStringEnd_stable [of s]
  by (auto simp: string_token_def split: option.splits)

lemma findEscapeEnd_stable: "findEscapeEnd s = Some n \<Longrightarrow> findEscapeEnd (s @ t) = Some n"
  using takeWhile_stable [of "\<lambda>c. 0x20 \<le> c \<and> c \<le> 0x2f" s t]
  by (auto simp: findEscapeEnd_def Let_def nth_append split: if_splits)

lemma next_token_stable: "next_token s = Some r \<Longrightarrow> next_token (s @ t) = Some r"
proof (cases s)
  case (Cons c s')
  assume "next_token s = Some r"
  with Cons show ?thesis
    using findEscapeEnd_stable [of s' _ t]
    by (cases s') (auto split: if_splits dest: csi_token_stable string_token_stable)
qed simp

lemma sanitize_loop_append:
  "sanitize_loop v (s @ t) = (case sanitize_loop v s of (held, v') \<Rightarrow> sanitize_loop v' (held @ t))"
proof (induction v s rule: sanitize_loop.induct)
  case (1 v s)
  show ?case
  proof (cases "next_token s")
    case None
    then show ?thesis by (simp add: sanitize_loop.simps [of v s])
  next
    case (Some r)
    then obtain keep n where tok: "next_token s = Some (keep, n)" by (cases r) auto
    with next_token_bounds [OF tok] show ?thesis
      using "1.IH" [OF tok refl] next_token_stable [OF tok, of t]
      by (cases keep) (simp_all add: sanitize_loop.simps [of v s] sanitize_loop.simps [of v "s @ t"])
  qed
qed

lemma sanitize_loop_visible: "sanitize_loop v s = (case sanitize_loop [] s of (p, w) \<Rightarrow> (p, v @ w))"
proof (induction "length s" arbitrary: v s rule: less_induct)
  case less
  show ?case
  proof (cases "next_token s")
    case None
    then show ?thesis by (simp add: sanitize_loop.simps [of _ s])
  next
    case (Some r)
    then obtain keep n where tok: "next_token s = Some (keep, n)" by (cases r) auto
    have shorter: "length (drop n s) < length s" using next_token_bounds [OF tok] by auto
    have "sanitize_loop (v @ w) (drop n s) = (case sanitize_loop w (drop n s) of (p, u) \<Rightarrow> (p, v @ u))" for w
      using less [OF shorter, of "v @ w"] less [OF shorter, of w] by (simp split: prod.splits)
    from this [of "[]"] this [of "take n s"] show ?thesis
      using tok by (cases keep) (simp_all add: sanitize_loop.simps [of _ s])
  qed
qed

lemma sanitize_loop_pending: "sanitize_loop v s = (p, w) \<Longrightarrow> next_token p = None"
proof (induction v s rule: sanitize_loop.induct)
  case (1 v s)
  then show ?case
    by (cases "next_token s") (auto simp: sanitize_loop.simps [of v s])
qed

lemma sanitize_chunks_loop:
  "next_token p = None \<Longrightarrow> sanitize_chunks p cs = sanitize_loop [] (p @ concat cs)"
proof (induction cs arbitrary: p)
  case Nil
  then show ?case by (simp add: sanitize_loop.simps)
next
  case (Cons c cs)
  obtain p1 v1 where c: "sanitize_loop [] (p @ c) = (p1, v1)" by fastforce
  then have "sanitize_chunks p1 cs = sanitize_loop [] (p1 @ concat cs)"
    using Cons.IH sanitize_loop_pending by blast
  with c show ?case
    using sanitize_loop_append [of "[]" "p @ c" "concat cs"] sanitize_loop_visible [of v1 "p1 @ concat cs"]
    by (simp add: sanitizeTerminalHistoryChunk_def split: prod.splits)
qed

section \<open>What is removed\<close>

text \<open>
  The sequences a terminal answers or that report shell state, written as a grammar: a control sequence
  whose body has no final byte, or an operating system command up to its first terminator.
\<close>

definition string_terminators :: "units list" where
  "string_terminators = [[0x07], [0x9c], [0x1b, 0x5c]]"

definition is_query :: "units \<Rightarrow> bool" where
  "is_query tok \<longleftrightarrow>
     (\<exists>intro body final. tok = intro @ body @ [final] \<and> intro \<in> {[0x1b, 0x5b], [0x9b]} \<and>
        list_all (\<lambda>c. \<not> isCsiFinalByte c) body \<and> isCsiFinalByte final \<and> shouldStripCsi body final)
     \<or> (\<exists>intro content terminator. tok = intro @ content @ terminator \<and> intro \<in> {[0x1b, 0x5d], [0x9d]} \<and>
          terminator \<in> set string_terminators \<and> findStringEnd content = None \<and> shouldStripOsc content)"

lemma findStringEnd_split:
  "findStringEnd s = Some n \<Longrightarrow>
    \<exists>c t. take n s = c @ t \<and> t \<in> set string_terminators \<and> findStringEnd c = None"
proof (induction s arbitrary: n)
  case (Cons x s)
  show ?case
  proof (cases "x = 0x07 \<or> x = 0x9c \<or> (x = 0x1b \<and> take 1 s = [0x5c])")
    case True
    with Cons.prems have "take n (x # s) \<in> set string_terminators"
      by (cases s) (auto simp: string_terminators_def split: if_splits)
    then show ?thesis by (metis append_Nil findStringEnd.simps(1))
  next
    case False
    with Cons.prems obtain m where m: "findStringEnd s = Some m" "n = Suc m" by (auto split: if_splits)
    then obtain c t where ct: "take m s = c @ t" "t \<in> set string_terminators" "findStringEnd c = None"
      using Cons.IH by blast
    have "take 1 c = [0x5c] \<Longrightarrow> take 1 s = [0x5c]"
      using ct(1) by (cases c; cases s; cases m) auto
    with False ct(3) have "findStringEnd (x # c) = None" by auto
    with ct m(2) show ?thesis by - (rule exI [where x = "x # c"], rule exI [where x = t], simp)
  qed
qed simp

lemma findStringEnd_content:
  assumes "findStringEnd c = None" "t \<in> set string_terminators"
  shows "findStringEnd (c @ t @ r) = Some (length c + length t)"
  using assms(1)
proof (induction c)
  case Nil
  then show ?case using assms(2) by (auto simp: string_terminators_def)
next
  case (Cons x c)
  have "take 1 (c @ t @ r) = [0x5c] \<Longrightarrow> take 1 c = [0x5c]"
    using assms(2) by (cases c) (auto simp: string_terminators_def)
  with Cons show ?case by (auto split: if_splits)
qed

lemma stripTerminator_content:
  assumes "t \<in> set string_terminators"
  shows "stripTerminator (c @ t) = c"
proof -
  have "\<not> suffix [0x1b, 0x5c] (c @ [x])" if "x \<noteq> 0x5c" for x
    using snoc_suffix_snoc [of "[0x1b]" "0x5c" c x] that by simp
  moreover have "suffix [x] (c @ [x])" "suffix [x, y] (c @ [x, y])" for x y
    by (simp_all add: suffix_def)
  ultimately show ?thesis
    using assms by (auto simp: string_terminators_def stripTerminator_def)
qed

lemma csi_removed_iff:
  "csi_token k s = Some (False, n) \<longleftrightarrow>
    (\<exists>body final r. s = body @ final # r \<and> n = k + length body + 1 \<and>
      list_all (\<lambda>c. \<not> isCsiFinalByte c) body \<and> isCsiFinalByte final \<and> shouldStripCsi body final)"
proof
  let ?P = "\<lambda>c. \<not> isCsiFinalByte c"
  assume tok: "csi_token k s = Some (False, n)"
  let ?m = "length (takeWhile ?P s)"
  have m: "?m < length s" "shouldStripCsi (take ?m s) (s ! ?m)" "n = k + ?m + 1"
    using tok unfolding csi_token_def Let_def by (simp_all split: if_split_asm)
  moreover have "take ?m s = takeWhile ?P s" by (rule takeWhile_eq_take [symmetric])
  moreover have "s = take ?m s @ s ! ?m # drop (Suc ?m) s"
    using m(1) by (rule id_take_nth_drop)
  moreover have "isCsiFinalByte (s ! ?m)" using nth_length_takeWhile [OF m(1)] by simp
  moreover have "list_all ?P (takeWhile ?P s)" by (auto simp: list_all_iff dest: set_takeWhileD)
  ultimately show "\<exists>body final r. s = body @ final # r \<and> n = k + length body + 1 \<and>
      list_all ?P body \<and> isCsiFinalByte final \<and> shouldStripCsi body final"
    by - (rule exI [where x = "takeWhile ?P s"], rule exI [where x = "s ! ?m"],
        rule exI [where x = "drop (Suc ?m) s"], simp)
next
  let ?P = "\<lambda>c. \<not> isCsiFinalByte c"
  assume "\<exists>body final r. s = body @ final # r \<and> n = k + length body + 1 \<and>
      list_all ?P body \<and> isCsiFinalByte final \<and> shouldStripCsi body final"
  then obtain body final r where s: "s = body @ final # r" "n = k + length body + 1"
    "list_all ?P body" "isCsiFinalByte final" "shouldStripCsi body final" by blast
  then have "takeWhile ?P s = body" by (auto simp: list_all_iff takeWhile_append)
  with s show "csi_token k s = Some (False, n)" by (simp add: csi_token_def Let_def)
qed

lemma osc_removed_iff:
  "string_token k osc s = Some (False, n) \<longleftrightarrow>
    (\<exists>content terminator r. s = content @ terminator @ r \<and> n = k + length content + length terminator \<and>
      osc \<and> terminator \<in> set string_terminators \<and> findStringEnd content = None \<and> shouldStripOsc content)"
proof
  assume "string_token k osc s = Some (False, n)"
  then obtain m where m: "findStringEnd s = Some m" "osc" "shouldStripOsc (stripTerminator (take m s))" "n = k + m"
    by (auto simp: string_token_def split: option.splits)
  obtain c t where ct: "take m s = c @ t" "t \<in> set string_terminators" "findStringEnd c = None"
    using findStringEnd_split [OF m(1)] by blast
  moreover have "s = c @ t @ drop m s" using ct(1) by (metis append.assoc append_take_drop_id)
  moreover have "m = length c + length t"
    using ct(1) findStringEnd_bounds [OF m(1)] by (metis length_append length_take min_absorb2)
  ultimately show "\<exists>content terminator r. s = content @ terminator @ r \<and>
      n = k + length content + length terminator \<and> osc \<and> terminator \<in> set string_terminators \<and>
      findStringEnd content = None \<and> shouldStripOsc content"
    using m stripTerminator_content [OF ct(2), of c]
    by - (rule exI [where x = c], rule exI [where x = t], rule exI [where x = "drop m s"], simp)
next
  assume "\<exists>content terminator r. s = content @ terminator @ r \<and>
      n = k + length content + length terminator \<and> osc \<and> terminator \<in> set string_terminators \<and>
      findStringEnd content = None \<and> shouldStripOsc content"
  then obtain c t r where s: "s = c @ t @ r" "n = k + length c + length t" "osc"
    "t \<in> set string_terminators" "findStringEnd c = None" "shouldStripOsc c" by blast
  then show "string_token k osc s = Some (False, n)"
    using findStringEnd_content [OF s(5,4), of r] stripTerminator_content [OF s(4), of c]
    by (simp add: string_token_def)
qed

lemma csi_query:
  "intro \<in> {[0x1b, 0x5b], [0x9b]} \<Longrightarrow> list_all (\<lambda>c. \<not> isCsiFinalByte c) body \<Longrightarrow>
    isCsiFinalByte final \<Longrightarrow> shouldStripCsi body final \<Longrightarrow> is_query (intro @ body @ [final])"
  unfolding is_query_def by blast

lemma osc_query:
  "intro \<in> {[0x1b, 0x5d], [0x9d]} \<Longrightarrow> terminator \<in> set string_terminators \<Longrightarrow>
    findStringEnd content = None \<Longrightarrow> shouldStripOsc content \<Longrightarrow> is_query (intro @ content @ terminator)"
  unfolding is_query_def by blast

lemma removed_iff_query:
  "next_token s = Some (False, n) \<longleftrightarrow> (\<exists>tok r. s = tok @ r \<and> n = length tok \<and> is_query tok)"
proof
  assume "next_token s = Some (False, n)"
  then consider body where "s = 0x1b # 0x5b # body" "csi_token 2 body = Some (False, n)"
    | body where "s = 0x9b # body" "csi_token 1 body = Some (False, n)"
    | body where "s = 0x1b # 0x5d # body" "string_token 2 True body = Some (False, n)"
    | body where "s = 0x9d # body" "string_token 1 True body = Some (False, n)"
    by (cases s rule: next_token.cases)
      (auto simp: string_token_def split: if_splits list.splits option.splits)
  then show "\<exists>tok r. s = tok @ r \<and> n = length tok \<and> is_query tok"
  proof cases
    case 1
    then obtain b f r where "body = b @ f # r" "n = 2 + length b + 1" "list_all (\<lambda>c. \<not> isCsiFinalByte c) b"
      "isCsiFinalByte f" "shouldStripCsi b f" by (auto simp: csi_removed_iff)
    with 1 show ?thesis
      by - (rule exI [where x = "[0x1b, 0x5b] @ b @ [f]"], rule exI [where x = r], simp add: csi_query [of "[0x1b, 0x5b]", simplified])
  next
    case 2
    then obtain b f r where "body = b @ f # r" "n = 1 + length b + 1" "list_all (\<lambda>c. \<not> isCsiFinalByte c) b"
      "isCsiFinalByte f" "shouldStripCsi b f" by (auto simp: csi_removed_iff)
    with 2 show ?thesis
      by - (rule exI [where x = "[0x9b] @ b @ [f]"], rule exI [where x = r], simp add: csi_query [of "[0x9b]", simplified])
  next
    case 3
    then obtain c t r where "body = c @ t @ r" "n = 2 + length c + length t" "t \<in> set string_terminators"
      "findStringEnd c = None" "shouldStripOsc c" by (auto simp: osc_removed_iff)
    with 3 show ?thesis
      by - (rule exI [where x = "[0x1b, 0x5d] @ c @ t"], rule exI [where x = r], simp add: osc_query [of "[0x1b, 0x5d]", simplified])
  next
    case 4
    then obtain c t r where "body = c @ t @ r" "n = 1 + length c + length t" "t \<in> set string_terminators"
      "findStringEnd c = None" "shouldStripOsc c" by (auto simp: osc_removed_iff)
    with 4 show ?thesis
      by - (rule exI [where x = "[0x9d] @ c @ t"], rule exI [where x = r], simp add: osc_query [of "[0x9d]", simplified])
  qed
next
  assume "\<exists>tok r. s = tok @ r \<and> n = length tok \<and> is_query tok"
  then show "next_token s = Some (False, n)"
    by (auto simp: is_query_def csi_removed_iff osc_removed_iff) blast+
qed

text \<open>The tokens of an input: the pieces the loop advances by, without their fate.\<close>

function tokens :: "units \<Rightarrow> units list" where
  "tokens s = (case next_token s of None \<Rightarrow> [] | Some (_, n) \<Rightarrow> take n s # tokens (drop n s))"
  by pat_completeness auto
termination
  by (relation "measure length") (auto dest: next_token_bounds)

declare tokens.simps [simp del]

lemma query_token:
  assumes "next_token s = Some (keep, n)"
  shows "is_query (take n s) \<longleftrightarrow> \<not> keep"
proof
  assume "is_query (take n s)"
  with next_token_bounds [OF assms] have "next_token s = Some (False, n)"
    by (subst removed_iff_query) (metis append_take_drop_id length_take min_absorb2)
  with assms show "\<not> keep" by simp
next
  assume "\<not> keep"
  with assms obtain tok r where "s = tok @ r" "n = length tok" "is_query tok"
    using removed_iff_query [of s n] by auto
  then show "is_query (take n s)" by simp
qed

lemma sanitize_loop_tokens:
  "sanitize_loop v s = (held, w) \<Longrightarrow>
    s = concat (tokens s) @ held \<and> w = v @ concat (filter (\<lambda>t. \<not> is_query t) (tokens s))"
proof (induction v s arbitrary: held w rule: sanitize_loop.induct)
  case (1 v s)
  show ?case
  proof (cases "next_token s")
    case None
    then have "tokens s = []" by (simp add: tokens.simps [of s])
    with None "1.prems" show ?thesis by (auto simp: sanitize_loop.simps [of v s])
  next
    case (Some r)
    then obtain keep n where tok: "next_token s = Some (keep, n)" by (cases r) auto
    with "1.prems" have rest: "sanitize_loop (if keep then v @ take n s else v) (drop n s) = (held, w)"
      by (simp add: sanitize_loop.simps [of v s])
    have "drop n s = concat (tokens (drop n s)) @ held"
      using "1.IH" [OF tok refl rest] by blast
    then have "s = (take n s @ concat (tokens (drop n s))) @ held"
      by (metis append.assoc append_take_drop_id)
    with "1.IH" [OF tok refl rest] query_token [OF tok] tok show ?thesis
      by (cases keep) (simp_all add: tokens.simps [of s])
  qed
qed

lemma sanitize_plain:
  "list_all (\<lambda>c. 0x20 \<le> c \<and> c \<le> 0x7e) s \<Longrightarrow> sanitize_loop v s = ([], v @ s)"
proof (induction s arbitrary: v)
  case (Cons c s)
  then show ?case by (simp add: sanitize_loop.simps [of v "c # s"])
qed (simp add: sanitize_loop.simps)

section \<open>Properties\<close>

text \<open>
  C27. The history does not depend on how the output was cut into chunks: feeding the chunks one after the
  other, each with the pending text of the one before, shows and keeps what one call with their
  concatenation shows and keeps, wherever escape sequences are split.
\<close>

theorem terminal_history_chunking:
  "sanitize_chunks [] cs = sanitizeTerminalHistoryChunk [] (concat cs)"
  by (simp add: sanitize_chunks_loop sanitizeTerminalHistoryChunk_def)


text \<open>
  A query behind a further escape character survives: the sanitiser takes the two escape characters
  for one sequence, while a terminal restarts at the second one and answers the query.
\<close>

theorem escaped_query_survives:
  assumes "list_all (\<lambda>c. 0x20 \<le> c \<and> c \<le> 0x7e) body"
  shows "is_query [0x1b, 0x5b, 0x36, 0x6e] \<and>
    sanitizeTerminalHistoryChunk [] (0x1b # [0x1b, 0x5b, 0x36, 0x6e] @ body) =
      ([], 0x1b # [0x1b, 0x5b, 0x36, 0x6e] @ body)"
proof
  show "is_query [0x1b, 0x5b, 0x36, 0x6e]"
    using csi_query [of "[0x1b, 0x5b]" "[0x36]" "0x6e"] by (simp add: isCsiFinalByte_def shouldStripCsi_def)
  have "next_token (0x1b # 0x1b # rest) = Some (True, 2)" for rest
    by (simp add: findEscapeEnd_def)
  then show "sanitizeTerminalHistoryChunk [] (0x1b # [0x1b, 0x5b, 0x36, 0x6e] @ body) =
      ([], 0x1b # [0x1b, 0x5b, 0x36, 0x6e] @ body)"
    using sanitize_plain [of "[0x5b, 0x36, 0x6e] @ body" "[0x1b, 0x1b]"] assms
    by (simp add: sanitizeTerminalHistoryChunk_def sanitize_loop.simps [of "[]"])
qed

theorem escaped_query_survives_witness:
  "list_all (\<lambda>c. 0x20 \<le> c \<and> c \<le> 0x7e) [0x24 :: nat, 0x20] \<and>
   sanitizeTerminalHistoryChunk [] [0x1b, 0x1b, 0x5b, 0x36, 0x6e, 0x24, 0x20] =
     ([], [0x1b, 0x1b, 0x5b, 0x36, 0x6e, 0x24, 0x20])"
  using escaped_query_survives [of "[0x24, 0x20]"] by simp

end
