(* ===== verification/Output_Store.thy ===== *)
theory Output_Store
  imports Utf8 Recovery_State
begin

text \<open>
  The store of tool outputs, \<^verbatim>\<open>src/packages/web/application-host/lib/harness/output-store.ts\<close>.

  The \<open>Map\<close> of a session's outputs is an association list in insertion order, oldest first. Bytes are
  naturals as in the theory of UTF-8. The platform's HMAC is the argument \<open>hmac\<close>, from key and message to
  the hexadecimal digest; its documented behaviour, 64 lower case digits, is the hypothesis \<open>hex_hmac\<close>.
  The maximum is an integer number of bytes; the generation and the key are given, where the code draws
  them at random when they are not.
\<close>

section \<open>State\<close>

record StoredOutput =
  out_bytes :: "nat list"
  out_label :: "string option"
  out_sequence :: nat

record SessionStore =
  outputs :: "(nat \<times> StoredOutput) list"
  session_total :: int
  nextSequence :: nat
  evictedThrough :: nat

record output_store =
  generation :: string
  macKey :: "nat list"
  maxBytesPerSession :: int
  sessions :: "string \<rightharpoonup> SessionStore"

datatype output_store_error = MaxBytesNotPositive | BadGeneration | ShortMacKey

datatype OutputReadResult = Ready "Utf8ByteSlice option" | Expired | NotFound

record OutputRef =
  ref_generation :: string
  ref_handle :: string

definition createSessionStore :: SessionStore where
  "createSessionStore = \<lparr>outputs = [], session_total = 0, nextSequence = 1, evictedThrough = 0\<rparr>"

definition createOutputStore :: "int \<Rightarrow> string \<Rightarrow> nat list \<Rightarrow> (output_store_error, output_store) outcome" where
  "createOutputStore maxBytes gen key =
     (if maxBytes \<le> 0 then Inl MaxBytesNotPositive
      else if \<not> (length gen = 32 \<and> list_all hex_digit gen) then Inl BadGeneration
      else if length key < 16 then Inl ShortMacKey
      else Inr \<lparr>generation = gen, macKey = key, maxBytesPerSession = maxBytes, sessions = Map.empty\<rparr>)"

section \<open>Handles\<close>

text \<open>\<open>Number.prototype.toString(36)\<close> and \<open>Number.parseInt(_, 36)\<close> on lower case digits.\<close>

fun base36 :: "nat \<Rightarrow> string" where
  "base36 n = (if n < 36 then [hex_char n] else base36 (n div 36) @ [hex_char (n mod 36)])"

declare base36.simps [simp del]

definition parse36 :: "string \<Rightarrow> nat" where
  "parse36 s = foldl (\<lambda>n c. n * 36 + hex_value c) 0 s"

definition base36_digit :: "char \<Rightarrow> bool" where
  "base36_digit c \<longleftrightarrow> is_digit c \<or> (97 \<le> (of_char c :: nat) \<and> (of_char c :: nat) \<le> 122)"

text \<open>The regular expressions: the legacy form, and the groups of the current one.\<close>

definition legacy_handle :: "string \<Rightarrow> bool" where
  "legacy_handle h \<longleftrightarrow>
     prefix ''out_'' h \<and> drop 4 h \<noteq> [] \<and> list_all (\<lambda>c. c \<in> set ''abcdefghijklmnopqrstuvwxyz234567'') (drop 4 h)"

definition handle_match :: "string \<Rightarrow> (string \<times> string \<times> string) option" where
  "handle_match h =
     (let gen = take 32 (drop 4 h);
          rest = drop 36 h;
          encoded = takeWhile base36_digit (drop 1 rest);
          tail = drop (length encoded) (drop 1 rest);
          mac = drop 1 tail
      in if prefix ''out_'' h \<and> length gen = 32 \<and> list_all hex_digit gen \<and> take 1 rest = ''_'' \<and>
            encoded \<noteq> [] \<and> take 1 tail = ''_'' \<and> length mac = 32 \<and> list_all hex_digit mac
         then Some (gen, encoded, mac) else None)"

definition mac_message :: "string \<Rightarrow> nat \<Rightarrow> string" where
  "mac_message sessionId sequence = sessionId @ [CHR 0x00] @ dec sequence"

definition macFor :: "(nat list \<Rightarrow> string \<Rightarrow> string) \<Rightarrow> output_store \<Rightarrow> string \<Rightarrow> nat \<Rightarrow> string" where
  "macFor hmac st sessionId sequence = take 32 (hmac (macKey st) (mac_message sessionId sequence))"

definition handleFor :: "(nat list \<Rightarrow> string \<Rightarrow> string) \<Rightarrow> output_store \<Rightarrow> string \<Rightarrow> nat \<Rightarrow> string" where
  "handleFor hmac st sessionId sequence =
     ''out_'' @ generation st @ ''_'' @ base36 sequence @ ''_'' @ macFor hmac st sessionId sequence"

fun hex_bytes :: "string \<Rightarrow> nat list" where
  "hex_bytes (c # d # r) =
     (if hex_digit c \<and> hex_digit d then (16 * hex_value c + hex_value d) # hex_bytes r else [])"
| "hex_bytes _ = []"

definition hasValidMac :: "(nat list \<Rightarrow> string \<Rightarrow> string) \<Rightarrow> output_store \<Rightarrow> string \<Rightarrow> nat \<Rightarrow> string \<Rightarrow> bool" where
  "hasValidMac hmac st sessionId sequence observed \<longleftrightarrow>
     (let expected = hex_bytes (macFor hmac st sessionId sequence); candidate = hex_bytes observed
      in length candidate = length expected \<and> candidate = expected)"

section \<open>Operations\<close>

definition evictOldest :: "SessionStore \<Rightarrow> SessionStore" where
  "evictOldest session =
     (case outputs session of
        [] \<Rightarrow> session
      | (sequence, entry) # rest \<Rightarrow>
          session\<lparr>session_total := session_total session - int (length (out_bytes entry)),
                  outputs := rest,
                  evictedThrough := max (evictedThrough session) sequence\<rparr>)"

function make_room :: "int \<Rightarrow> int \<Rightarrow> SessionStore \<Rightarrow> SessionStore" where
  "make_room limit n session =
     (if session_total session + n > limit \<and> length (outputs session) > 0
      then make_room limit n (evictOldest session) else session)"
  by pat_completeness auto
termination
  by (relation "measure (\<lambda>(_, _, session). length (outputs session))")
    (auto simp: evictOldest_def split: list.split)

declare make_room.simps [simp del]

text \<open>\<open>Buffer.from(text, "utf8")\<close>: a lone surrogate becomes U+FFFD.\<close>

definition utf8_bytes :: "utext \<Rightarrow> nat list" where
  "utf8_bytes txt = utf8_encode (map (\<lambda>c. if scalar c then c else 0xFFFD) txt)"

definition getOrCreateSession :: "output_store \<Rightarrow> string \<Rightarrow> SessionStore" where
  "getOrCreateSession st sessionId =
     (case sessions st sessionId of None \<Rightarrow> createSessionStore | Some session \<Rightarrow> session)"

definition store_output ::
  "(nat list \<Rightarrow> string \<Rightarrow> string) \<Rightarrow> output_store \<Rightarrow> string \<Rightarrow> utext \<Rightarrow> string option \<Rightarrow>
     output_store \<times> OutputRef \<times> nat" where
  "store_output hmac st sessionId txt label =
     (let bytes = utf8_bytes txt;
          session = make_room (maxBytesPerSession st) (int (length bytes)) (getOrCreateSession st sessionId);
          sequence = nextSequence session;
          session = session\<lparr>nextSequence := nextSequence session + 1\<rparr>;
          handle = handleFor hmac st sessionId sequence;
          session = session\<lparr>outputs :=
            AList.update sequence \<lparr>out_bytes = bytes, out_label = label, out_sequence = sequence\<rparr> (outputs session)\<rparr>;
          session = session\<lparr>session_total := session_total session + int (length bytes)\<rparr>
      in (st\<lparr>sessions := (sessions st)(sessionId \<mapsto> session)\<rparr>,
          \<lparr>ref_generation = generation st, ref_handle = handle\<rparr>, length bytes))"

definition read_output ::
  "(nat list \<Rightarrow> string \<Rightarrow> string) \<Rightarrow> output_store \<Rightarrow> string \<Rightarrow> string \<Rightarrow> int option \<Rightarrow> int option \<Rightarrow> OutputReadResult" where
  "read_output hmac st sessionId handle offset len =
     (if legacy_handle handle then Expired
      else case handle_match handle of
             None \<Rightarrow> NotFound
           | Some (handleGeneration, encodedSequence, observedMac) \<Rightarrow>
               if handleGeneration \<noteq> generation st then Expired
               else
                 let sequence = parse36 encodedSequence
                 in if int sequence > MAX_SAFE_INTEGER \<or> sequence < 1 \<or> \<not> hasValidMac hmac st sessionId sequence observedMac
                    then NotFound
                    else case sessions st sessionId of
                           None \<Rightarrow> NotFound
                         | Some session \<Rightarrow>
                             case map_of (outputs session) sequence of
                               Some entry \<Rightarrow> Ready (sliceUtf8ByBytes (out_bytes entry) offset len)
                             | None \<Rightarrow>
                                 if sequence \<le> evictedThrough session \<or> sequence < nextSequence session
                                 then Expired else NotFound)"

definition drop_session_outputs :: "output_store \<Rightarrow> string \<Rightarrow> output_store" where
  "drop_session_outputs st sessionId =
     (case sessions st sessionId of
        None \<Rightarrow> st
      | Some session \<Rightarrow>
          st\<lparr>sessions := (sessions st)(sessionId \<mapsto>
            session\<lparr>outputs := [], session_total := 0,
                    evictedThrough := max (evictedThrough session) (nextSequence session - 1)\<rparr>)\<rparr>)"

definition dispose_outputs :: "output_store \<Rightarrow> output_store" where
  "dispose_outputs st = st\<lparr>sessions := Map.empty, macKey := map (\<lambda>_. 0) (macKey st)\<rparr>"

section \<open>Runs and the specification\<close>

datatype output_event = Store_Output string utext "string option" | Drop_Session string

fun output_step :: "(nat list \<Rightarrow> string \<Rightarrow> string) \<Rightarrow> output_store \<Rightarrow> output_event \<Rightarrow> output_store" where
  "output_step hmac st (Store_Output sessionId txt label) = fst (store_output hmac st sessionId txt label)"
| "output_step hmac st (Drop_Session sessionId) = drop_session_outputs st sessionId"

definition output_run :: "(nat list \<Rightarrow> string \<Rightarrow> string) \<Rightarrow> output_store \<Rightarrow> output_event list \<Rightarrow> output_store" where
  "output_run hmac st evs = foldl (output_step hmac) st evs"

text \<open>
  What a session has stored since its last drop, with the sequence numbers, and how many outputs it ever
  stored. \<open>newest max h\<close> is what a bounded store of the newest outputs keeps of \<open>h\<close>: the longest end of it
  that fits, and at least the last output.
\<close>

fun stored :: "string \<Rightarrow> output_event list \<Rightarrow> nat" where
  "stored s [] = 0"
| "stored s (Store_Output s' txt label # evs) = (if s' = s then 1 else 0) + stored s evs"
| "stored s (Drop_Session s' # evs) = stored s evs"

fun history_from :: "string \<Rightarrow> nat \<Rightarrow> (nat \<times> nat list) list \<Rightarrow> output_event list \<Rightarrow> (nat \<times> nat list) list" where
  "history_from s n h [] = h"
| "history_from s n h (Store_Output s' txt label # evs) =
     (if s' = s then history_from s (n + 1) (h @ [(n, utf8_bytes txt)]) evs else history_from s n h evs)"
| "history_from s n h (Drop_Session s' # evs) = history_from s n (if s' = s then [] else h) evs"

abbreviation history :: "string \<Rightarrow> output_event list \<Rightarrow> (nat \<times> nat list) list" where
  "history s evs \<equiv> history_from s 1 [] evs"

definition weight :: "(nat \<times> nat list) list \<Rightarrow> int" where
  "weight h = int (sum_list (map (length \<circ> snd) h))"

fun newest :: "int \<Rightarrow> (nat \<times> nat list) list \<Rightarrow> (nat \<times> nat list) list" where
  "newest limit [] = []"
| "newest limit (x # h) = (if h = [] \<or> weight (x # h) \<le> limit then x # h else newest limit h)"

definition hex_hmac :: "(nat list \<Rightarrow> string \<Rightarrow> string) \<Rightarrow> bool" where
  "hex_hmac hmac \<longleftrightarrow> (\<forall>key message. length (hmac key message) = 64 \<and> list_all hex_digit (hmac key message))"

section \<open>Keeping the newest outputs\<close>

fun fitting :: "int \<Rightarrow> int \<Rightarrow> (nat \<times> nat list) list \<Rightarrow> (nat \<times> nat list) list" where
  "fitting limit n [] = []"
| "fitting limit n (x # h) = (if weight (x # h) + n \<le> limit then x # h else fitting limit n h)"

lemma weight_simps [simp]:
  "weight [] = 0" "weight (x # h) = int (length (snd x)) + weight h" "weight (h @ h') = weight h + weight h'"
  by (simp_all add: weight_def)

lemma fitting_newest: "0 \<le> n \<Longrightarrow> fitting limit n (newest limit h) = fitting limit n h"
  by (induction h) auto

lemma newest_snoc: "newest limit (h @ [x]) = fitting limit (int (length (snd x))) h @ [x]"
  by (induction h) (auto simp: ac_simps)

lemma newest_bound: "weight (newest limit h) \<le> limit \<or> length (newest limit h) = 1 \<or> h = []"
  by (induction h) auto

lemma set_newest: "set (newest limit h) \<subseteq> set h"
  by (induction h) auto

lemma set_fitting: "set (fitting limit n h) \<subseteq> set h"
  by (induction h) auto

section \<open>Refinement\<close>

abbreviation contents :: "(nat \<times> StoredOutput) list \<Rightarrow> (nat \<times> nat list) list" where
  "contents outs \<equiv> map (\<lambda>(k, e). (k, out_bytes e)) outs"

definition session_rel :: "int \<Rightarrow> (nat \<times> nat list) list \<Rightarrow> nat \<Rightarrow> SessionStore \<Rightarrow> bool" where
  "session_rel limit h n session \<longleftrightarrow>
     contents (outputs session) = newest limit h \<and>
     session_total session = weight (newest limit h) \<and> nextSequence session = n \<and> (\<forall>(k, b) \<in> set h. k < n) \<and>
     evictedThrough session < n"

lemma make_room_fitting:
  assumes "contents (outputs session) = g" "session_total session = weight g"
  shows "contents (outputs (make_room limit n session)) = fitting limit n g \<and>
    session_total (make_room limit n session) = weight (fitting limit n g) \<and>
    nextSequence (make_room limit n session) = nextSequence session"
  using assms
proof (induction g arbitrary: session)
  case Nil
  then show ?case by (simp add: make_room.simps)
next
  case (Cons x g)
  then obtain k e rest where out: "outputs session = (k, e) # rest" "x = (k, out_bytes e)"
    "contents rest = g" by auto
  have "nextSequence (evictOldest session) = nextSequence session"
    by (simp add: evictOldest_def out)
  moreover have "contents (outputs (evictOldest session)) = g"
    "session_total (evictOldest session) = weight g"
    using Cons.prems(2) out by (simp_all add: evictOldest_def)
  ultimately show ?case
    using Cons.IH [of "evictOldest session"] Cons.prems out
    by (subst (1 2 3) make_room.simps) auto
qed

lemma make_room_evicted:
  "evictedThrough session < m \<Longrightarrow> \<forall>(k, e) \<in> set (outputs session). k < m \<Longrightarrow>
    evictedThrough (make_room limit n session) < m"
proof (induction limit n session rule: make_room.induct)
  case (1 limit n session)
  then show ?case
    by (subst make_room.simps) (auto simp: evictOldest_def split: list.splits)
qed

lemma contents_mem: "(k, e) \<in> set outs \<Longrightarrow> (k, out_bytes e) \<in> set (contents outs)"
  by (induction outs) auto

lemma update_fresh: "k \<notin> fst ` set al \<Longrightarrow> AList.update k v al = al @ [(k, v)]"
  by (induction al) auto

lemma session_rel_store:
  assumes "session_rel limit h n session" "bytes = utf8_bytes txt"
    and "room = make_room limit (int (length bytes)) session"
  shows "session_rel limit (h @ [(n, bytes)]) (n + 1)
    (room\<lparr>nextSequence := n + 1,
          outputs := AList.update n \<lparr>out_bytes = bytes, out_label = label, out_sequence = n\<rparr> (outputs room),
          session_total := session_total room + int (length bytes)\<rparr>)"
proof -
  have room: "contents (outputs room) = fitting limit (int (length bytes)) h"
    "session_total room = weight (fitting limit (int (length bytes)) h)"
    using make_room_fitting [of session "newest limit h" limit "int (length bytes)"] assms
    by (auto simp: session_rel_def fitting_newest)
  have "n \<notin> fst ` set (fitting limit (int (length bytes)) h)"
    using assms(1) set_fitting by (fastforce simp: session_rel_def)
  then have "n \<notin> fst ` set (outputs room)"
    unfolding room(1) [symmetric] by (force simp: image_iff)
  moreover have "evictedThrough room < n"
  proof -
    have "\<forall>(k, e) \<in> set (outputs session). k < n"
    proof (clarify)
      fix k e assume "(k, e) \<in> set (outputs session)"
      then have "(k, out_bytes e) \<in> set (contents (outputs session))"
        by (rule contents_mem)
      then have "(k, out_bytes e) \<in> set h"
        using assms(1) set_newest [of limit h] unfolding session_rel_def by (metis subsetD)
      then show "k < n" using assms(1) by (auto simp: session_rel_def)
    qed
    then show ?thesis using assms make_room_evicted by (simp add: session_rel_def)
  qed
  ultimately show ?thesis
    using room assms(1) by (auto simp: session_rel_def newest_snoc update_fresh)
qed

lemma session_rel_start: "session_rel limit [] 1 createSessionStore"
  by (simp add: session_rel_def createSessionStore_def)

definition store_rel :: "output_store \<Rightarrow> (string \<Rightarrow> (nat \<times> nat list) list) \<Rightarrow> (string \<Rightarrow> nat) \<Rightarrow> bool" where
  "store_rel st H N \<longleftrightarrow>
     (\<forall>s. session_rel (maxBytesPerSession st) (H s) (N s) (getOrCreateSession st s) \<and>
          (sessions st s = None \<longrightarrow> H s = [] \<and> N s = 1))"

lemma make_room_next [simp]: "nextSequence (make_room limit n session) = nextSequence session"
proof (induction limit n session rule: make_room.induct)
  case (1 limit n session)
  then show ?case
    by (subst make_room.simps) (auto simp: evictOldest_def split: list.split)
qed

lemma store_rel_step:
  assumes "store_rel st H N"
  shows "store_rel (output_step hmac st ev)
      (\<lambda>s. history_from s (N s) (H s) [ev]) (\<lambda>s. N s + stored s [ev])
    \<and> maxBytesPerSession (output_step hmac st ev) = maxBytesPerSession st
    \<and> generation (output_step hmac st ev) = generation st \<and> macKey (output_step hmac st ev) = macKey st"
proof (cases ev)
  case (Store_Output s t label)
  have "nextSequence (getOrCreateSession st s) = N s"
    using assms by (simp add: store_rel_def session_rel_def)
  with Store_Output session_rel_store [of "maxBytesPerSession st" "H s" "N s" "getOrCreateSession st s"] assms
  show ?thesis
    by (auto simp: store_rel_def store_output_def Let_def getOrCreateSession_def split: option.splits)
next
  case (Drop_Session s)
  have "evictedThrough (getOrCreateSession st s) < N s"
    using assms by (simp add: store_rel_def session_rel_def)
  then have "0 < N s" by simp
  with Drop_Session assms show ?thesis
    by (auto simp: store_rel_def drop_session_outputs_def getOrCreateSession_def session_rel_def
        createSessionStore_def split: option.splits)
qed

lemma store_rel_run:
  "store_rel st H N \<Longrightarrow>
    store_rel (output_run hmac st evs) (\<lambda>s. history_from s (N s) (H s) evs) (\<lambda>s. N s + stored s evs)
    \<and> maxBytesPerSession (output_run hmac st evs) = maxBytesPerSession st
    \<and> generation (output_run hmac st evs) = generation st \<and> macKey (output_run hmac st evs) = macKey st"
proof (induction evs arbitrary: st H N)
  case Nil
  then show ?case by (simp add: output_run_def)
next
  case (Cons ev evs)
  have "output_run hmac st (ev # evs) = output_run hmac (output_step hmac st ev) evs"
    by (simp add: output_run_def)
  moreover have "history_from s (N s + stored s [ev]) (history_from s (N s) (H s) [ev]) evs = history_from s (N s) (H s) (ev # evs)"
    "stored s [ev] + stored s evs = stored s (ev # evs)" for s
    by (cases ev; simp)+
  ultimately show ?case
    using store_rel_step [OF Cons.prems, of hmac ev] Cons.IH by (fastforce simp: add.assoc)
qed

lemma store_rel_created:
  "createOutputStore limit gen key = Inr st \<Longrightarrow>
    store_rel st (\<lambda>_. []) (\<lambda>_. 1) \<and> maxBytesPerSession st = limit \<and> generation st = gen \<and> macKey st = key
    \<and> length gen = 32 \<and> list_all hex_digit gen \<and> 0 < limit"
  by (auto simp: createOutputStore_def store_rel_def getOrCreateSession_def
      session_rel_start [unfolded One_nat_def] split: if_splits)

section \<open>Handles round trip\<close>

lemma of_char_hex_char36: "n < 36 \<Longrightarrow> (of_char (hex_char n) :: nat) = (if n < 10 then 48 + n else 87 + n)"
  by (simp add: hex_char_def)

lemma hex_value_36: "n < 36 \<Longrightarrow> hex_value (hex_char n) = n"
  by (auto simp: hex_value_def of_char_hex_char36)

lemma parse36_snoc: "parse36 (s @ [c]) = parse36 s * 36 + hex_value c"
  by (simp add: parse36_def)

lemma parse36_base36 [simp]: "parse36 (base36 n) = n"
proof (induction n rule: base36.induct)
  case (1 n)
  show ?case
  proof (cases "n < 36")
    case True
    then show ?thesis by (simp add: base36.simps [of n] parse36_def hex_value_36)
  next
    case False
    then show ?thesis
      using 1 by (simp add: base36.simps [of n] parse36_snoc hex_value_36)
  qed
qed

lemma base36_digit_hex_char: "n < 36 \<Longrightarrow> base36_digit (hex_char n)"
  by (auto simp: base36_digit_def is_digit_def of_char_hex_char36)

lemma base36_digits: "list_all base36_digit (base36 n)" "base36 n \<noteq> []"
proof -
  have "list_all base36_digit (base36 n) \<and> base36 n \<noteq> []"
  proof (induction n rule: base36.induct)
    case (1 n)
    then show ?case
      by (cases "n < 36") (simp_all add: base36.simps [of n] base36_digit_hex_char)
  qed
  then show "list_all base36_digit (base36 n)" "base36 n \<noteq> []" by auto
qed

lemma hex_digit_value:
  assumes "hex_digit c"
  shows "hex_value c < 16 \<and> hex_char (hex_value c) = c"
proof -
  let ?n = "of_char c :: nat"
  have "(48 \<le> ?n \<and> ?n \<le> 57) \<or> (97 \<le> ?n \<and> ?n \<le> 102)"
    using assms by (auto simp: hex_digit_def)
  then have "hex_value c < 16 \<and> hex_char (hex_value c) = char_of ?n"
  proof
    assume n: "48 \<le> ?n \<and> ?n \<le> 57"
    then have "?n - 48 < 10" by linarith
    with n show ?thesis by (simp add: hex_value_def hex_char_def Let_def)
  next
    assume n: "97 \<le> ?n \<and> ?n \<le> 102"
    then have "\<not> ?n - 87 < 10" "?n - 87 < 16" by linarith+
    with n show ?thesis by (simp add: hex_value_def hex_char_def Let_def)
  qed
  then show ?thesis by simp
qed

lemma hex_bytes_inject:
  "length s = length t \<Longrightarrow> even (length s) \<Longrightarrow> list_all hex_digit s \<Longrightarrow> list_all hex_digit t \<Longrightarrow>
    hex_bytes s = hex_bytes t \<Longrightarrow> s = t"
proof (induction s arbitrary: t rule: hex_bytes.induct)
  case (1 c d r)
  then obtain c' d' r' where t: "t = c' # d' # r'"
    by (cases t; cases "tl t") auto
  have digits: "a = a' \<and> b = b'" if "16 * a + b = 16 * a' + b'" "b < 16" "b' < 16" for a b a' b' :: nat
  proof -
    have "(16 * a + b) div 16 = a" "(16 * a + b) mod 16 = b" "(16 * a' + b') div 16 = a'" "(16 * a' + b') mod 16 = b'"
      using that(2,3) by simp_all
    then show ?thesis using that(1) by metis
  qed
  have "16 * hex_value c + hex_value d = 16 * hex_value c' + hex_value d'"
    using "1.prems" t by simp
  then have "hex_value c = hex_value c' \<and> hex_value d = hex_value d'"
    by (rule digits) (use "1.prems" t hex_digit_value in auto)
  moreover have "hex_digit c" "hex_digit c'" "hex_digit d" "hex_digit d'"
    using "1.prems" t by auto
  ultimately have "c = c'" "d = d'"
    using hex_digit_value by metis+
  with 1 t show ?case by simp
qed auto

lemma handle_match_handleFor:
  assumes "length (generation st) = 32" "list_all hex_digit (generation st)" "hex_hmac hmac"
  shows "handle_match (handleFor hmac st s n) = Some (generation st, base36 n, macFor hmac st s n)
    \<and> \<not> legacy_handle (handleFor hmac st s n)"
proof
  have mac: "length (macFor hmac st s n) = 32" "list_all hex_digit (macFor hmac st s n)"
    using assms(3) by (auto simp: macFor_def hex_hmac_def list_all_iff dest: in_set_takeD)
  have "takeWhile base36_digit (base36 n @ CHR ''_'' # macFor hmac st s n) = base36 n"
    using base36_digits(1) [of n] by (subst takeWhile_append2) (auto simp: list_all_iff base36_digit_def is_digit_def)
  with mac assms(1,2) base36_digits(2) [of n]
  show "handle_match (handleFor hmac st s n) = Some (generation st, base36 n, macFor hmac st s n)"
    by (simp add: handle_match_def handleFor_def Let_def)
  show "\<not> legacy_handle (handleFor hmac st s n)"
    using assms(1) by (simp add: legacy_handle_def handleFor_def)
qed

lemma hasValidMac_macFor:
  assumes "hex_hmac hmac"
  shows "hasValidMac hmac st s n (macFor hmac st s' n') \<longleftrightarrow> macFor hmac st s n = macFor hmac st s' n'"
proof -
  have "length (macFor hmac st s n) = 32 \<and> list_all hex_digit (macFor hmac st s n)" for s n
    using assms by (auto simp: macFor_def hex_hmac_def list_all_iff dest: in_set_takeD)
  then show ?thesis
    using hex_bytes_inject [of "macFor hmac st s' n'" "macFor hmac st s n"]
    by (auto simp: hasValidMac_def Let_def)
qed

section \<open>Properties\<close>

text \<open>
  C22. What a handle reads is exactly determined by the history of the store. After any sequence of stores and
  drops, a session that reads the handle of an output of its own gets the requested slice of exactly those
  bytes while the output is among the newest that fit the session's budget (or the very last one) and its
  session was not dropped since, and \<open>expired\<close> afterwards, never another output; a handle for a number not
  yet given out, or another session's handle, is \<open>not found\<close>, provided the two HMACs differ.
\<close>

theorem output_read_exact:
  assumes "createOutputStore limit gen key = Inr st" "hex_hmac hmac"
    and "1 \<le> n" "int n \<le> MAX_SAFE_INTEGER"
    and "s' \<noteq> s \<Longrightarrow> take 32 (hmac key (mac_message s n)) \<noteq> take 32 (hmac key (mac_message s' n))"
  shows "read_output hmac (output_run hmac st evs) s (handleFor hmac st s' n) offset len =
    (if s' \<noteq> s \<or> stored s evs < n then NotFound
     else case map_of (newest limit (history s evs)) n of
            None \<Rightarrow> Expired
          | Some bytes \<Rightarrow> Ready (sliceUtf8ByBytes bytes offset len))"
proof -
  let ?st = "output_run hmac st evs"
  have rel: "store_rel ?st (\<lambda>s. history s evs) (\<lambda>s. 1 + stored s evs)" "maxBytesPerSession ?st = limit"
    and same: "generation ?st = generation st" "macKey ?st = macKey st" "macKey st = key"
    and gen: "length (generation st) = 32" "list_all hex_digit (generation st)"
    using store_rel_created [OF assms(1)] store_rel_run [of st "\<lambda>_. []" "\<lambda>_. 1" hmac evs] by auto
  have mac: "hasValidMac hmac ?st s n (macFor hmac st s' n) \<longleftrightarrow> s' = s"
    using hasValidMac_macFor [OF assms(2), of ?st s n s' n] assms(5) same by (auto simp: macFor_def)
  have read: "read_output hmac ?st s (handleFor hmac st s' n) offset len =
      (if s' \<noteq> s then NotFound
       else case sessions ?st s of
              None \<Rightarrow> NotFound
            | Some session \<Rightarrow>
                (case map_of (outputs session) n of
                   Some entry \<Rightarrow> Ready (sliceUtf8ByBytes (out_bytes entry) offset len)
                 | None \<Rightarrow> if n \<le> evictedThrough session \<or> n < nextSequence session then Expired else NotFound))"
    using handle_match_handleFor [OF gen assms(2), of s' n] mac assms(3,4) same(1)
    by (simp add: read_output_def Let_def split: option.split)
  show ?thesis
  proof (cases "sessions ?st s")
    case None
    with rel(1) have "stored s evs = 0" by (auto simp: store_rel_def)
    with read None assms(3) show ?thesis by simp
  next
    case (Some session)
    with rel have r: "session_rel limit (history s evs) (1 + stored s evs) session"
      by (auto simp: store_rel_def getOrCreateSession_def split: option.splits)
    then have "map_of (newest limit (history s evs)) = map_option out_bytes \<circ> map_of (outputs session)"
      by (metis map_of_map session_rel_def)
    moreover have "map_of (newest limit (history s evs)) n = None" if "stored s evs < n"
      using r that set_newest by (fastforce simp: session_rel_def map_of_eq_None_iff)
    ultimately show ?thesis
      using read Some r by (auto simp: session_rel_def split: option.splits)
  qed
qed

definition sample_hmac :: "nat list \<Rightarrow> string \<Rightarrow> string" where
  "sample_hmac key message = replicate 64 (if even (length message) then CHR ''0'' else CHR ''1'')"

definition sample_store :: output_store where
  "sample_store = \<lparr>generation = replicate 32 (CHR ''a''), macKey = replicate 16 7, maxBytesPerSession = 2,
     sessions = Map.empty\<rparr>"

lemma sample_created: "createOutputStore 2 (replicate 32 (CHR ''a'')) (replicate 16 7) = Inr sample_store"
  by (simp add: createOutputStore_def sample_store_def hex_digit_def list_all_iff)

lemma sample_hex: "hex_hmac sample_hmac"
  by (simp add: hex_hmac_def sample_hmac_def list_all_iff hex_digit_def)

theorem output_read_exact_witness:
  "read_output sample_hmac
      (output_run sample_hmac sample_store [Store_Output ''s'' [104, 105] None, Store_Output ''s'' [33] None])
      ''s'' (handleFor sample_hmac sample_store ''s'' 1) None None = Expired"
  using output_read_exact [OF sample_created sample_hex, of 1 "''s''" "''s''"
      "[Store_Output ''s'' [104, 105] None, Store_Output ''s'' [33] None]" None None]
  by (simp add: MAX_SAFE_INTEGER_def utf8_bytes_def utf8_encode_def utf8_char_def scalar_def)

text \<open>
  C36. The budget holds: after any sequence of stores and drops the byte count of every session is exactly the
  size of the outputs it keeps, and it is within the maximum unless the session keeps a single output, which
  alone may be larger.
\<close>

theorem output_store_bounded:
  assumes "createOutputStore limit gen key = Inr st"
    and "sessions (output_run hmac st evs) s = Some session"
  shows "session_total session = int (sum_list (map (length \<circ> out_bytes \<circ> snd) (outputs session))) \<and>
    (session_total session \<le> limit \<or> length (outputs session) = 1) \<and>
    nextSequence session = stored s evs + 1"
proof -
  have "store_rel (output_run hmac st evs) (\<lambda>s. history s evs) (\<lambda>s. 1 + stored s evs)"
    "maxBytesPerSession (output_run hmac st evs) = limit" "0 < limit"
    using store_rel_created [OF assms(1)] store_rel_run [of st "\<lambda>_. []" "\<lambda>_. 1" hmac evs] by auto
  then have r: "session_rel limit (history s evs) (1 + stored s evs) session"
    using assms(2) by (auto simp: store_rel_def getOrCreateSession_def split: option.splits)
  then have "weight (contents (outputs session)) \<le> limit \<or> length (outputs session) = 1"
    using newest_bound [of limit "history s evs"] \<open>0 < limit\<close>
    by (auto simp: session_rel_def dest: arg_cong [where f = length])
  moreover have "weight (contents (outputs session)) = int (sum_list (map (length \<circ> out_bytes \<circ> snd) (outputs session)))"
    by (simp add: weight_def comp_def case_prod_unfold)
  ultimately show ?thesis
    using r by (auto simp: session_rel_def)
qed

theorem output_store_bounded_witness:
  "\<exists>session. sessions (output_run sample_hmac sample_store [Store_Output ''s'' [33] None]) ''s'' = Some session \<and>
    session_total session = int (sum_list (map (length \<circ> out_bytes \<circ> snd) (outputs session))) \<and>
    (session_total session \<le> 2 \<or> length (outputs session) = 1) \<and> nextSequence session = 2"
proof -
  obtain session where s: "sessions (output_run sample_hmac sample_store [Store_Output ''s'' [33] None]) ''s'' = Some session"
    by (simp add: output_run_def store_output_def Let_def)
  have n: "stored ''s'' [Store_Output ''s'' [33] None] + 1 = 2" by simp
  show ?thesis
    using output_store_bounded [OF sample_created s, unfolded n] s by blast
qed

end
