(* ===== verification/Workspace_Lease.thy ===== *)
theory Workspace_Lease
  imports Recovery_State
begin

text \<open>
  Leases on a workspace's recovery history, \<^verbatim>\<open>src/packages/web/application-host/lib/recovery/workspace-lease.ts\<close>.

  A lease is an entry of a JSON document beside the workspace, shared by every process of the machine. The
  documents are values of unknown shape, parsed by \<open>assertDocument\<close> at every transaction; properties other
  than those of \<open>LeaseDocument\<close> and \<open>LeaseOwner\<close>, which the code never writes, are not kept. A transaction of
  the settings store reads, changes and writes a document at once, under that store's file lock. \<open>Date.parse\<close>
  is the predicate \<open>date_ok\<close>, \<open>process.kill(pid, 0)\<close> a function to its outcome, and the path of a root's
  document the function \<open>lease_path\<close>.

  \<open>acquire\<close> suspends between its check for disposal and its transaction, so it is two steps; \<open>dispose\<close> starts
  one transaction for each record it owns and ends when all have settled.
\<close>

section \<open>Documents\<close>

record LeaseOwner =
  acquiredAt :: string
  authorityInstanceId :: string
  leaseId :: string
  lease_mode :: string
  owner_pid :: int
  purpose :: string
  workspaceId :: string

record LeaseDocument =
  owners :: "LeaseOwner list"
  lease_revision :: int

datatype lease_error = Malformed | LeaseUnavailable | ManagerDisposed | BadRequest

definition MODES :: "string list" where
  "MODES = [''shared'', ''exclusive'']"

fun nonempty_text :: "jsval \<Rightarrow> string option" where
  "nonempty_text (JString s) = (if s = [] then None else Some s)"
| "nonempty_text v = None"

fun positiveInteger :: "jsval \<Rightarrow> int option" where
  "positiveInteger (JNumber (JInt n)) = (if 0 < n \<and> n \<le> MAX_SAFE_INTEGER then Some n else None)"
| "positiveInteger v = None"

definition assertOwner :: "(string \<Rightarrow> bool) \<Rightarrow> jsval \<Rightarrow> (lease_error, LeaseOwner) outcome" where
  "assertOwner date_ok v =
     (if \<not> is_object v \<or> is_array v then Inl Malformed
      else case (nonempty_text (prop_of v ''leaseId''), nonempty_text (prop_of v ''authorityInstanceId''),
                 positiveInteger (prop_of v ''pid''), nonempty_text (prop_of v ''mode''),
                 nonempty_text (prop_of v ''workspaceId''), nonempty_text (prop_of v ''purpose''),
                 prop_of v ''acquiredAt'') of
             (Some lid, Some inst, Some pid, Some m, Some wid, Some purp, JString at) \<Rightarrow>
               if m \<in> set MODES \<and> date_ok at
               then Inr \<lparr>acquiredAt = at, authorityInstanceId = inst, leaseId = lid, lease_mode = m, owner_pid = pid,
                         purpose = purp, workspaceId = wid\<rparr>
               else Inl Malformed
           | _ \<Rightarrow> Inl Malformed)"

definition assertDocument :: "(string \<Rightarrow> bool) \<Rightarrow> jsval \<Rightarrow> (lease_error, LeaseDocument) outcome" where
  "assertDocument date_ok v =
     (if \<not> is_object v \<or> is_array v \<or> prop_of v ''schemaVersion'' \<noteq> JNumber (JInt 1) then Inl Malformed
      else case (natural_value (prop_of v ''revision''), prop_of v ''owners'') of
             (Some rvn, JArray os) \<Rightarrow>
               obind (ocollect (map (assertOwner date_ok) os)) (\<lambda>os.
                 if length (remdups (map leaseId os)) \<noteq> length os then Inl Malformed
                 else Inr \<lparr>owners = os, lease_revision = int rvn\<rparr>)
           | _ \<Rightarrow> Inl Malformed)"

text \<open>What the code writes: the document and its owners as JSON objects.\<close>

definition owner_json :: "LeaseOwner \<Rightarrow> jsval" where
  "owner_json owner = JObject
     [(''acquiredAt'', JString (acquiredAt owner)), (''authorityInstanceId'', JString (authorityInstanceId owner)),
      (''leaseId'', JString (leaseId owner)), (''mode'', JString (lease_mode owner)),
      (''pid'', JNumber (JInt (owner_pid owner))), (''purpose'', JString (purpose owner)),
      (''workspaceId'', JString (workspaceId owner))]"

definition document_json :: "LeaseDocument \<Rightarrow> jsval" where
  "document_json d = JObject
     [(''owners'', JArray (map owner_json (owners d))), (''revision'', JNumber (JInt (lease_revision d))),
      (''schemaVersion'', JNumber (JInt 1))]"

definition leaseDocument :: LeaseDocument where
  "leaseDocument = \<lparr>owners = [], lease_revision = 0\<rparr>"

section \<open>Liveness of owners\<close>

datatype kill_result = Signalled | Refused string

text \<open>\<open>None\<close> where \<open>processLike.kill\<close> is not a function.\<close>

definition processMayBeAlive :: "(int \<Rightarrow> kill_result) option \<Rightarrow> int \<Rightarrow> int \<Rightarrow> bool" where
  "processMayBeAlive kill self pid =
     (if pid = self then True
      else case kill of
             None \<Rightarrow> True
           | Some k \<Rightarrow> (case k pid of Signalled \<Rightarrow> True | Refused code \<Rightarrow> code \<noteq> ''ESRCH''))"

definition ownerMayBeAlive :: "(int \<Rightarrow> kill_result) option \<Rightarrow> int \<Rightarrow> string set \<Rightarrow> LeaseOwner \<Rightarrow> bool" where
  "ownerMayBeAlive kill self liveAuthorityInstances owner =
     (if owner_pid owner = self then authorityInstanceId owner \<in> liveAuthorityInstances
      else processMayBeAlive kill self (owner_pid owner))"

section \<open>Transactions\<close>

text \<open>A transaction's result is the document to write, or \<open>None\<close> for \<open>write: false\<close>.\<close>

definition acquire_transaction ::
  "(string \<Rightarrow> bool) \<Rightarrow> (int \<Rightarrow> kill_result) option \<Rightarrow> int \<Rightarrow> string set \<Rightarrow> LeaseOwner \<Rightarrow> jsval \<Rightarrow>
     (lease_error, jsval option) outcome" where
  "acquire_transaction date_ok kill self live owner raw =
     obind (assertDocument date_ok raw) (\<lambda>d.
       let liveOwners = filter (ownerMayBeAlive kill self live) (owners d);
           conflicting = filter (\<lambda>candidate. lease_mode owner = ''exclusive'' \<or> lease_mode candidate = ''exclusive'')
                           liveOwners
       in if length conflicting > 0 then Inl LeaseUnavailable
          else Inr (Some (document_json
                 (d\<lparr>owners := liveOwners @ [owner], lease_revision := lease_revision d + 1\<rparr>))))"

definition release_transaction :: "(string \<Rightarrow> bool) \<Rightarrow> string \<Rightarrow> jsval \<Rightarrow> (lease_error, jsval option) outcome" where
  "release_transaction date_ok lid raw =
     obind (assertDocument date_ok raw) (\<lambda>d.
       let before = length (owners d);
           d = d\<lparr>owners := filter (\<lambda>candidate. leaseId candidate \<noteq> lid) (owners d)\<rparr>
       in if length (owners d) = before then Inr None
          else Inr (Some (document_json (d\<lparr>lease_revision := lease_revision d + 1\<rparr>))))"

definition transact ::
  "(string \<Rightarrow> jsval) \<Rightarrow> string \<Rightarrow> (jsval \<Rightarrow> (lease_error, jsval option) outcome) \<Rightarrow>
     (string \<Rightarrow> jsval) \<times> (lease_error, unit) outcome" where
  "transact files path mutator =
     (case mutator (files path) of
        Inl e \<Rightarrow> (files, Inl e)
      | Inr None \<Rightarrow> (files, Inr ())
      | Inr (Some d) \<Rightarrow> (files(path := d), Inr ()))"

section \<open>Managers, handles and steps\<close>

record lease_manager =
  manager_pid :: int
  owned :: "(string \<times> string) list"
  manager_disposed :: bool
  disposing :: "(string \<times> string) list"

record LeaseHandle =
  handle_manager :: string
  handle_root :: string
  handle_mode :: string
  released :: bool

record lease_world =
  files :: "string \<Rightarrow> jsval"
  alive :: "int set"
  liveInstances :: "int \<Rightarrow> string set"
  managers :: "string \<rightharpoonup> lease_manager"
  acquiring :: "string \<rightharpoonup> string \<times> LeaseOwner"
  handles :: "string \<rightharpoonup> LeaseHandle"
  instancesUsed :: "string set"

definition lease_start :: lease_world where
  "lease_start = \<lparr>files = (\<lambda>_. document_json leaseDocument), alive = {}, liveInstances = (\<lambda>_. {}),
     managers = Map.empty, acquiring = Map.empty, handles = Map.empty, instancesUsed = {}\<rparr>"

text \<open>
  \<open>begin_acquire\<close> runs up to the transaction, \<open>commit_acquire\<close> is the transaction and what follows it. The
  lease id is the one \<open>randomUUID\<close> gives.
\<close>

definition begin_acquire ::
  "string \<Rightarrow> string \<Rightarrow> string \<Rightarrow> string \<Rightarrow> string \<Rightarrow> string \<Rightarrow> string \<Rightarrow> lease_world \<Rightarrow>
     lease_world \<times> (lease_error, unit) outcome" where
  "begin_acquire inst lid root wid m purp now w =
     (case managers w inst of
        None \<Rightarrow> (w, Inl BadRequest)
      | Some mgr \<Rightarrow>
          if manager_disposed mgr then (w, Inl ManagerDisposed)
          else if root = [] \<or> wid = [] \<or> m \<notin> set MODES \<or> purp = [] then (w, Inl BadRequest)
          else (w\<lparr>acquiring := (acquiring w)(lid \<mapsto>
                   (root, \<lparr>acquiredAt = now, authorityInstanceId = inst, leaseId = lid, lease_mode = m,
                           owner_pid = manager_pid mgr, purpose = purp, workspaceId = wid\<rparr>))\<rparr>, Inr ()))"

definition commit_acquire ::
  "(string \<Rightarrow> bool) \<Rightarrow> (string \<Rightarrow> string) \<Rightarrow> (int \<Rightarrow> kill_result) option \<Rightarrow> string \<Rightarrow> lease_world \<Rightarrow>
     lease_world \<times> (lease_error, LeaseHandle) outcome" where
  "commit_acquire date_ok lease_path kill lid w =
     (case acquiring w lid of
        None \<Rightarrow> (w, Inl BadRequest)
      | Some (root, owner) \<Rightarrow>
          let inst = authorityInstanceId owner;
              w = w\<lparr>acquiring := (acquiring w)(lid := None)\<rparr>;
              self = owner_pid owner
          in case transact (files w) (lease_path root)
                    (acquire_transaction date_ok kill self (liveInstances w self) owner) of
               (fs, Inl e) \<Rightarrow> (w\<lparr>files := fs\<rparr>, Inl e)
             | (fs, Inr _) \<Rightarrow>
                 let h = \<lparr>handle_manager = inst, handle_root = root, handle_mode = lease_mode owner, released = False\<rparr>
                 in (w\<lparr>files := fs,
                       managers := (managers w)(inst :=
                         map_option (\<lambda>mgr. mgr\<lparr>owned := AList.update lid root (owned mgr)\<rparr>) (managers w inst)),
                       handles := (handles w)(lid \<mapsto> h)\<rparr>, Inr h))"

definition release_lease :: "(string \<Rightarrow> bool) \<Rightarrow> (string \<Rightarrow> string) \<Rightarrow> string \<Rightarrow> lease_world \<Rightarrow>
     lease_world \<times> (lease_error, unit) outcome" where
  "release_lease date_ok lease_path lid w =
     (case handles w lid of
        None \<Rightarrow> (w, Inl BadRequest)
      | Some h \<Rightarrow>
          if released h then (w, Inr ())
          else case transact (files w) (lease_path (handle_root h)) (release_transaction date_ok lid) of
                 (fs, Inl e) \<Rightarrow> (w\<lparr>files := fs\<rparr>, Inl e)
               | (fs, Inr _) \<Rightarrow>
                   (w\<lparr>files := fs,
                      managers := (managers w)(handle_manager h :=
                        map_option (\<lambda>mgr. mgr\<lparr>owned := AList.delete lid (owned mgr)\<rparr>) (managers w (handle_manager h))),
                      handles := (handles w)(lid \<mapsto> h\<lparr>released := True\<rparr>)\<rparr>, Inr ()))"

text \<open>\<open>dispose\<close>: the flag and the snapshot of the records, one transaction of a record, and the end.\<close>

definition start_dispose :: "string \<Rightarrow> lease_world \<Rightarrow> lease_world" where
  "start_dispose inst w =
     (case managers w inst of
        None \<Rightarrow> w
      | Some mgr \<Rightarrow>
          if manager_disposed mgr then w
          else w\<lparr>managers := (managers w)(inst \<mapsto> mgr\<lparr>manager_disposed := True, disposing := owned mgr\<rparr>)\<rparr>)"

definition dispose_record :: "(string \<Rightarrow> bool) \<Rightarrow> (string \<Rightarrow> string) \<Rightarrow> string \<Rightarrow> string \<Rightarrow> lease_world \<Rightarrow> lease_world" where
  "dispose_record date_ok lease_path inst lid w =
     (case managers w inst of
        None \<Rightarrow> w
      | Some mgr \<Rightarrow>
          (case map_of (disposing mgr) lid of
             None \<Rightarrow> w
           | Some root \<Rightarrow>
               w\<lparr>files := fst (transact (files w) (lease_path root) (release_transaction date_ok lid)),
                 managers := (managers w)(inst \<mapsto> mgr\<lparr>disposing := AList.delete lid (disposing mgr)\<rparr>)\<rparr>))"

definition end_dispose :: "string \<Rightarrow> lease_world \<Rightarrow> lease_world" where
  "end_dispose inst w =
     (case managers w inst of
        None \<Rightarrow> w
      | Some mgr \<Rightarrow>
          if manager_disposed mgr \<and> disposing mgr = [] then
            w\<lparr>managers := (managers w)(inst \<mapsto> mgr\<lparr>owned := []\<rparr>),
              liveInstances := (liveInstances w)(manager_pid mgr := liveInstances w (manager_pid mgr) - {inst})\<rparr>
          else w)"

definition createLeaseManager :: "string \<Rightarrow> int \<Rightarrow> lease_world \<Rightarrow> lease_world" where
  "createLeaseManager inst pid w =
     w\<lparr>managers := (managers w)(inst \<mapsto>
         \<lparr>manager_pid = pid, owned = [], manager_disposed = False, disposing = []\<rparr>),
       liveInstances := (liveInstances w)(pid := insert inst (liveInstances w pid)),
       instancesUsed := insert inst (instancesUsed w)\<rparr>"

text \<open>
  What can happen on the machine. Processes start and die, a pid may be used again; ids drawn at random are
  fresh. \<open>permitted pid\<close> is whether the caller may signal that process: if not, \<open>kill\<close> fails with \<open>EPERM\<close>.
\<close>

definition kill_of :: "(int \<Rightarrow> bool) \<Rightarrow> lease_world \<Rightarrow> int \<Rightarrow> kill_result" where
  "kill_of permitted w pid =
     (if pid \<in> alive w then (if permitted pid then Signalled else Refused ''EPERM'') else Refused ''ESRCH'')"

datatype lease_event =
    Spawn int | Die int | Create string int
  | Begin_Acquire string string string string string string string | Commit_Acquire string
  | Release_Lease string | Start_Dispose string | Dispose_Record string string | End_Dispose string

definition lease_step ::
  "(string \<Rightarrow> bool) \<Rightarrow> (string \<Rightarrow> string) \<Rightarrow> (int \<Rightarrow> bool) \<Rightarrow> lease_event \<Rightarrow> lease_world \<Rightarrow> lease_world" where
  "lease_step date_ok lease_path permitted ev w =
     (case ev of
        Spawn pid \<Rightarrow> w\<lparr>alive := insert pid (alive w)\<rparr>
      | Die pid \<Rightarrow>
          w\<lparr>alive := alive w - {pid}, liveInstances := (liveInstances w)(pid := {}),
            managers := (\<lambda>inst. case managers w inst of
                Some mgr \<Rightarrow> if manager_pid mgr = pid then None else Some mgr | None \<Rightarrow> None),
            acquiring := (\<lambda>lid. case acquiring w lid of
                Some (root, owner) \<Rightarrow> if owner_pid owner = pid then None else Some (root, owner) | None \<Rightarrow> None)\<rparr>
      | Create inst pid \<Rightarrow>
          if pid \<in> alive w \<and> inst \<notin> instancesUsed w then createLeaseManager inst pid w else w
      | Begin_Acquire inst lid root wid m purp now \<Rightarrow>
          if acquiring w lid = None \<and> handles w lid = None
          then fst (begin_acquire inst lid root wid m purp now w) else w
      | Commit_Acquire lid \<Rightarrow> fst (commit_acquire date_ok lease_path (Some (kill_of permitted w)) lid w)
      | Release_Lease lid \<Rightarrow> fst (release_lease date_ok lease_path lid w)
      | Start_Dispose inst \<Rightarrow> start_dispose inst w
      | Dispose_Record inst lid \<Rightarrow> dispose_record date_ok lease_path inst lid w
      | End_Dispose inst \<Rightarrow> end_dispose inst w)"

definition lease_run ::
  "(string \<Rightarrow> bool) \<Rightarrow> (string \<Rightarrow> string) \<Rightarrow> (int \<Rightarrow> bool) \<Rightarrow> lease_event list \<Rightarrow> lease_world" where
  "lease_run date_ok lease_path permitted evs =
     foldl (\<lambda>w ev. lease_step date_ok lease_path permitted ev w) lease_start evs"

section \<open>Documents round trip\<close>

lemma assertOwner_json:
  "assertOwner date_ok (owner_json owner) = Inr owner' \<Longrightarrow> owner' = owner \<and> lease_mode owner \<in> set MODES"
  by (cases owner) (auto simp: assertOwner_def owner_json_def own_prop_def split: if_splits)

lemma assertDocument_json:
  assumes "assertDocument date_ok (document_json d) = Inr d'"
  shows "d' = d" "\<forall>owner \<in> set (owners d). lease_mode owner \<in> set MODES"
proof -
  from assms obtain n where n: "natural_value (JNumber (JInt (lease_revision d))) = Some n"
    and os: "ocollect (map (assertOwner date_ok) (map owner_json (owners d))) = Inr (owners d')"
    and d': "lease_revision d' = int n"
    by (auto simp: assertDocument_def document_json_def own_prop_def obind_Inr_iff
        split: if_splits option.splits)
  from os have all: "map (assertOwner date_ok \<circ> owner_json) (owners d) = map Inr (owners d')"
    by (simp add: ocollect_Inr_iff)
  then have len: "length (owners d) = length (owners d')" by (rule map_eq_imp_length_eq)
  have nth: "owners d' ! i = owners d ! i \<and> lease_mode (owners d ! i) \<in> set MODES" if "i < length (owners d)" for i
    using arg_cong [OF all, of "\<lambda>xs. xs ! i"] that len by (auto dest: assertOwner_json)
  then have "owners d' = owners d" using len by (metis nth_equalityI)
  with n d' show "d' = d" by (auto split: if_splits)
  show "\<forall>owner \<in> set (owners d). lease_mode owner \<in> set MODES"
    using nth by (auto simp: in_set_conv_nth)
qed

section \<open>The invariant\<close>

text \<open>
  The documents are the JSON of \<open>D\<close>; in each, the owners exclude each other as leases should, whoever wrote
  them; and every unreleased handle of a manager that is not disposed has its entry.
\<close>

definition compatible :: "LeaseOwner list \<Rightarrow> bool" where
  "compatible os \<longleftrightarrow> length os \<le> 1 \<or> (\<forall>owner \<in> set os. lease_mode owner = ''shared'')"

definition entry_of :: "string \<Rightarrow> LeaseHandle \<Rightarrow> int \<Rightarrow> LeaseOwner \<Rightarrow> bool" where
  "entry_of lid h pid owner \<longleftrightarrow>
     leaseId owner = lid \<and> lease_mode owner = handle_mode h \<and> owner_pid owner = pid \<and>
     authorityInstanceId owner = handle_manager h"

definition manager_ok :: "lease_world \<Rightarrow> string \<Rightarrow> lease_manager \<Rightarrow> bool" where
  "manager_ok w inst mgr \<longleftrightarrow>
     manager_pid mgr \<in> alive w \<and> inst \<in> instancesUsed w \<and>
     (\<not> manager_disposed mgr \<longrightarrow> inst \<in> liveInstances w (manager_pid mgr) \<and> disposing mgr = []) \<and>
     (\<forall>lid \<in> fst ` set (owned mgr) \<union> fst ` set (disposing mgr).
        \<exists>h. handles w lid = Some h \<and> handle_manager h = inst)"

definition lease_inv :: "(string \<Rightarrow> string) \<Rightarrow> (string \<Rightarrow> LeaseDocument) \<Rightarrow> lease_world \<Rightarrow> bool" where
  "lease_inv lease_path D w \<longleftrightarrow>
     (\<forall>p. files w p = document_json (D p) \<and> compatible (owners (D p))) \<and>
     (\<forall>inst mgr. managers w inst = Some mgr \<longrightarrow> manager_ok w inst mgr) \<and>
     (\<forall>lid h mgr. handles w lid = Some h \<longrightarrow> \<not> released h \<longrightarrow> managers w (handle_manager h) = Some mgr \<longrightarrow>
        \<not> manager_disposed mgr \<longrightarrow>
        (\<exists>owner \<in> set (owners (D (lease_path (handle_root h)))). entry_of lid h (manager_pid mgr) owner)) \<and>
     (\<forall>lid root owner. acquiring w lid = Some (root, owner) \<longrightarrow>
        leaseId owner = lid \<and> lease_mode owner \<in> set MODES \<and> handles w lid = None \<and>
        authorityInstanceId owner \<in> instancesUsed w \<and>
        (\<forall>mgr. managers w (authorityInstanceId owner) = Some mgr \<longrightarrow> manager_pid mgr = owner_pid owner)) \<and>
     (\<forall>lid h. handles w lid = Some h \<longrightarrow> handle_manager h \<in> instancesUsed w)"

lemma compatible_filter: "compatible os \<Longrightarrow> compatible (filter P os)"
  unfolding compatible_def using length_filter_le [of P os] by (metis filter_is_subset le_trans subsetD)

lemma release_transaction_json:
  "release_transaction date_ok lid (document_json d) = Inr (Some v) \<Longrightarrow>
    \<exists>d'. v = document_json d' \<and> owners d' = filter (\<lambda>owner. leaseId owner \<noteq> lid) (owners d)"
  by (auto simp: release_transaction_def obind_Inr_iff Let_def dest!: assertDocument_json(1) split: if_splits)

lemma acquire_transaction_json:
  assumes "acquire_transaction date_ok kill self live owner (document_json d) = Inr (Some v)"
    and "lease_mode owner \<in> set MODES"
  shows "\<exists>d'. v = document_json d' \<and> owners d' = filter (ownerMayBeAlive kill self live) (owners d) @ [owner]
    \<and> compatible (owners d')"
proof -
  let ?live = "filter (ownerMayBeAlive kill self live) (owners d)"
  from assms(1) obtain d0 where d0: "assertDocument date_ok (document_json d) = Inr d0"
    and none: "filter (\<lambda>c. lease_mode owner = ''exclusive'' \<or> lease_mode c = ''exclusive'')
        (filter (ownerMayBeAlive kill self live) (owners d0)) = []"
    and v: "v = document_json (d0\<lparr>owners := filter (ownerMayBeAlive kill self live) (owners d0) @ [owner],
        lease_revision := lease_revision d0 + 1\<rparr>)"
    by (auto simp: acquire_transaction_def obind_Inr_iff Let_def split: if_splits)
  note parsed = assertDocument_json [OF d0]
  have "compatible (?live @ [owner])"
  proof (cases "lease_mode owner = ''exclusive''")
    case True
    with none parsed(1) show ?thesis by (simp add: compatible_def filter_empty_conv)
  next
    case False
    with assms(2) parsed none show ?thesis
      by (auto simp: compatible_def MODES_def filter_empty_conv)
  qed
  with v parsed(1) show ?thesis by auto
qed

lemma transact_release:
  assumes "\<forall>p. fs p = document_json (D p) \<and> compatible (owners (D p))"
    and "transact fs path (release_transaction date_ok lid) = (fs', r)"
  shows "\<exists>D'. (\<forall>p. fs' p = document_json (D' p) \<and> compatible (owners (D' p))) \<and>
    (\<forall>p. \<forall>owner \<in> set (owners (D p)). leaseId owner \<noteq> lid \<longrightarrow> owner \<in> set (owners (D' p)))"
proof (cases "release_transaction date_ok lid (fs path)")
  case (Inr opt)
  show ?thesis
  proof (cases opt)
    case (Some v)
    with Inr assms(1) obtain d' where "v = document_json d'"
      "owners d' = filter (\<lambda>owner. leaseId owner \<noteq> lid) (owners (D path))"
      using release_transaction_json [of date_ok lid "D path" v] by auto
    with Inr Some assms show ?thesis
      by (intro exI [where x = "D(path := d')"]) (auto simp: transact_def compatible_filter)
  qed (use Inr assms in \<open>auto simp: transact_def intro!: exI [where x = D]\<close>)
qed (use assms in \<open>auto simp: transact_def intro!: exI [where x = D]\<close>)

lemma lease_inv_spawn: "lease_inv lease_path D w \<Longrightarrow> lease_inv lease_path D (w\<lparr>alive := insert pid (alive w)\<rparr>)"
  by (auto simp: lease_inv_def manager_ok_def)

lemma lease_inv_die:
  "lease_inv lease_path D w \<Longrightarrow> lease_inv lease_path D (lease_step date_ok lease_path permitted (Die pid) w)"
  by (auto simp: lease_inv_def lease_step_def manager_ok_def split: option.splits if_splits)

lemma lease_inv_create:
  "lease_inv lease_path D w \<Longrightarrow> lease_inv lease_path D (lease_step date_ok lease_path permitted (Create inst pid) w)"
  by (auto simp: lease_inv_def lease_step_def createLeaseManager_def manager_ok_def)

lemma lease_inv_begin:
  "lease_inv lease_path D w \<Longrightarrow>
    lease_inv lease_path D (lease_step date_ok lease_path permitted (Begin_Acquire inst lid root wid m purp now) w)"
  by (auto simp: lease_inv_def lease_step_def begin_acquire_def manager_ok_def split: option.splits)

lemma lease_inv_start_dispose:
  "lease_inv lease_path D w \<Longrightarrow> lease_inv lease_path D (start_dispose inst w)"
  by (auto simp: lease_inv_def start_dispose_def manager_ok_def split: option.splits)

lemma lease_inv_end_dispose:
  "lease_inv lease_path D w \<Longrightarrow> lease_inv lease_path D (end_dispose inst w)"
  by (auto simp: lease_inv_def end_dispose_def manager_ok_def split: option.splits) metis

text \<open>Entries survive in the new documents, but for the one lease that a transaction removes.\<close>

lemma lease_inv_files:
  assumes "lease_inv lease_path D w"
    and "\<forall>p. fs p = document_json (D' p) \<and> compatible (owners (D' p))"
    and "\<forall>p. \<forall>owner \<in> set (owners (D p)). leaseId owner \<noteq> lid \<longrightarrow> owner \<in> set (owners (D' p))"
    and "\<forall>h mgr. handles w lid = Some h \<longrightarrow> \<not> released h \<longrightarrow> managers w (handle_manager h) = Some mgr \<longrightarrow>
        manager_disposed mgr"
  shows "lease_inv lease_path D' (w\<lparr>files := fs\<rparr>)"
proof -
  have "\<exists>owner \<in> set (owners (D' (lease_path (handle_root h)))). entry_of l h (manager_pid mgr) owner"
    if "handles w l = Some h" "\<not> released h" "managers w (handle_manager h) = Some mgr" "\<not> manager_disposed mgr"
    for l h mgr
  proof -
    from assms(1) that obtain owner where owner: "owner \<in> set (owners (D (lease_path (handle_root h))))"
      "entry_of l h (manager_pid mgr) owner" unfolding lease_inv_def by blast
    moreover have "l \<noteq> lid" using that assms(4) by auto
    ultimately have "owner \<in> set (owners (D' (lease_path (handle_root h))))"
      using assms(3) by (auto simp: entry_of_def)
    with owner(2) show ?thesis by blast
  qed
  with assms(1,2) show ?thesis
    unfolding lease_inv_def by (simp add: manager_ok_def)
qed

lemma keys_delete: "fst ` set (AList.delete k al) \<subseteq> fst ` set al"
  by (induction al) auto

lemma manager_ok_shrink:
  assumes "manager_ok w inst mgr"
    and "\<And>l. l \<in> fst ` set os \<Longrightarrow> l \<in> fst ` set (owned mgr) \<or> (\<exists>h. handles w' l = Some h \<and> handle_manager h = inst)"
    and "fst ` set ds \<subseteq> fst ` set (disposing mgr)"
    and "\<And>l h. handles w l = Some h \<Longrightarrow> \<exists>h'. handles w' l = Some h' \<and> handle_manager h' = handle_manager h"
    and "alive w' = alive w" "instancesUsed w' = instancesUsed w" "liveInstances w' = liveInstances w"
  shows "manager_ok w' inst (mgr\<lparr>owned := os, disposing := ds\<rparr>)"
proof -
  have kept: "\<exists>h. handles w' l = Some h \<and> handle_manager h = inst"
    if l: "l \<in> fst ` set (owned mgr) \<union> fst ` set (disposing mgr)" for l
  proof -
    from l assms(1) obtain h where "handles w l = Some h" "handle_manager h = inst"
      unfolding manager_ok_def by blast
    with assms(4) show ?thesis by metis
  qed
  have "\<exists>h. handles w' l = Some h \<and> handle_manager h = inst" if "l \<in> fst ` set os \<union> fst ` set ds" for l
    using that assms(2,3) kept [of l] by blast
  moreover have "disposing mgr = [] \<Longrightarrow> ds = []" using assms(3) by simp
  ultimately show ?thesis using assms(1,5-7) by (simp add: manager_ok_def)
qed

lemma manager_ok_managers [simp]: "manager_ok (w\<lparr>managers := f\<rparr>) inst mgr = manager_ok w inst mgr"
  by (simp add: manager_ok_def)

lemma lease_inv_manager: "lease_inv lease_path D w \<Longrightarrow> managers w inst = Some mgr \<Longrightarrow> manager_ok w inst mgr"
  by (simp add: lease_inv_def)

lemma lease_inv_entry:
  "lease_inv lease_path D w \<Longrightarrow> handles w lid = Some h \<Longrightarrow> \<not> released h \<Longrightarrow>
    managers w (handle_manager h) = Some mgr \<Longrightarrow> \<not> manager_disposed mgr \<Longrightarrow>
    \<exists>owner \<in> set (owners (D (lease_path (handle_root h)))). entry_of lid h (manager_pid mgr) owner"
  unfolding lease_inv_def by blast

lemma lease_inv_documents:
  "lease_inv lease_path D w \<Longrightarrow> \<forall>p. files w p = document_json (D p) \<and> compatible (owners (D p))"
  by (simp add: lease_inv_def)

lemma lease_inv_managers:
  assumes "lease_inv lease_path D w"
    and "files w' = files w" "acquiring w' = acquiring w" "instancesUsed w' = instancesUsed w"
    and mgrs: "\<And>inst m'. managers w' inst = Some m' \<Longrightarrow> manager_ok w' inst m' \<and>
      (\<exists>m. managers w inst = Some m \<and> manager_pid m = manager_pid m' \<and> manager_disposed m = manager_disposed m')"
    and hs: "\<And>lid h'. handles w' lid = Some h' \<Longrightarrow> \<exists>h. handles w lid = Some h \<and> (\<not> released h' \<longrightarrow> \<not> released h) \<and>
      handle_manager h' = handle_manager h \<and> handle_root h' = handle_root h \<and> handle_mode h' = handle_mode h"
  shows "lease_inv lease_path D w'"
proof -
  have entries: "\<exists>owner \<in> set (owners (D (lease_path (handle_root h')))). entry_of l h' (manager_pid m') owner"
    if "handles w' l = Some h'" "\<not> released h'" "managers w' (handle_manager h') = Some m'" "\<not> manager_disposed m'"
    for l h' m'
  proof -
    note prems = that
    obtain h where h: "handles w l = Some h" "\<not> released h" "handle_manager h' = handle_manager h"
      "handle_root h' = handle_root h" "handle_mode h' = handle_mode h" using hs [OF prems(1)] prems(2) by blast
    obtain m where m: "managers w (handle_manager h) = Some m" "manager_pid m = manager_pid m'" "\<not> manager_disposed m"
      using mgrs [OF prems(3)] prems(4) h(3) by auto
    with assms(1) h(1,2) obtain owner where "owner \<in> set (owners (D (lease_path (handle_root h))))"
      "entry_of l h (manager_pid m) owner" unfolding lease_inv_def by blast
    with h m show ?thesis by (auto simp: entry_of_def)
  qed
  have "handles w' l = None" if "handles w l = None" for l
    using hs [of l] that by (cases "handles w' l") auto
  then have acq: "leaseId owner = l \<and> lease_mode owner \<in> set MODES \<and> handles w' l = None \<and>
      authorityInstanceId owner \<in> instancesUsed w' \<and>
      (\<forall>mgr. managers w' (authorityInstanceId owner) = Some mgr \<longrightarrow> manager_pid mgr = owner_pid owner)"
    if "acquiring w' l = Some (root, owner)" for l root owner
    using assms(1,3,4) that mgrs [of "authorityInstanceId owner"] unfolding lease_inv_def by metis
  have used: "handle_manager h' \<in> instancesUsed w'" if "handles w' l = Some h'" for l h'
    using hs [OF that] assms(1,4) unfolding lease_inv_def by metis
  show ?thesis
    unfolding lease_inv_def
    using entries acq used mgrs assms(2) lease_inv_documents [OF assms(1)] by auto
qed

lemma files_last:
  "w\<lparr>files := fs, managers := ms, handles := hs\<rparr> = w\<lparr>managers := ms, handles := hs, files := fs\<rparr>"
  by (cases w) simp

lemma lease_inv_release:
  assumes "lease_inv lease_path D w"
  shows "\<exists>D'. lease_inv lease_path D' (fst (release_lease date_ok lease_path lid w))"
proof (cases "handles w lid")
  case None
  with assms show ?thesis by (auto simp: release_lease_def)
next
  case (Some h)
  obtain fs r where tr: "transact (files w) (lease_path (handle_root h)) (release_transaction date_ok lid) = (fs, r)"
    by fastforce
  let ?w = "w\<lparr>managers := (managers w)(handle_manager h :=
      map_option (\<lambda>mgr. mgr\<lparr>owned := AList.delete lid (owned mgr)\<rparr>) (managers w (handle_manager h))),
    handles := (handles w)(lid \<mapsto> h\<lparr>released := True\<rparr>)\<rparr>"
  show ?thesis
  proof (cases "released h \<or> isl r")
    case True
    then have "fst (release_lease date_ok lease_path lid w) = w"
      using Some tr by (auto simp: release_lease_def transact_def isl_def split: sum.splits option.splits)
    with assms show ?thesis by auto
  next
    case False
    then have "r = Inr ()" by (cases r) auto
    with False Some tr have res: "fst (release_lease date_ok lease_path lid w) = ?w\<lparr>files := fs\<rparr>"
      by (simp add: release_lease_def files_last)
    have mgrs: "manager_ok ?w inst mgr" if "managers ?w inst = Some mgr" for inst mgr
    proof -
      have same: "\<exists>h'. handles ?w l = Some h' \<and> handle_manager h' = handle_manager g" if "handles w l = Some g" for l g
        using that Some by auto
      from that obtain mgr0 where m0: "managers w inst = Some mgr0"
        "mgr = mgr0\<lparr>owned := (if inst = handle_manager h then AList.delete lid (owned mgr0) else owned mgr0),
                    disposing := disposing mgr0\<rparr>"
        by (auto split: if_splits)
      have "l \<in> fst ` set (if inst = handle_manager h then AList.delete lid (owned mgr0) else owned mgr0) \<Longrightarrow>
          l \<in> fst ` set (owned mgr0) \<or> (\<exists>h'. handles ?w l = Some h' \<and> handle_manager h' = inst)" for l
        using keys_delete [of lid "owned mgr0"] by (auto split: if_splits simp del: image_subset_iff)
      from manager_ok_shrink [OF lease_inv_manager [OF assms m0(1)] this subset_refl same]
      show ?thesis unfolding m0(2) by simp
    qed
    have "lease_inv lease_path D ?w"
    proof (rule lease_inv_managers [OF assms])
      show "manager_ok ?w inst m' \<and>
          (\<exists>m. managers w inst = Some m \<and> manager_pid m = manager_pid m' \<and> manager_disposed m = manager_disposed m')"
        if "managers ?w inst = Some m'" for inst m'
        using mgrs [OF that] that by (auto split: if_splits)
    qed (use Some in \<open>auto split: if_splits\<close>)
    moreover obtain D' where "\<forall>p. fs p = document_json (D' p) \<and> compatible (owners (D' p))"
      "\<forall>p. \<forall>owner \<in> set (owners (D p)). leaseId owner \<noteq> lid \<longrightarrow> owner \<in> set (owners (D' p))"
      using transact_release [OF lease_inv_documents [OF assms] tr] by blast
    ultimately have "lease_inv lease_path D' (?w\<lparr>files := fs\<rparr>)"
      by (rule lease_inv_files) simp
    with res show ?thesis by auto
  qed
qed

lemma lease_inv_dispose_record:
  assumes "lease_inv lease_path D w"
  shows "\<exists>D'. lease_inv lease_path D' (dispose_record date_ok lease_path inst lid w)"
proof (cases "\<exists>mgr root. managers w inst = Some mgr \<and> map_of (disposing mgr) lid = Some root")
  case False
  then have "dispose_record date_ok lease_path inst lid w = w"
    by (auto simp: dispose_record_def split: option.splits)
  with assms show ?thesis by auto
next
  case True
  then obtain mgr root where mgr: "managers w inst = Some mgr" "map_of (disposing mgr) lid = Some root" by auto
  obtain fs r where tr: "transact (files w) (lease_path root) (release_transaction date_ok lid) = (fs, r)"
    by fastforce
  let ?w = "w\<lparr>managers := (managers w)(inst \<mapsto> mgr\<lparr>disposing := AList.delete lid (disposing mgr)\<rparr>)\<rparr>"
  have "lid \<in> fst ` set (disposing mgr)" using mgr(2) by (force dest: map_of_SomeD)
  moreover have ok: "manager_ok w inst mgr" using assms mgr(1) by (simp add: lease_inv_def)
  ultimately have own: "\<exists>h. handles w lid = Some h \<and> handle_manager h = inst" "manager_disposed mgr"
    by (auto simp: manager_ok_def)
  have "manager_ok ?w inst (mgr\<lparr>owned := owned mgr, disposing := AList.delete lid (disposing mgr)\<rparr>)"
    by (rule manager_ok_shrink [OF ok disjI1 keys_delete]) simp_all
  then have new: "manager_ok ?w inst (mgr\<lparr>disposing := AList.delete lid (disposing mgr)\<rparr>)" by simp
  have "lease_inv lease_path D ?w"
  proof (rule lease_inv_managers [OF assms])
    show "manager_ok ?w i m' \<and>
        (\<exists>m. managers w i = Some m \<and> manager_pid m = manager_pid m' \<and> manager_disposed m = manager_disposed m')"
      if "managers ?w i = Some m'" for i m'
      using that new mgr(1) lease_inv_manager [OF assms] by (cases "i = inst") auto
  qed auto
  moreover obtain D' where "\<forall>p. fs p = document_json (D' p) \<and> compatible (owners (D' p))"
    "\<forall>p. \<forall>owner \<in> set (owners (D p)). leaseId owner \<noteq> lid \<longrightarrow> owner \<in> set (owners (D' p))"
    using transact_release [OF lease_inv_documents [OF assms] tr] by blast
  ultimately have "lease_inv lease_path D' (?w\<lparr>files := fs\<rparr>)"
    by (rule lease_inv_files) (use own mgr(1) in auto)
  moreover have "dispose_record date_ok lease_path inst lid w = ?w\<lparr>files := fs\<rparr>"
    using mgr tr by (cases w) (simp add: dispose_record_def)
  ultimately show ?thesis by auto
qed

lemma held_owner_survives:
  assumes "manager_ok w (authorityInstanceId owner) mgr" "\<not> manager_disposed mgr" "owner_pid owner = manager_pid mgr"
  shows "ownerMayBeAlive (Some (kill_of permitted w)) self (liveInstances w self) owner"
  using assms by (auto simp: manager_ok_def ownerMayBeAlive_def processMayBeAlive_def kill_of_def)

lemma lease_inv_forget_acquiring:
  "lease_inv lease_path D w \<Longrightarrow> lease_inv lease_path D (w\<lparr>acquiring := (acquiring w)(lid := None)\<rparr>)"
  by (auto simp: lease_inv_def manager_ok_def)

lemma lease_inv_granted:
  assumes inv: "lease_inv lease_path D w" and lid: "handles w lid = None" "acquiring w lid = None"
    and owner: "leaseId owner = lid" "authorityInstanceId owner = inst" "inst \<in> instancesUsed w"
      "\<forall>mgr. managers w inst = Some mgr \<longrightarrow> manager_pid mgr = owner_pid owner"
    and doc: "owners d' = filter (ownerMayBeAlive (Some (kill_of permitted w)) self (liveInstances w self))
        (owners (D (lease_path root))) @ [owner]" "compatible (owners d')"
    and h: "h = \<lparr>handle_manager = inst, handle_root = root, handle_mode = lease_mode owner, released = False\<rparr>"
  shows "lease_inv lease_path (D(lease_path root := d'))
    (w\<lparr>files := (files w)(lease_path root := document_json d'),
       managers := (managers w)(inst := map_option (\<lambda>mgr. mgr\<lparr>owned := AList.update lid root (owned mgr)\<rparr>) (managers w inst)),
       handles := (handles w)(lid \<mapsto> h)\<rparr>)" (is "lease_inv _ ?D ?w")
  unfolding lease_inv_def
proof (intro conjI allI impI)
  fix p show "files ?w p = document_json (?D p)" "compatible (owners (?D p))"
    using lease_inv_documents [OF inv] doc(2) by auto
next
  fix i m' assume m': "managers ?w i = Some m'"
  then obtain m where m: "managers w i = Some m"
    and shape: "m' = (if i = inst then m\<lparr>owned := AList.update lid root (owned m)\<rparr> else m)"
    by (auto split: if_splits)
  have keys: "l \<in> fst ` set (if i = inst then AList.update lid root (owned m) else owned m) \<Longrightarrow>
      l \<in> fst ` set (owned m) \<or> (\<exists>g. handles ?w l = Some g \<and> handle_manager g = i)" for l
    using h by (auto simp: dom_update split: if_splits)
  have "manager_ok ?w i (m\<lparr>owned := (if i = inst then AList.update lid root (owned m) else owned m),
      disposing := disposing m\<rparr>)"
    by (rule manager_ok_shrink [OF lease_inv_manager [OF inv m]], erule keys) (use lid(1) in auto)
  then show "manager_ok ?w i m'" using shape by (auto split: if_splits)
next
  fix l g mgr
  assume l: "handles ?w l = Some g" "\<not> released g" "managers ?w (handle_manager g) = Some mgr" "\<not> manager_disposed mgr"
  then obtain m where m: "managers w (handle_manager g) = Some m" "manager_pid m = manager_pid mgr" "\<not> manager_disposed m"
    by (auto split: if_splits)
  show "\<exists>ow \<in> set (owners (?D (lease_path (handle_root g)))). entry_of l g (manager_pid mgr) ow"
  proof (cases "l = lid")
    case True
    with l(1) h m owner show ?thesis using doc(1) by (auto simp: entry_of_def)
  next
    case False
    with l(1) have "handles w l = Some g" by simp
    with l(2) m obtain ow where ow: "ow \<in> set (owners (D (lease_path (handle_root g))))"
      "entry_of l g (manager_pid m) ow" using lease_inv_entry [OF inv] by blast
    have "ownerMayBeAlive (Some (kill_of permitted w)) self (liveInstances w self) ow"
      using held_owner_survives [of w ow m] lease_inv_manager [OF inv m(1)] m(3) ow(2) by (simp add: entry_of_def)
    with ow m(2) doc(1) show ?thesis by auto
  qed
next
  fix l r ow assume acq: "acquiring ?w l = Some (r, ow)"
  then have "l \<noteq> lid" using lid(2) by auto
  with acq inv show "leaseId ow = l" "lease_mode ow \<in> set MODES" "handles ?w l = None"
    "authorityInstanceId ow \<in> instancesUsed ?w"
    unfolding lease_inv_def by auto
  fix mgr assume "managers ?w (authorityInstanceId ow) = Some mgr"
  with acq inv show "manager_pid mgr = owner_pid ow"
    unfolding lease_inv_def by (auto split: if_splits)
next
  fix l g assume "handles ?w l = Some g"
  with inv h owner(3) show "handle_manager g \<in> instancesUsed ?w"
    unfolding lease_inv_def by (auto split: if_splits)
qed

lemma lease_inv_commit:
  assumes "lease_inv lease_path D w"
  shows "\<exists>D'. lease_inv lease_path D' (fst (commit_acquire date_ok lease_path (Some (kill_of permitted w)) lid w))"
proof (cases "acquiring w lid")
  case None
  with assms show ?thesis by (auto simp: commit_acquire_def)
next
  case (Some ro)
  then obtain root owner where acq: "acquiring w lid = Some (root, owner)" by (cases ro) auto
  let ?w = "w\<lparr>acquiring := (acquiring w)(lid := None)\<rparr>"
  let ?self = "owner_pid owner"
  let ?tx = "acquire_transaction date_ok (Some (kill_of permitted w)) ?self (liveInstances w ?self) owner"
  have inv: "lease_inv lease_path D ?w" by (rule lease_inv_forget_acquiring [OF assms])
  from assms acq have owner: "leaseId owner = lid" "lease_mode owner \<in> set MODES" "handles w lid = None"
    "authorityInstanceId owner \<in> instancesUsed w"
    "\<forall>mgr. managers w (authorityInstanceId owner) = Some mgr \<longrightarrow> manager_pid mgr = owner_pid owner"
    unfolding lease_inv_def by blast+
  have kill: "kill_of permitted ?w = kill_of permitted w" by (simp add: kill_of_def fun_eq_iff)
  show ?thesis
  proof (cases "?tx (files w (lease_path root))")
    case (Inl e)
    then have "fst (commit_acquire date_ok lease_path (Some (kill_of permitted w)) lid w) = ?w"
      using acq by (cases w) (simp add: commit_acquire_def transact_def)
    with inv show ?thesis by auto
  next
    case (Inr opt)
    then obtain v where v: "opt = Some v"
      by (auto simp: acquire_transaction_def obind_Inr_iff Let_def split: if_splits)
    with Inr lease_inv_documents [OF assms] owner(2) obtain d' where d': "v = document_json d'"
      "owners d' = filter (ownerMayBeAlive (Some (kill_of permitted w)) ?self (liveInstances w ?self))
        (owners (D (lease_path root))) @ [owner]" "compatible (owners d')"
      using acquire_transaction_json [of date_ok "Some (kill_of permitted w)" ?self "liveInstances w ?self" owner
          "D (lease_path root)" v] by auto
    have "fst (commit_acquire date_ok lease_path (Some (kill_of permitted w)) lid w) =
      ?w\<lparr>files := (files w)(lease_path root := document_json d'),
         managers := (managers w)(authorityInstanceId owner :=
           map_option (\<lambda>mgr. mgr\<lparr>owned := AList.update lid root (owned mgr)\<rparr>) (managers w (authorityInstanceId owner))),
         handles := (handles w)(lid \<mapsto> \<lparr>handle_manager = authorityInstanceId owner, handle_root = root,
           handle_mode = lease_mode owner, released = False\<rparr>)\<rparr>"
      using acq Inr v d'(1) by (simp add: commit_acquire_def transact_def Let_def)
    then show ?thesis
      using lease_inv_granted [OF inv, of lid owner "authorityInstanceId owner" d' permitted ?self root] owner d'(2,3)
      by (auto simp: kill)
  qed
qed

lemma lease_inv_start: "lease_inv lease_path (\<lambda>_. leaseDocument) lease_start"
  by (simp add: lease_inv_def lease_start_def compatible_def leaseDocument_def)

lemma lease_inv_step:
  assumes "lease_inv lease_path D w"
  shows "\<exists>D'. lease_inv lease_path D' (lease_step date_ok lease_path permitted ev w)"
proof (cases ev)
  case (Spawn pid)
  with lease_inv_spawn [OF assms] show ?thesis by (auto simp: lease_step_def)
next
  case (Die pid)
  with lease_inv_die [OF assms] show ?thesis by blast
next
  case (Create inst pid)
  with lease_inv_create [OF assms] show ?thesis by blast
next
  case (Begin_Acquire inst lid root wid m purp now)
  with lease_inv_begin [OF assms] show ?thesis by blast
next
  case (Commit_Acquire lid)
  with lease_inv_commit [OF assms] show ?thesis by (simp add: lease_step_def)
next
  case (Release_Lease lid)
  with lease_inv_release [OF assms] show ?thesis by (simp add: lease_step_def)
next
  case (Start_Dispose inst)
  with lease_inv_start_dispose [OF assms] show ?thesis by (auto simp: lease_step_def)
next
  case (Dispose_Record inst lid)
  with lease_inv_dispose_record [OF assms] show ?thesis by (simp add: lease_step_def)
next
  case (End_Dispose inst)
  with lease_inv_end_dispose [OF assms] show ?thesis by (auto simp: lease_step_def)
qed

lemma lease_inv_run: "\<exists>D. lease_inv lease_path D (lease_run date_ok lease_path permitted evs)"
proof (induction evs rule: rev_induct)
  case Nil
  then show ?case using lease_inv_start by (auto simp: lease_run_def)
next
  case (snoc ev evs)
  then show ?case using lease_inv_step by (auto simp: lease_run_def)
qed

section \<open>Properties\<close>


definition two_readers :: "lease_event list" where
  "two_readers =
     [Spawn 1, Spawn 2, Create ''a'' 1, Create ''b'' 2,
      Begin_Acquire ''a'' ''x'' ''/r'' ''w'' ''shared'' ''read'' ''now'', Commit_Acquire ''x'',
      Begin_Acquire ''b'' ''y'' ''/r'' ''w'' ''shared'' ''read'' ''now'', Commit_Acquire ''y'']"

lemmas lease_eval = lease_run_def lease_start_def lease_step_def createLeaseManager_def begin_acquire_def
  commit_acquire_def transact_def acquire_transaction_def assertDocument_def document_json_def leaseDocument_def
  own_prop_def MODES_def MAX_SAFE_INTEGER_def assertOwner_def owner_json_def ownerMayBeAlive_def
  processMayBeAlive_def kill_of_def start_dispose_def end_dispose_def Let_def

lemma two_readers_state:
  "handles (lease_run (\<lambda>_. True) id (\<lambda>_. True) two_readers) =
     [''x'' \<mapsto> \<lparr>handle_manager = ''a'', handle_root = ''/r'', handle_mode = ''shared'', released = False\<rparr>,
      ''y'' \<mapsto> \<lparr>handle_manager = ''b'', handle_root = ''/r'', handle_mode = ''shared'', released = False\<rparr>]"
  "map_option manager_disposed (managers (lease_run (\<lambda>_. True) id (\<lambda>_. True) two_readers) ''a'') = Some False"
  "map_option manager_disposed (managers (lease_run (\<lambda>_. True) id (\<lambda>_. True) two_readers) ''b'') = Some False"
  by (simp_all add: two_readers_def lease_eval)


text \<open>
  Disposal breaks it: \<open>acquire\<close> tests for disposal only before its transaction, so a manager disposed while
  the transaction waits still grants the lease, and, as its instance is then no longer live, the next manager of
  the same process removes the entry and gets an exclusive lease beside it. Both handles are unreleased.
\<close>

theorem disposed_manager_grants_second_exclusive:
  "handles (lease_run (\<lambda>_. True) id (\<lambda>_. True)
     [Spawn 1, Create ''a'' 1, Create ''b'' 1,
      Begin_Acquire ''a'' ''x'' ''/r'' ''w'' ''exclusive'' ''restore'' ''now'', Start_Dispose ''a'', End_Dispose ''a'',
      Commit_Acquire ''x'',
      Begin_Acquire ''b'' ''y'' ''/r'' ''w'' ''exclusive'' ''restore'' ''now'', Commit_Acquire ''y'']) =
     [''x'' \<mapsto> \<lparr>handle_manager = ''a'', handle_root = ''/r'', handle_mode = ''exclusive'', released = False\<rparr>,
      ''y'' \<mapsto> \<lparr>handle_manager = ''b'', handle_root = ''/r'', handle_mode = ''exclusive'', released = False\<rparr>]"
  by (simp add: lease_eval)

end
