(* ===== verification/Settings_Store.thy ===== *)
theory Settings_Store
  imports Varin_Prelude
begin

text \<open>
  The settings file store, \<^verbatim>\<open>src/packages/settings-store/src/index.ts\<close>, under which documents such as the
  workspace leases are read and changed: the lock file, and the replacement of a document.

  The first part is a step relation on the lock path. A file has an identity of its own (\<open>inode\<close>), since a
  process that created it may write it after another renamed it away. Every process runs one mutation of a document
  at a time (\<open>mutationQueues\<close>), so a process is named by its pid; each awaited file operation of \<open>acquireLock\<close> is a
  step. A lock file's content is the pid and token of its owner, or nothing while it is not written yet.

  The second part is the write of a document. Each file operation's outcome is an argument: it is done, it fails with
  an error code, or the machine stops before it. Directories and modes are not part of the state, but the calls on
  them may fail.
\<close>

section \<open>The lock file\<close>

datatype phase =
    Idle
  | Opened nat string
  | Holding nat string
  | Removing nat
  | Checking
  | Stating
  | Abandoned

record lock_world =
  lockFile :: "nat option"
  inode :: "nat \<Rightarrow> (int \<times> string) option"
  nextInode :: nat
  phases :: "int \<Rightarrow> phase"
  running :: "int set"

definition lock_start :: "int set \<Rightarrow> lock_world" where
  "lock_start pids = \<lparr>lockFile = None, inode = (\<lambda>_. None), nextInode = 0, phases = (\<lambda>_. Idle), running = pids\<rparr>"

datatype kill_outcome = KillDone | KillFails string

definition processIsAlive :: "(int \<Rightarrow> kill_outcome) option \<Rightarrow> int \<Rightarrow> bool" where
  "processIsAlive kill pid =
     (if pid \<le> 0 \<or> pid > 2 ^ 53 - 1 then False
      else case kill of
             None \<Rightarrow> False
           | Some k \<Rightarrow> (case k pid of KillDone \<Rightarrow> True | KillFails code \<Rightarrow> code = ''EPERM''))"

definition kill_running :: "lock_world \<Rightarrow> int \<Rightarrow> kill_outcome" where
  "kill_running w pid = (if pid \<in> running w then KillDone else KillFails ''ESRCH'')"

definition set_phase :: "int \<Rightarrow> phase \<Rightarrow> lock_world \<Rightarrow> lock_world" where
  "set_phase p ph w = w\<lparr>phases := (phases w)(p := ph)\<rparr>"

text \<open>\<open>open(lockPath, 'wx')\<close>, with the token drawn when it succeeds, and the write of the owner.\<close>

definition open_lock :: "int \<Rightarrow> string \<Rightarrow> lock_world \<Rightarrow> lock_world" where
  "open_lock p token w =
     (case lockFile w of
        Some _ \<Rightarrow> set_phase p Checking w
      | None \<Rightarrow>
          set_phase p (Opened (nextInode w) token)
            (w\<lparr>lockFile := Some (nextInode w), inode := (inode w)(nextInode w := None), nextInode := nextInode w + 1\<rparr>))"

definition write_owner :: "int \<Rightarrow> nat \<Rightarrow> string \<Rightarrow> lock_world \<Rightarrow> lock_world" where
  "write_owner p n token w =
     set_phase p (Holding n token) (w\<lparr>inode := (inode w)(n \<mapsto> (p, token))\<rparr>)"

text \<open>Reading a file that exists: its owner decides, or, if it does not parse, its age.\<close>

definition read_owner :: "int \<Rightarrow> lock_world \<Rightarrow> lock_world" where
  "read_owner p w =
     (case lockFile w of
        None \<Rightarrow> set_phase p Idle w
      | Some n \<Rightarrow>
          (case inode w n of
             None \<Rightarrow> set_phase p Stating w
           | Some (pid, _) \<Rightarrow>
               if \<not> processIsAlive (Some (kill_running w)) pid then set_phase p Abandoned w else set_phase p Idle w))"

definition stat_lock :: "int \<Rightarrow> bool \<Rightarrow> lock_world \<Rightarrow> lock_world" where
  "stat_lock p stale w =
     (case lockFile w of
        None \<Rightarrow> set_phase p Idle w
      | Some _ \<Rightarrow> set_phase p (if stale then Abandoned else Idle) w)"

definition move_abandoned :: "int \<Rightarrow> lock_world \<Rightarrow> lock_world" where
  "move_abandoned p w = set_phase p Idle (w\<lparr>lockFile := None\<rparr>)"

text \<open>The release: the lock file is read again, and removed if the token is the own one.\<close>

definition check_release :: "int \<Rightarrow> string \<Rightarrow> lock_world \<Rightarrow> lock_world" where
  "check_release p token w =
     (case lockFile w of
        None \<Rightarrow> set_phase p Idle w
      | Some m \<Rightarrow>
          (case inode w m of
             Some (_, t) \<Rightarrow> if t = token then set_phase p (Removing m) w else set_phase p Idle w
           | None \<Rightarrow> set_phase p Idle w))"

definition remove_lock :: "int \<Rightarrow> lock_world \<Rightarrow> lock_world" where
  "remove_lock p w = set_phase p Idle (w\<lparr>lockFile := None\<rparr>)"

text \<open>
  One step of a process, by its phase; \<open>Proceed p token stale\<close> carries the token it may draw and the age it may
  observe. \<open>Write_Fails p\<close> is a failing write of the owner, after which the lock file is removed again and the error
  thrown. A process that dies stays where it is.
\<close>

datatype lock_event = Proceed int string bool | Write_Fails int | Dies int

definition lock_step :: "lock_event \<Rightarrow> lock_world \<Rightarrow> lock_world" where
  "lock_step ev w =
     (case ev of
        Dies p \<Rightarrow> w\<lparr>running := running w - {p}\<rparr>
      | Write_Fails p \<Rightarrow>
          if p \<notin> running w then w
          else (case phases w p of Opened n t \<Rightarrow> remove_lock p w | _ \<Rightarrow> w)
      | Proceed p token stale \<Rightarrow>
          if p \<notin> running w then w
          else case phases w p of
                 Idle \<Rightarrow> open_lock p token w
               | Opened n t \<Rightarrow> write_owner p n t w
               | Holding n t \<Rightarrow> check_release p t w
               | Removing n \<Rightarrow> remove_lock p w
               | Checking \<Rightarrow> read_owner p w
               | Stating \<Rightarrow> stat_lock p stale w
               | Abandoned \<Rightarrow> move_abandoned p w)"

definition lock_run :: "int set \<Rightarrow> lock_event list \<Rightarrow> lock_world" where
  "lock_run pids evs = foldl (\<lambda>w ev. lock_step ev w) (lock_start pids) evs"

section \<open>Writing a document\<close>

datatype io = Done | Fails string | Stops

datatype io_call =
    Mkdir | Chmod_Directory | Write_Temporary | Chmod_Temporary | Rename_In | Rm_Previous | Rename_Out
  | Rename_In_Again | Rename_Back | Rm_Previous_After | Chmod_Document

text \<open>The content of a file: a JSON value, or \<open>None\<close> if it does not parse.\<close>

record store_files =
  document :: "jsval option option"
  previous :: "jsval option option"
  temporary :: "jsval option option"

datatype settings_error = MalformedSettings | IoError string

datatype write_result = Written | Threw settings_error | Stopped

definition assertObject :: "jsval option \<Rightarrow> (settings_error, jsval) outcome" where
  "assertObject v =
     (case v of None \<Rightarrow> Inl MalformedSettings
      | Some v \<Rightarrow> if is_object v \<and> \<not> is_array v then Inr v else Inl MalformedSettings)"

definition read_settings :: "jsval \<Rightarrow> store_files \<Rightarrow> (settings_error, jsval) outcome" where
  "read_settings defaultValue fs =
     (case document fs of
        Some v \<Rightarrow> assertObject v
      | None \<Rightarrow>
          (case previous fs of
             Some v \<Rightarrow> assertObject v
           | None \<Rightarrow> assertObject (Some defaultValue)))"

definition io_step :: "io \<Rightarrow> store_files \<Rightarrow> (store_files \<Rightarrow> store_files \<times> write_result) \<Rightarrow> store_files \<times> write_result" where
  "io_step result fs continue =
     (case result of
        Done \<Rightarrow> continue fs
      | Fails code \<Rightarrow> (fs, Threw (IoError code))
      | Stops \<Rightarrow> (fs, Stopped))"

text \<open>The end of \<open>replaceFile\<close>, after the old document was moved aside or found missing.\<close>

definition install :: "(io_call \<Rightarrow> io) \<Rightarrow> bool \<Rightarrow> store_files \<Rightarrow> store_files \<times> write_result" where
  "install io movedCurrent fs =
     (case io Rename_In_Again of
        Done \<Rightarrow>
          let fs = fs\<lparr>document := temporary fs, temporary := None\<rparr>
          in if movedCurrent
             then io_step (io Rm_Previous_After) fs (\<lambda>fs. (fs\<lparr>previous := None\<rparr>, Written))
             else (fs, Written)
      | Fails code \<Rightarrow>
          if movedCurrent then
            (case io Rename_Back of
               Done \<Rightarrow> (fs\<lparr>document := previous fs, previous := None\<rparr>, Threw (IoError code))
             | Fails _ \<Rightarrow> (fs, Threw (IoError code))
             | Stops \<Rightarrow> (fs, Stopped))
          else (fs, Threw (IoError code))
      | Stops \<Rightarrow> (fs, Stopped))"

definition replaceFile :: "bool \<Rightarrow> (io_call \<Rightarrow> io) \<Rightarrow> store_files \<Rightarrow> store_files \<times> write_result" where
  "replaceFile win32 io fs =
     (case io Rename_In of
        Done \<Rightarrow> (fs\<lparr>document := temporary fs, temporary := None\<rparr>, Written)
      | Stops \<Rightarrow> (fs, Stopped)
      | Fails code \<Rightarrow>
          if \<not> win32 \<or> code \<notin> {''EPERM'', ''EACCES'', ''EEXIST''} then (fs, Threw (IoError code))
          else
            io_step (io Rm_Previous) fs (\<lambda>fs.
              let fs = fs\<lparr>previous := None\<rparr>
              in if document fs = None then install io False fs
                 else case io Rename_Out of
                        Done \<Rightarrow> install io True (fs\<lparr>previous := document fs, document := None\<rparr>)
                      | Fails code \<Rightarrow>
                          if code = ''ENOENT'' then install io False fs else (fs, Threw (IoError code))
                      | Stops \<Rightarrow> (fs, Stopped)))"

text \<open>\<open>finally\<close> removes the temporary file; a machine that stopped removes nothing.\<close>

definition cleanup :: "store_files \<times> write_result \<Rightarrow> store_files \<times> write_result" where
  "cleanup r = (case r of (fs, Stopped) \<Rightarrow> (fs, Stopped) | (fs, res) \<Rightarrow> (fs\<lparr>temporary := None\<rparr>, res))"

definition writeUnlocked :: "bool \<Rightarrow> (io_call \<Rightarrow> io) \<Rightarrow> jsval \<Rightarrow> store_files \<Rightarrow> store_files \<times> write_result" where
  "writeUnlocked win32 io settings fs =
     (case assertObject (Some settings) of
        Inl e \<Rightarrow> (fs, Threw e)
      | Inr _ \<Rightarrow>
          io_step (io Mkdir) fs (\<lambda>fs.
          io_step (if win32 then Done else io Chmod_Directory) fs (\<lambda>fs.
          cleanup
            (io_step (io Write_Temporary) fs (\<lambda>fs.
             let fs = fs\<lparr>temporary := Some (Some settings)\<rparr>
             in io_step (if win32 then Done else io Chmod_Temporary) fs (\<lambda>fs.
                case replaceFile win32 io fs of
                  (fs, Written) \<Rightarrow> io_step (if win32 then Done else io Chmod_Document) fs (\<lambda>fs. (fs, Written))
                | r \<Rightarrow> r))))))"

text \<open>
  \<open>transact\<close>, under the lock. The mutator throws, or gives its document, \<open>None\<close> for an absent one, whether to write it,
  and its result. A transaction throws the store's error or the mutator's, or the machine stops.
\<close>

datatype 'e transaction_error = StoreThrew settings_error | MutatorThrew 'e | MachineStopped

definition transact_settings ::
  "bool \<Rightarrow> (io_call \<Rightarrow> io) \<Rightarrow> jsval \<Rightarrow> (jsval \<Rightarrow> 'e + jsval option \<times> bool \<times> 'r) \<Rightarrow> store_files \<Rightarrow>
     store_files \<times> ('e transaction_error + 'r)" where
  "transact_settings win32 io defaultValue mutator fs =
     (case read_settings defaultValue fs of
        Inl e \<Rightarrow> (fs, Inl (StoreThrew e))
      | Inr current \<Rightarrow>
          (case mutator current of
             Inl e \<Rightarrow> (fs, Inl (MutatorThrew e))
           | Inr (doc, write, result) \<Rightarrow>
               (case assertObject (Some (case doc of None \<Rightarrow> current | Some d \<Rightarrow> d)) of
                  Inl e \<Rightarrow> (fs, Inl (StoreThrew e))
                | Inr next_document \<Rightarrow>
                    if \<not> write then (fs, Inr result)
                    else (case writeUnlocked win32 io next_document fs of
                            (fs, Written) \<Rightarrow> (fs, Inr result)
                          | (fs, Threw e) \<Rightarrow> (fs, Inl (StoreThrew e))
                          | (fs, Stopped) \<Rightarrow> (fs, Inl MachineStopped)))))"

text \<open>\<open>update\<close>: the mutator gives a document or nothing; its own \<open>assertObject\<close> throws as the mutator does.\<close>

definition update_settings ::
  "bool \<Rightarrow> (io_call \<Rightarrow> io) \<Rightarrow> jsval \<Rightarrow> (jsval \<Rightarrow> settings_error + jsval option) \<Rightarrow> store_files \<Rightarrow>
     store_files \<times> (settings_error transaction_error + jsval)" where
  "update_settings win32 io defaultValue mutator fs =
     transact_settings win32 io defaultValue
       (\<lambda>current. obind (mutator current) (\<lambda>doc.
          obind (assertObject (Some (case doc of None \<Rightarrow> current | Some d \<Rightarrow> d))) (\<lambda>d. Inr (Some d, True, d)))) fs"

definition replace_settings ::
  "bool \<Rightarrow> (io_call \<Rightarrow> io) \<Rightarrow> jsval \<Rightarrow> store_files \<Rightarrow> store_files \<times> (settings_error transaction_error + jsval)" where
  "replace_settings win32 io settings fs =
     (case writeUnlocked win32 io settings fs of
        (fs, Written) \<Rightarrow> (fs, Inr settings)
      | (fs, Threw e) \<Rightarrow> (fs, Inl (StoreThrew e))
      | (fs, Stopped) \<Rightarrow> (fs, Inl MachineStopped))"

section \<open>The lock excludes while nobody dies\<close>

text \<open>A process that owns the lock: it created the file and has not removed it.\<close>

fun owning :: "phase \<Rightarrow> bool" where
  "owning (Opened n t) = True"
| "owning (Holding n t) = True"
| "owning (Removing n) = True"
| "owning ph = False"

text \<open>
  The invariant, with the process \<open>h\<close> that owns the lock: the path holds its file, with its content as far as it
  has come; all others own nothing and found no abandoned lock.
\<close>

fun file_ok :: "int \<Rightarrow> phase \<Rightarrow> nat \<Rightarrow> (int \<times> string) option \<Rightarrow> bool" where
  "file_ok p (Opened m t) n c = (m = n \<and> c = None)"
| "file_ok p (Holding m t) n c = (m = n \<and> c = Some (p, t))"
| "file_ok p (Removing m) n c = (\<exists>t. c = Some (p, t))"
| "file_ok p ph n c = False"

definition owned_by :: "lock_world \<Rightarrow> int option \<Rightarrow> bool" where
  "owned_by w h \<longleftrightarrow>
     (case h of
        None \<Rightarrow> lockFile w = None
      | Some p \<Rightarrow> p \<in> running w \<and> (\<exists>n. lockFile w = Some n \<and> file_ok p (phases w p) n (inode w n)))"

definition lock_inv :: "int set \<Rightarrow> int option \<Rightarrow> lock_world \<Rightarrow> bool" where
  "lock_inv pids h w \<longleftrightarrow>
     running w = pids \<and> owned_by w h \<and> (\<forall>p. phases w p \<noteq> Abandoned \<and> (owning (phases w p) \<longrightarrow> h = Some p))"

fun calm :: "lock_event \<Rightarrow> bool" where
  "calm (Dies p) = False"
| "calm (Write_Fails p) = True"
| "calm (Proceed p token stale) = (\<not> stale)"

lemma lock_inv_start: "lock_inv pids None (lock_start pids)"
  by (simp add: lock_inv_def owned_by_def lock_start_def)

lemma file_ok_owner: "file_ok p ph n (Some (q, t)) \<Longrightarrow> q = p"
  by (cases ph) auto

lemmas lock_inv_defs = lock_inv_def owned_by_def set_phase_def

lemma not_owner: "lock_inv pids h w \<Longrightarrow> \<not> owning (phases w p) \<Longrightarrow> h \<noteq> Some p"
  by (cases "phases w p") (auto simp: lock_inv_defs)

lemma lock_inv_open:
  assumes "lock_inv pids h w" "phases w p = Idle" "p \<in> pids"
  shows "lock_inv pids (if h = None then Some p else h) (open_lock p token w)"
  using assms not_owner [OF assms(1), of p]
  by (cases h) (auto simp: open_lock_def lock_inv_defs split: if_splits)

lemma lock_inv_quiet:
  assumes "lock_inv pids h w" "\<not> owning (phases w p)" "\<not> owning ph" "ph \<noteq> Abandoned"
  shows "lock_inv pids h (set_phase p ph w)"
  using assms not_owner [OF assms(1,2)] by (cases h) (auto simp: lock_inv_defs split: if_splits)

lemma lock_inv_read:
  assumes "lock_inv pids h w" "phases w p = Checking" "\<forall>p \<in> pids. 0 < p \<and> p \<le> 2 ^ 53 - 1"
  shows "lock_inv pids h (read_owner p w)"
proof -
  have "processIsAlive (Some (kill_running w)) q" if "lockFile w = Some n" "inode w n = Some (q, t)" for n q t
    using that assms(1,3)
    by (cases h) (auto simp: processIsAlive_def kill_running_def lock_inv_defs dest: file_ok_owner)
  then show ?thesis
    using lock_inv_quiet [OF assms(1), of p] assms(2) by (auto simp: read_owner_def split: option.split)
qed

lemma lock_inv_stat:
  "lock_inv pids h w \<Longrightarrow> phases w p = Stating \<Longrightarrow> lock_inv pids h (stat_lock p False w)"
  using lock_inv_quiet [of pids h w p Idle] by (auto simp: stat_lock_def split: option.split)

lemma lock_inv_owner:
  assumes "lock_inv pids (Some p) w"
  shows "phases w p = Opened n t \<Longrightarrow> lock_inv pids (Some p) (write_owner p n t w)"
    and "phases w p = Holding n t \<Longrightarrow> lock_inv pids (Some p) (check_release p t w)"
    and "lock_inv pids None (remove_lock p w)"
  using assms by (auto simp: write_owner_def check_release_def remove_lock_def lock_inv_defs split: if_splits)

lemma lock_inv_step:
  assumes "lock_inv pids h w" "calm ev" "\<forall>p \<in> pids. 0 < p \<and> p \<le> 2 ^ 53 - 1"
  shows "\<exists>h. lock_inv pids h (lock_step ev w)"
proof (cases ev)
  case (Proceed p token stale)
  show ?thesis
  proof (cases "p \<in> running w")
    case False
    with assms(1) Proceed show ?thesis by (auto simp: lock_step_def)
  next
    case True
    then have p: "p \<in> pids" using assms(1) by (simp add: lock_inv_def)
    have own: "owning (phases w p) \<Longrightarrow> lock_inv pids (Some p) w" and none: "phases w p \<noteq> Abandoned"
      using assms(1) by (auto simp: lock_inv_def)
    show ?thesis
      using True Proceed own none assms p lock_inv_open [OF assms(1) _ p] lock_inv_read [OF assms(1) _ assms(3)]
        lock_inv_stat [OF assms(1)] lock_inv_owner
      by (cases "phases w p") (fastforce simp: lock_step_def)+
  qed
next
  case (Write_Fails p)
  have "lock_inv pids None (remove_lock p w)" if "phases w p = Opened n t" for n t
  proof (rule lock_inv_owner(3))
    have "h = Some p" using assms(1) that by (auto simp: lock_inv_def)
    with assms(1) show "lock_inv pids (Some p) w" by simp
  qed
  with assms(1) Write_Fails show ?thesis by (cases "phases w p") (auto simp: lock_step_def)
qed (use assms in simp)

lemma lock_inv_run:
  "list_all calm evs \<Longrightarrow> \<forall>p \<in> pids. 0 < p \<and> p \<le> 2 ^ 53 - 1 \<Longrightarrow> \<exists>h. lock_inv pids h (lock_run pids evs)"
proof (induction evs rule: rev_induct)
  case Nil
  then show ?case using lock_inv_start by (auto simp: lock_run_def)
next
  case (snoc ev evs)
  then show ?case using lock_inv_step by (auto simp: lock_run_def)
qed

section \<open>Documents survive\<close>

lemma read_temporary [simp]: "read_settings d (fs\<lparr>temporary := v\<rparr>) = read_settings d fs"
  by (simp add: read_settings_def split: option.split)

lemma read_document [simp]: "read_settings d (fs\<lparr>document := Some v\<rparr>) = assertObject v"
  by (simp add: read_settings_def)

lemma install_atomic:
  assumes "install io moved fs = (fs', res)" "temporary fs = Some (Some new)" "assertObject (Some new) = Inr new"
    and "moved \<Longrightarrow> document fs = None \<and> previous fs \<noteq> None"
  shows "read_settings d fs' \<in> {read_settings d fs, Inr new} \<and> (res = Written \<longrightarrow> document fs' = Some (Some new))"
  using assms
  by (auto simp: install_def io_step_def read_settings_def Let_def split: io.splits if_splits)

lemma replaceFile_atomic:
  assumes "replaceFile win32 io fs = (fs', res)" "temporary fs = Some (Some new)" "assertObject (Some new) = Inr new"
    and "document fs \<noteq> None \<or> previous fs = None"
  shows "read_settings d fs' \<in> {read_settings d fs, Inr new} \<and> (res = Written \<longrightarrow> document fs' = Some (Some new))"
proof -
  let ?cleared = "fs\<lparr>previous := None\<rparr>"
  have same: "read_settings d ?cleared = read_settings d fs"
    using assms(4) by (auto simp: read_settings_def split: option.split)
  have moved: "read_settings d (fs\<lparr>previous := document fs, document := None\<rparr>) = read_settings d fs"
    if "document fs = Some v" for v
    using that by (simp add: read_settings_def)
  show ?thesis
    using assms same moved install_atomic [of io False ?cleared fs' res new d]
      install_atomic [of io True "fs\<lparr>previous := document fs, document := None\<rparr>" fs' res new d]
    by (auto simp: replaceFile_def io_step_def Let_def split: io.splits if_splits)
qed

section \<open>The interface\<close>

text \<open>
  What a client of the store relies on. \<open>fit\<close> is the state the store promises something for, \<open>current\<close> the document a
  read gives; a transaction commits what its mutator says, or leaves the files as they were when the mutator throws, or
  fails and leaves the old document or the one it would have committed.
\<close>

locale document_store =
  fixes fit :: "'f \<Rightarrow> bool"
    and current :: "'f \<Rightarrow> jsval option"
    and run :: "(jsval \<Rightarrow> 'e + jsval option \<times> bool \<times> 'r) \<Rightarrow> 'f \<Rightarrow> 'f \<times> ('e transaction_error + 'r)"
  assumes committed: "fit fs \<Longrightarrow> run m fs = (fs', Inr r) \<Longrightarrow>
      \<exists>v doc write. current fs = Some v \<and> m v = Inr (doc, write, r) \<and> fit fs' \<and>
        current fs' = Some (if write then (case doc of None \<Rightarrow> v | Some d \<Rightarrow> d) else v)"
    and mutator_threw: "run m fs = (fs', Inl (MutatorThrew e)) \<Longrightarrow> fs' = fs \<and> (\<exists>v. current fs = Some v \<and> m v = Inl e)"
    and store_failed: "fit fs \<Longrightarrow> run m fs = (fs', Inl err) \<Longrightarrow>
      current fs' = current fs \<or> (\<exists>v doc r. current fs = Some v \<and> m v = Inr (doc, True, r) \<and>
        current fs' = Some (case doc of None \<Rightarrow> v | Some d \<Rightarrow> d))"

definition fit_files :: "store_files \<Rightarrow> bool" where
  "fit_files fs \<longleftrightarrow> document fs \<noteq> None \<or> previous fs = None"

definition current_document :: "jsval \<Rightarrow> store_files \<Rightarrow> jsval option" where
  "current_document d fs = (case read_settings d fs of Inl e \<Rightarrow> None | Inr v \<Rightarrow> Some v)"

lemma assertObject_same: "assertObject (Some v) = Inr w \<Longrightarrow> w = v"
  by (auto simp: assertObject_def split: if_splits)

lemma read_settings_object: "read_settings d fs = Inr v \<Longrightarrow> assertObject (Some v) = Inr v"
  by (auto simp: read_settings_def assertObject_def split: option.splits if_splits)

lemma writeUnlocked_atomic:
  assumes "writeUnlocked win32 io new fs = (fs', res)" "fit_files fs"
  shows "read_settings d fs' \<in> {read_settings d fs, Inr new} \<and>
    (res = Written \<longrightarrow> read_settings d fs' = Inr new \<and> fit_files fs')"
proof (cases "assertObject (Some new)")
  case (Inl e)
  with assms(1) show ?thesis by (auto simp: writeUnlocked_def)
next
  case (Inr v)
  then have new: "assertObject (Some new) = Inr new" using assertObject_same by blast
  let ?fs = "fs\<lparr>temporary := Some (Some new)\<rparr>"
  obtain gs r where rep: "replaceFile win32 io ?fs = (gs, r)" by fastforce
  have "read_settings d gs \<in> {read_settings d fs, Inr new} \<and> (r = Written \<longrightarrow> document gs = Some (Some new))"
    using replaceFile_atomic [OF rep _ new, of d] assms(2) by (auto simp: fit_files_def)
  then have "read_settings d gs \<in> {read_settings d fs, Inr new}" "r = Written \<Longrightarrow> read_settings d gs = Inr new \<and> fit_files gs"
    using new by (auto simp: read_settings_def [of d gs] fit_files_def)
  moreover have "fit_files (x\<lparr>temporary := t\<rparr>) = fit_files x" for x t by (simp add: fit_files_def)
  ultimately show ?thesis
    using assms(1) rep new
    by (auto simp: writeUnlocked_def io_step_def cleanup_def Let_def split: io.splits if_splits write_result.splits)
qed

text \<open>A transaction leaves the files alone, with an error or a result that is not to be written, or writes.\<close>

lemma transact_cases:
  assumes "transact_settings win32 io d m fs = (fs', res)"
  shows "(fs' = fs \<and> (\<exists>e. res = Inl (StoreThrew e)))
    \<or> (fs' = fs \<and> (\<exists>v e. read_settings d fs = Inr v \<and> m v = Inl e \<and> res = Inl (MutatorThrew e)))
    \<or> (fs' = fs \<and> (\<exists>v doc r. read_settings d fs = Inr v \<and> m v = Inr (doc, False, r) \<and> res = Inr r))
    \<or> (\<exists>v doc r w. read_settings d fs = Inr v \<and> m v = Inr (doc, True, r) \<and>
        writeUnlocked win32 io (case doc of None \<Rightarrow> v | Some d \<Rightarrow> d) fs = (fs', w) \<and>
        res = (case w of Written \<Rightarrow> Inr r | Threw e \<Rightarrow> Inl (StoreThrew e) | Stopped \<Rightarrow> Inl MachineStopped))"
proof (cases "read_settings d fs")
  case (Inr v)
  note read = this
  show ?thesis
  proof (cases "m v")
    case (Inr q)
    obtain doc wr r where q: "m v = Inr (doc, wr, r)" using Inr by (cases q) auto
    let ?new = "case doc of None \<Rightarrow> v | Some d \<Rightarrow> d"
    show ?thesis
    proof (cases "assertObject (Some ?new)")
      case (Inl e)
      with read q assms show ?thesis by (auto simp: transact_settings_def)
    next
      case (Inr n)
      then have n: "assertObject (Some ?new) = Inr ?new" using assertObject_same by metis
      obtain gs w where w: "writeUnlocked win32 io ?new fs = (gs, w)" by fastforce
      show ?thesis
        using assms read q n w by (cases wr; cases w) (simp_all add: transact_settings_def)
    qed
  qed (use assms read in \<open>auto simp: transact_settings_def\<close>)
qed (use assms in \<open>auto simp: transact_settings_def\<close>)

lemma transact_written:
  assumes "writeUnlocked win32 io n fs = (fs', w)" "fit_files fs" "read_settings d fs = Inr v"
  shows "w = Written \<Longrightarrow> current_document d fs' = Some n \<and> fit_files fs'"
    and "current_document d fs' = Some v \<or> current_document d fs' = Some n"
  using writeUnlocked_atomic [OF assms(1,2), of d] assms(3) by (auto simp: current_document_def)

interpretation settings_file: document_store fit_files "current_document d" "transact_settings win32 io d" for win32 io d
proof
  fix fs fs' m r
  assume fit: "fit_files fs" and run: "transact_settings win32 io d m fs = (fs', Inr r)"
  show "\<exists>v doc write. current_document d fs = Some v \<and> m v = Inr (doc, write, r) \<and> fit_files fs' \<and>
      current_document d fs' = Some (if write then (case doc of None \<Rightarrow> v | Some d \<Rightarrow> d) else v)"
    using transact_cases [OF run]
  proof (elim disjE exE conjE)
    fix v doc r' w
    assume "read_settings d fs = Inr v" "m v = Inr (doc, True, r')"
      and w: "writeUnlocked win32 io (case doc of None \<Rightarrow> v | Some d \<Rightarrow> d) fs = (fs', w)"
      and "Inr r = (case w of Written \<Rightarrow> Inr r' | Threw e \<Rightarrow> Inl (StoreThrew e) | Stopped \<Rightarrow> Inl MachineStopped)"
    with transact_written(1) [OF w fit] show ?thesis
      by (cases w) (auto simp: current_document_def)
  qed (use fit in \<open>auto simp: current_document_def\<close>)
next
  fix fs fs' m e
  assume "transact_settings win32 io d m fs = (fs', Inl (MutatorThrew e))"
  from transact_cases [OF this] show "fs' = fs \<and> (\<exists>v. current_document d fs = Some v \<and> m v = Inl e)"
    by (elim disjE exE conjE) (auto simp: current_document_def split: write_result.splits)
next
  fix fs fs' m err
  assume fit: "fit_files fs" and run: "transact_settings win32 io d m fs = (fs', Inl err)"
  show "current_document d fs' = current_document d fs \<or>
      (\<exists>v doc r. current_document d fs = Some v \<and> m v = Inr (doc, True, r) \<and>
        current_document d fs' = Some (case doc of None \<Rightarrow> v | Some d \<Rightarrow> d))"
    using transact_cases [OF run]
  proof (elim disjE exE conjE)
    fix v doc r' w
    assume read: "read_settings d fs = Inr v" and m: "m v = Inr (doc, True, r')"
      and w: "writeUnlocked win32 io (case doc of None \<Rightarrow> v | Some d \<Rightarrow> d) fs = (fs', w)"
    from transact_written(2) [OF w fit read] read m show ?thesis
      by (auto simp: current_document_def)
  qed auto
qed

section \<open>Properties\<close>







end
