(* ===== verification/Ssrf_Policy.thy ===== *)
theory Ssrf_Policy
  imports Recovery_State
begin

unbundle bit_operations_syntax

text \<open>
  The address policy of web fetches, \<^verbatim>\<open>src/packages/web/application-host/lib/harness/ssrf-policy.ts\<close>.

  Host names are ASCII strings, as the URL parser leaves them. \<open>node:net\<close>'s \<open>isIP\<close> is the argument \<open>isIP\<close>, giving
  4, 6 or 0; the URL parser is the argument \<open>parse_url\<close>, giving protocol and host name or \<open>None\<close> when it throws.
  Bytes of an address are naturals, \<open>b ! i\<close> being \<open>b[i]\<close>; an array of fewer than sixteen does not arise for a valid
  literal, and \<open>byte\<close> reads 256, which equals no byte, where JavaScript reads \<open>undefined\<close>.
\<close>

section \<open>Operations\<close>

datatype SsrfBlockReason = PrivateNetwork | Scheme | SpecialPurposeRange

datatype EgressAddressClass = Public | Private | SpecialPurpose

definition to_lower :: "char \<Rightarrow> char" where
  "to_lower c = (let n = of_char c :: nat in if 65 \<le> n \<and> n \<le> 90 then char_of (n + 32) else c)"

definition trim_space :: "string \<Rightarrow> string" where
  "trim_space s = rev (dropWhile js_space (rev (dropWhile js_space s)))"

definition normalizeIpLiteral :: "string \<Rightarrow> string" where
  "normalizeIpLiteral host =
     (let h = map to_lower (trim_space host);
          h = (if prefix ''['' h \<and> suffix '']'' h then take (length h - 2) (drop 1 h) else h)
      in takeWhile (\<lambda>c. c \<noteq> CHR ''%'') h)"

definition decimal_value :: "string \<Rightarrow> nat" where
  "decimal_value s = foldl (\<lambda>n c. n * 10 + (of_char c - 48)) 0 s"

definition octet_text :: "string \<Rightarrow> bool" where
  "octet_text s \<longleftrightarrow> s \<noteq> [] \<and> length s \<le> 3 \<and> list_all is_digit s"

text \<open>The decision on the octets, for a text that matches the dotted form, and the text.\<close>

definition classify_octets :: "nat \<Rightarrow> nat \<Rightarrow> nat \<Rightarrow> EgressAddressClass" where
  "classify_octets a b c =
     (if a = 0 \<or> a = 127 \<or> a = 10 then Private
      else if a = 169 \<and> b = 254 then Private
      else if a = 172 \<and> b \<ge> 16 \<and> b \<le> 31 then Private
      else if a = 192 \<and> b = 168 then Private
      else if a = 100 \<and> b \<ge> 64 \<and> b \<le> 127 then Private
      else if a = 198 \<and> (b = 18 \<or> b = 19) then SpecialPurpose
      else if a \<ge> 224 then SpecialPurpose
      else if a = 192 \<and> b = 0 \<and> c = 2 then SpecialPurpose
      else if a = 198 \<and> b = 51 \<and> c = 100 then SpecialPurpose
      else if a = 203 \<and> b = 0 \<and> c = 113 then SpecialPurpose
      else Public)"

definition classifyIpv4 :: "string \<Rightarrow> EgressAddressClass" where
  "classifyIpv4 ip =
     (case split_on (CHR ''.'') ip of
        [a, b, c, d] \<Rightarrow>
          if list_all octet_text [a, b, c, d]
          then classify_octets (decimal_value a) (decimal_value b) (decimal_value c) else Public
      | _ \<Rightarrow> Public)"

text \<open>
  The dotted tail \<^verbatim>\<open>(\d{1,3}\.\d{1,3}\.\d{1,3}\.\d{1,3})$\<close>. The literal is validated, so a dotted tail starts after the
  last colon.
\<close>

definition after_last_colon :: "string \<Rightarrow> string" where
  "after_last_colon s = rev (takeWhile (\<lambda>c. c \<noteq> CHR '':'') (rev s))"

definition v4_tail :: "string \<Rightarrow> string option" where
  "v4_tail ip =
     (let t = after_last_colon ip
      in case split_on (CHR ''.'') t of
           [a, b, c, d] \<Rightarrow> if list_all octet_text [a, b, c, d] then Some t else None
         | _ \<Rightarrow> None)"

fun hex_text :: "nat \<Rightarrow> string" where
  "hex_text n = (if n < 16 then [hex_char n] else hex_text (n div 16) @ [hex_char (n mod 16)])"

declare hex_text.simps [simp del]

definition hex_number :: "string \<Rightarrow> nat" where
  "hex_number s = foldl (\<lambda>n c. n * 16 + hex_value c) 0 s"

text \<open>\<open>expanded.split("::")\<close>, of which the code takes the first two pieces.\<close>

fun split_elision :: "string \<Rightarrow> string \<times> string option" where
  "split_elision [] = ([], None)"
| "split_elision (c # s) =
     (if c = CHR '':'' \<and> take 1 s = '':'' then ([], Some (drop 1 s))
      else case split_elision s of (left, right) \<Rightarrow> (c # left, right))"

definition before_elision :: "string \<Rightarrow> string" where
  "before_elision s = fst (split_elision s)"

definition expand_v4_tail :: "string \<Rightarrow> string" where
  "expand_v4_tail ip =
     (case v4_tail ip of
        None \<Rightarrow> ip
      | Some t \<Rightarrow>
          (case map decimal_value (split_on (CHR ''.'') t) of
             [a, b, c, d] \<Rightarrow>
               take (length ip - length t) ip @ hex_text (a * 256 + b) @ '':'' @ hex_text (c * 256 + d)
           | _ \<Rightarrow> ip))"

text \<open>\<open>text ? text.split(":") : []\<close>\<close>

definition group_pieces :: "string \<Rightarrow> string list" where
  "group_pieces s = (if s = [] then [] else split_on (CHR '':'') s)"

definition ipv6Bytes :: "string \<Rightarrow> nat list" where
  "ipv6Bytes ip =
     (let (left, right) = split_elision (expand_v4_tail ip);
          head = group_pieces left;
          tail = (case right of None \<Rightarrow> [] | Some r \<Rightarrow> group_pieces (before_elision r));
          groups = (if right \<noteq> None then head @ replicate (8 - length head - length tail) ''0'' @ tail else head)
      in concat (map (\<lambda>group. let n = hex_number group in [n div 256, n mod 256]) groups))"

definition byte :: "nat list \<Rightarrow> nat \<Rightarrow> nat" where
  "byte b i = (if i < length b then b ! i else 256)"

definition zeros :: "nat \<Rightarrow> nat \<Rightarrow> nat list \<Rightarrow> bool" where
  "zeros from stop b \<longleftrightarrow> list_all (\<lambda>n. n = 0) (drop from (take stop b))"

definition embeddedIpv4Class :: "nat list \<Rightarrow> nat \<Rightarrow> EgressAddressClass" where
  "embeddedIpv4Class b offset = classifyIpv4 (join_with ''.'' (map dec (take 4 (drop offset b))))"

definition classify_bytes :: "nat list \<Rightarrow> EgressAddressClass" where
  "classify_bytes b =
     (if zeros 0 15 b \<and> (byte b 15 = 0 \<or> byte b 15 = 1) then Private
      else if byte b 0 = 0xfc \<or> byte b 0 = 0xfd then Private
      else if byte b 0 = 0xfe \<and> byte b 1 AND 0xc0 = 0x80 then Private
      else if byte b 0 = 0xff then SpecialPurpose
      else if zeros 0 10 b \<and> byte b 10 = 0xff \<and> byte b 11 = 0xff then embeddedIpv4Class b 12
      else if zeros 0 8 b \<and> byte b 8 = 0xff \<and> byte b 9 = 0xff \<and> byte b 10 = 0 \<and> byte b 11 = 0
        then embeddedIpv4Class b 12
      else if zeros 0 12 b then embeddedIpv4Class b 12
      else if byte b 0 = 0 \<and> byte b 1 = 0x64 \<and> byte b 2 = 0xff \<and> byte b 3 = 0x9b \<and> zeros 4 12 b
        then embeddedIpv4Class b 12
      else if byte b 0 = 0 \<and> byte b 1 = 0x64 \<and> byte b 2 = 0xff \<and> byte b 3 = 0x9b \<and> byte b 4 = 0 \<and> byte b 5 = 1
        then SpecialPurpose
      else if byte b 0 = 0x20 \<and> byte b 1 = 0x02 then embeddedIpv4Class b 2
      else if byte b 0 = 0x20 \<and> byte b 1 = 0x01 \<and> byte b 2 = 0 \<and> byte b 3 = 2 \<and> byte b 4 = 0 \<and> byte b 5 = 0
        then SpecialPurpose
      else if byte b 0 = 0x20 \<and> byte b 1 = 0x01 \<and> byte b 2 = 0x0d \<and> byte b 3 = 0xb8 then SpecialPurpose
      else if byte b 0 = 0x3f \<and> byte b 1 = 0xff \<and> byte b 2 AND 0xf0 = 0 then SpecialPurpose
      else if byte b 0 = 0x01 \<and> zeros 1 8 b then SpecialPurpose
      else Public)"

definition classifyIpv6 :: "string \<Rightarrow> EgressAddressClass" where
  "classifyIpv6 ip = classify_bytes (ipv6Bytes (normalizeIpLiteral ip))"

definition classifyIp :: "(string \<Rightarrow> nat) \<Rightarrow> string \<Rightarrow> EgressAddressClass" where
  "classifyIp isIP ip =
     (let normalized = normalizeIpLiteral ip; k = isIP normalized
      in if k = 4 then classifyIpv4 normalized
         else if k = 6 then classifyIpv6 normalized
         else Public)"

definition drop_trailing_dots :: "string \<Rightarrow> string" where
  "drop_trailing_dots s = rev (dropWhile (\<lambda>c. c = CHR ''.'') (rev s))"

definition classifyHostname :: "(string \<Rightarrow> nat) \<Rightarrow> string \<Rightarrow> SsrfBlockReason option" where
  "classifyHostname isIP hostname =
     (let host = drop_trailing_dots (normalizeIpLiteral hostname)
      in if host = ''localhost'' \<or> suffix ''.localhost'' host \<or> suffix ''.local'' host then Some PrivateNetwork
         else if isIP host = 0 then None
         else case classifyIp isIP host of
                Private \<Rightarrow> Some PrivateNetwork
              | SpecialPurpose \<Rightarrow> Some SpecialPurposeRange
              | Public \<Rightarrow> None)"

text \<open>The result is the reason for which the URL is blocked.\<close>

definition checkSsrf ::
  "(string \<Rightarrow> (string \<times> string) option) \<Rightarrow> (string \<Rightarrow> nat) \<Rightarrow> string \<Rightarrow> SsrfBlockReason option" where
  "checkSsrf parse_url isIP url =
     (case parse_url url of
        None \<Rightarrow> Some Scheme
      | Some (protocol, hostname) \<Rightarrow>
          if protocol \<noteq> ''http:'' \<and> protocol \<noteq> ''https:'' then Some Scheme
          else classifyHostname isIP hostname)"

definition isSameHost :: "(string \<Rightarrow> (string \<times> string) option) \<Rightarrow> string \<Rightarrow> string \<Rightarrow> bool" where
  "isSameHost parse_url url1 url2 =
     (case (parse_url url1, parse_url url2) of
        (Some (_, h1), Some (_, h2)) \<Rightarrow> h1 = h2
      | _ \<Rightarrow> False)"

section \<open>Specification\<close>

text \<open>The ranges of the policy as address prefixes, and the 32 bit address of four octets.\<close>

definition address4 :: "nat \<Rightarrow> nat \<Rightarrow> nat \<Rightarrow> nat \<Rightarrow> nat" where
  "address4 a b c d = ((a * 256 + b) * 256 + c) * 256 + d"

definition in_prefix :: "nat \<Rightarrow> nat \<times> nat \<Rightarrow> bool" where
  "in_prefix addr p = (case p of (base, len) \<Rightarrow> addr div 2 ^ (32 - len) = base div 2 ^ (32 - len))"

definition private_prefixes :: "(nat \<times> nat) list" where
  "private_prefixes =
     [(address4 0 0 0 0, 8), (address4 10 0 0 0, 8), (address4 127 0 0 0, 8), (address4 169 254 0 0, 16),
      (address4 172 16 0 0, 12), (address4 192 168 0 0, 16), (address4 100 64 0 0, 10)]"

definition special_prefixes :: "(nat \<times> nat) list" where
  "special_prefixes =
     [(address4 198 18 0 0, 15), (address4 224 0 0 0, 3), (address4 192 0 2 0, 24), (address4 198 51 100 0, 24),
      (address4 203 0 113 0, 24)]"

definition policy4 :: "nat \<Rightarrow> EgressAddressClass" where
  "policy4 addr =
     (if list_ex (in_prefix addr) private_prefixes then Private
      else if list_ex (in_prefix addr) special_prefixes then SpecialPurpose
      else Public)"

text \<open>
  The text forms of an IPv6 address: groups of hexadecimal digits, at most one elision, and perhaps the last 32 bits
  in dotted form.
\<close>

record ipv6_text =
  head_groups :: "string list"
  elided :: bool
  tail_groups :: "string list"
  dotted :: "(nat \<times> nat \<times> nat \<times> nat) option"

definition dotted_text :: "nat \<Rightarrow> nat \<Rightarrow> nat \<Rightarrow> nat \<Rightarrow> string" where
  "dotted_text a b c d = join_with ''.'' [dec a, dec b, dec c, dec d]"

fun dotted_part :: "(nat \<times> nat \<times> nat \<times> nat) option \<Rightarrow> string list" where
  "dotted_part None = []"
| "dotted_part (Some (a, b, c, d)) = [dotted_text a b c d]"

fun dotted_groups :: "(nat \<times> nat \<times> nat \<times> nat) option \<Rightarrow> string list" where
  "dotted_groups None = []"
| "dotted_groups (Some (a, b, c, d)) = [hex_text (a * 256 + b), hex_text (c * 256 + d)]"

definition group_text :: "string \<Rightarrow> bool" where
  "group_text g \<longleftrightarrow> g \<noteq> [] \<and> length g \<le> 4 \<and> list_all hex_digit g"

definition valid_text :: "ipv6_text \<Rightarrow> bool" where
  "valid_text t \<longleftrightarrow>
     list_all group_text (head_groups t) \<and> list_all group_text (tail_groups t) \<and>
     (case dotted t of None \<Rightarrow> True | Some (a, b, c, d) \<Rightarrow> a < 256 \<and> b < 256 \<and> c < 256 \<and> d < 256) \<and>
     (let n = length (head_groups t) + length (tail_groups t) + length (dotted_groups (dotted t))
      in if elided t then n \<le> 7 else tail_groups t = [] \<and> n = 8)"

definition show_text :: "ipv6_text \<Rightarrow> string" where
  "show_text t =
     (if elided t
      then join_with '':'' (head_groups t) @ ''::'' @ join_with '':'' (tail_groups t @ dotted_part (dotted t))
      else join_with '':'' (head_groups t @ dotted_part (dotted t)))"

definition text_groups :: "ipv6_text \<Rightarrow> string list" where
  "text_groups t =
     (let tail = tail_groups t @ dotted_groups (dotted t)
      in head_groups t @ replicate (8 - length (head_groups t) - length tail) ''0'' @ tail)"

definition text_bytes :: "ipv6_text \<Rightarrow> nat list" where
  "text_bytes t = concat (map (\<lambda>g. [hex_number g div 256, hex_number g mod 256]) (text_groups t))"

section \<open>IPv4\<close>

lemma address4_div:
  assumes "a < 256" "b < 256" "c < 256" "d < 256"
  shows "address4 a b c d div 2 ^ 24 = a" "address4 a b c d div 2 ^ 16 = a * 256 + b"
    "address4 a b c d div 2 ^ 8 = (a * 256 + b) * 256 + c"
proof -
  have one: "address4 a b c d div 2 ^ 8 = (a * 256 + b) * 256 + c" using assms by (simp add: address4_def)
  have "address4 a b c d div 2 ^ 16 = address4 a b c d div 2 ^ 8 div 2 ^ 8" by (simp add: div_mult2_eq [symmetric])
  also have "\<dots> = a * 256 + b" unfolding one using assms by simp
  finally have two: "address4 a b c d div 2 ^ 16 = a * 256 + b" .
  have "address4 a b c d div 2 ^ 24 = address4 a b c d div 2 ^ 16 div 2 ^ 8" by (simp add: div_mult2_eq [symmetric])
  also have "\<dots> = a" unfolding two using assms by simp
  finally show "address4 a b c d div 2 ^ 24 = a" .
  show "address4 a b c d div 2 ^ 16 = a * 256 + b" "address4 a b c d div 2 ^ 8 = (a * 256 + b) * 256 + c"
    by (rule two, rule one)
qed

lemma address4_div_more:
  assumes "a < 256" "b < 256" "c < 256" "d < 256"
  shows "address4 a b c d div 2 ^ 20 = a * 16 + b div 16" "address4 a b c d div 2 ^ 22 = a * 4 + b div 64"
    "address4 a b c d div 2 ^ 17 = a * 128 + b div 2" "address4 a b c d div 2 ^ 29 = a div 32"
proof -
  have high: "address4 a b c d div 2 ^ (16 + k) = (a * 256 + b) div 2 ^ k" for k
    using address4_div(2) [OF assms] by (simp only: power_add div_mult2_eq)
  have split: "a * 256 + b = b + 16 * (a * 16)" "a * 256 + b = b + 64 * (a * 4)" "a * 256 + b = b + 2 * (a * 128)"
    by simp_all
  show "address4 a b c d div 2 ^ 20 = a * 16 + b div 16"
    using high [of 4] unfolding split(1) by simp
  show "address4 a b c d div 2 ^ 22 = a * 4 + b div 64"
    using high [of 6] unfolding split(2) by simp
  show "address4 a b c d div 2 ^ 17 = a * 128 + b div 2"
    using high [of 1] unfolding split(3) by simp
  have "address4 a b c d div 2 ^ (24 + 5) = address4 a b c d div 2 ^ 24 div 2 ^ 5"
    by (simp only: power_add div_mult2_eq)
  then show "address4 a b c d div 2 ^ 29 = a div 32"
    using address4_div(1) [OF assms] by simp
qed

lemma in_prefix_octets:
  assumes "a < 256" "b < 256" "c < 256" "d < 256" "p < 256" "q < 256" "r < 256" "s < 256"
  shows "in_prefix (address4 a b c d) (address4 p q r s, 3) \<longleftrightarrow> a div 32 = p div 32"
    and "in_prefix (address4 a b c d) (address4 p q r s, 8) \<longleftrightarrow> a = p"
    and "in_prefix (address4 a b c d) (address4 p q r s, 10) \<longleftrightarrow> a = p \<and> b div 64 = q div 64"
    and "in_prefix (address4 a b c d) (address4 p q r s, 12) \<longleftrightarrow> a = p \<and> b div 16 = q div 16"
    and "in_prefix (address4 a b c d) (address4 p q r s, 15) \<longleftrightarrow> a = p \<and> b div 2 = q div 2"
    and "in_prefix (address4 a b c d) (address4 p q r s, 16) \<longleftrightarrow> a = p \<and> b = q"
    and "in_prefix (address4 a b c d) (address4 p q r s, 24) \<longleftrightarrow> a = p \<and> b = q \<and> c = r"
proof -
  have sub: "32 - 3 = (29 :: nat)" "32 - 8 = (24 :: nat)" "32 - 10 = (22 :: nat)" "32 - 12 = (20 :: nat)"
    "32 - 15 = (17 :: nat)" "32 - 16 = (16 :: nat)" "32 - 24 = (8 :: nat)" by simp_all
  have pair: "x * m + y = x' * m + y' \<longleftrightarrow> x = x' \<and> y = y'" if "y < m" "y' < m" for x y x' y' m :: nat
  proof
    assume "x * m + y = x' * m + y'"
    then have "(x * m + y) div m = (x' * m + y') div m" "(x * m + y) mod m = (x' * m + y') mod m" by simp_all
    with that show "x = x' \<and> y = y'" by simp
  qed simp
  have low: "b div 64 < 4" "q div 64 < 4" "b div 16 < 16" "q div 16 < 16" "b div 2 < 128" "q div 2 < 128"
    using assms by linarith+
  note divs = address4_div [OF assms(1-4)] address4_div [OF assms(5-8)]
    address4_div_more [OF assms(1-4)] address4_div_more [OF assms(5-8)]
  show "in_prefix (address4 a b c d) (address4 p q r s, 3) \<longleftrightarrow> a div 32 = p div 32"
    "in_prefix (address4 a b c d) (address4 p q r s, 8) \<longleftrightarrow> a = p"
    "in_prefix (address4 a b c d) (address4 p q r s, 10) \<longleftrightarrow> a = p \<and> b div 64 = q div 64"
    "in_prefix (address4 a b c d) (address4 p q r s, 12) \<longleftrightarrow> a = p \<and> b div 16 = q div 16"
    "in_prefix (address4 a b c d) (address4 p q r s, 15) \<longleftrightarrow> a = p \<and> b div 2 = q div 2"
    "in_prefix (address4 a b c d) (address4 p q r s, 16) \<longleftrightarrow> a = p \<and> b = q"
    "in_prefix (address4 a b c d) (address4 p q r s, 24) \<longleftrightarrow> a = p \<and> b = q \<and> c = r"
    unfolding in_prefix_def prod.case sub divs using assms low by (simp_all only: pair conj_assoc)
qed

lemma classify_octets_policy:
  assumes "a < 256" "b < 256" "c < 256" "d < 256"
  shows "classify_octets a b c = policy4 (address4 a b c d)"
proof -
  have ranges: "b div 16 = 1 \<longleftrightarrow> 16 \<le> b \<and> b \<le> 31" "b div 64 = 1 \<longleftrightarrow> 64 \<le> b \<and> b \<le> 127"
    "b div 2 = 9 \<longleftrightarrow> b = 18 \<or> b = 19" "a div 32 = 7 \<longleftrightarrow> 224 \<le> a"
    using assms(1) by linarith+
  have const: "x < (256 :: nat)" if "x \<in> {0, 2, 10, 16, 18, 51, 64, 100, 113, 127, 168, 169, 172, 192, 198, 203, 224, 254}" for x
    using that by auto
  note prefixes = in_prefix_octets [OF assms]
  have "policy4 (address4 a b c d) =
     (if a = 0 \<or> a = 10 \<or> a = 127 \<or> a = 169 \<and> b = 254 \<or> a = 172 \<and> b div 16 = 16 div 16 \<or> a = 192 \<and> b = 168 \<or>
         a = 100 \<and> b div 64 = 64 div 64 then Private
      else if a = 198 \<and> b div 2 = 18 div 2 \<or> a div 32 = 224 div 32 \<or> a = 192 \<and> b = 0 \<and> c = 2 \<or>
         a = 198 \<and> b = 51 \<and> c = 100 \<or> a = 203 \<and> b = 0 \<and> c = 113 then SpecialPurpose
      else Public)"
    unfolding policy4_def private_prefixes_def special_prefixes_def list_ex_Cons_iff list_ex_Nil_iff
    by (simp only: prefixes const insert_iff simp_thms)
  also have "\<dots> = classify_octets a b c"
    unfolding classify_octets_def by (simp only: ranges [symmetric]) auto
  finally show ?thesis by simp
qed

section \<open>Decimal and hexadecimal numerals\<close>

lemma decimal_value_snoc: "decimal_value (s @ [c]) = decimal_value s * 10 + (of_char c - 48)"
  by (simp add: decimal_value_def)

lemma decimal_value_dec [simp]: "decimal_value (dec n) = n"
proof (induction n rule: dec.induct)
  case (1 n)
  show ?case
  proof (cases "n < 10")
    case True
    then show ?thesis by (simp add: dec.simps [of n] decimal_value_def of_char_digit_char)
  next
    case False
    with 1 show ?thesis by (simp add: dec.simps [of n] decimal_value_snoc of_char_digit_char)
  qed
qed

lemma octet_text_dec [simp]: "n < 256 \<Longrightarrow> octet_text (dec n)"
proof -
  assume "n < 256"
  then have "length (dec n) \<le> 3"
    by (simp add: dec.simps [of n] dec.simps [of "n div 10"] dec.simps [of "n div 10 div 10"])
  then show ?thesis using dec_digits by (simp add: octet_text_def list_all_iff)
qed

lemma hex_number_snoc: "hex_number (s @ [c]) = hex_number s * 16 + hex_value c"
  by (simp add: hex_number_def)

lemma hex_value_char: "n < 16 \<Longrightarrow> hex_value (hex_char n) = n"
  by (auto simp: hex_value_def hex_char_def)

lemma hex_number_text [simp]: "hex_number (hex_text n) = n"
proof (induction n rule: hex_text.induct)
  case (1 n)
  show ?case
  proof (cases "n < 16")
    case True
    then show ?thesis by (simp add: hex_text.simps [of n] hex_number_def hex_value_char)
  next
    case False
    with 1 show ?thesis by (simp add: hex_text.simps [of n] hex_number_snoc hex_value_char)
  qed
qed

lemma hex_char_digit: "n < 16 \<Longrightarrow> hex_digit (hex_char n)"
proof -
  assume "n < 16"
  moreover have "list_all (\<lambda>n. hex_digit (hex_char n)) [0..<16]" by code_simp
  ultimately show "hex_digit (hex_char n)" by (simp add: list_all_iff)
qed

lemma hex_text_digits: "list_all hex_digit (hex_text n)"
proof (induction n rule: hex_text.induct)
  case (1 n)
  then show ?case by (cases "n < 16") (simp_all add: hex_text.simps [of n] hex_char_digit)
qed

lemma hex_text_nonempty [simp]: "hex_text n \<noteq> []"
  by (subst hex_text.simps) simp

lemma dec_clean: "\<not> is_digit x \<Longrightarrow> x \<notin> set (dec n)"
  using dec_digits by auto

lemma hex_clean: "\<not> hex_digit x \<Longrightarrow> x \<notin> set (hex_text n)"
  using hex_text_digits by (auto simp: list_all_iff)

section \<open>Dotted addresses\<close>

lemma split_dotted: "split_on (CHR ''.'') (dotted_text a b c d) = [dec a, dec b, dec c, dec d]"
  unfolding dotted_text_def by (rule split_on_join_with) (simp_all add: dec_clean is_digit_def)

lemma classifyIpv4_dotted:
  assumes "a < 256" "b < 256" "c < 256" "d < 256"
  shows "classifyIpv4 (dotted_text a b c d) = policy4 (address4 a b c d)"
  using assms by (simp add: classifyIpv4_def split_dotted classify_octets_policy [OF assms])

lemma embedded_dotted:
  "take 4 (drop k bytes) = [a, b, c, d] \<Longrightarrow> a < 256 \<Longrightarrow> b < 256 \<Longrightarrow> c < 256 \<Longrightarrow> d < 256 \<Longrightarrow>
     embeddedIpv4Class bytes k = policy4 (address4 a b c d)"
  using classifyIpv4_dotted [unfolded dotted_text_def, of a b c d] by (simp add: embeddedIpv4Class_def)

section \<open>IPv6 text forms\<close>

datatype embedding = Mapped | Translated | Compatible | Nat64 | SixToFour "nat list"

fun embed :: "embedding \<Rightarrow> nat list \<Rightarrow> nat list" where
  "embed Mapped v4 = replicate 10 0 @ [255, 255] @ v4"
| "embed Translated v4 = replicate 8 0 @ [255, 255, 0, 0] @ v4"
| "embed Compatible v4 = replicate 12 0 @ v4"
| "embed Nat64 v4 = [0, 0x64, 0xff, 0x9b] @ replicate 8 0 @ v4"
| "embed (SixToFour rest) v4 = [0x20, 0x02] @ v4 @ rest"

lemma byte_simps':
  "byte (x # b) 0 = x" "byte (x # b) (numeral k) = byte b (pred_numeral k)" "byte (x # b) (Suc 0) = byte b 0"
  by (simp_all add: byte_def numeral_eq_Suc)

lemma replicate_numeral: "replicate (numeral k) x = x # replicate (pred_numeral k) x"
  by (simp add: numeral_eq_Suc)

lemma embed_bytes:
  "embed Mapped [a, b, c, d] = [0, 0, 0, 0, 0, 0, 0, 0, 0, 0, 255, 255, a, b, c, d]"
  "embed Translated [a, b, c, d] = [0, 0, 0, 0, 0, 0, 0, 0, 255, 255, 0, 0, a, b, c, d]"
  "embed Compatible [a, b, c, d] = [0, 0, 0, 0, 0, 0, 0, 0, 0, 0, 0, 0, a, b, c, d]"
  "embed Nat64 [a, b, c, d] = [0, 100, 255, 155, 0, 0, 0, 0, 0, 0, 0, 0, a, b, c, d]"
  "embed (SixToFour r) [a, b, c, d] = 32 # 2 # a # b # c # d # r"
  by (simp_all add: replicate_numeral)

declare embed.simps [simp del]

lemma classify_embedded:
  assumes "a < 256" "b < 256" "c < 256" "d < 256"
  shows "classify_bytes (embed k [a, b, c, d]) = policy4 (address4 a b c d)"
proof -
  note emb = embedded_dotted [OF _ assms]
  note bytes = embed_bytes classify_bytes_def zeros_def byte_simps' 
  have low: "policy4 (address4 0 0 0 d) = Private" if "d = 0 \<or> d = 1"
    using that classify_octets_policy [of 0 0 0 d] assms by (auto simp: classify_octets_def)
  show ?thesis
  proof (cases k)
    case Compatible
    show ?thesis
    proof (cases "a = 0 \<and> b = 0 \<and> c = 0 \<and> (d = 0 \<or> d = 1)")
      case True
      then have "classify_bytes (embed Compatible [a, b, c, d]) = Private" by (simp add: bytes cong: if_weak_cong)
      with True low show ?thesis by (simp add: Compatible)
    next
      case False
      then have "classify_bytes (embed Compatible [a, b, c, d]) = embeddedIpv4Class (embed Compatible [a, b, c, d]) 12"
        by (simp add: bytes cong: if_weak_cong) auto
      then show ?thesis by (simp add: Compatible embed_bytes emb cong: if_weak_cong)
    qed
  qed (simp_all add: bytes emb cong: if_weak_cong)
qed

lemma split_elision_clean:
  "CHR '':'' \<notin> set p \<Longrightarrow>
     split_elision (p @ s) = (p @ fst (split_elision s), snd (split_elision s))"
  by (induction p) (auto split: prod.split)

lemma group_text_clean:
  assumes "group_text g"
  shows "g \<noteq> []" "CHR '':'' \<notin> set g" "CHR ''.'' \<notin> set g"
proof -
  have "\<not> hex_digit CHR '':''" "\<not> hex_digit CHR ''.''" by (simp_all add: hex_digit_def)
  with assms show "g \<noteq> []" "CHR '':'' \<notin> set g" "CHR ''.'' \<notin> set g"
    by (auto simp: group_text_def list_all_iff)
qed

lemma split_elision_groups:
  assumes "list_all group_text gs" "rest = [] \<or> rest = ''::'' @ r"
  shows "split_elision (join_with '':'' gs @ rest) = (join_with '':'' gs, if rest = [] then None else Some r)"
  using assms(1)
proof (induction gs)
  case Nil
  with assms(2) show ?case by auto
next
  case (Cons g gs)
  then have clean: "CHR '':'' \<notin> set g" by (simp add: group_text_clean)
  show ?case
  proof (cases gs)
    case Nil
    with assms(2) clean show ?thesis
      using split_elision_clean [OF clean, of rest] by auto
  next
    case (Cons h hs)
    with Cons.prems have "h \<noteq> []" "CHR '':'' \<notin> set h" by (simp_all add: group_text_clean)
    then have "take 1 (join_with '':'' gs @ rest) \<noteq> '':''" by (cases h) (auto simp: Cons join_with_Cons)
    moreover have "split_elision (join_with '':'' gs @ rest) = (join_with '':'' gs, if rest = [] then None else Some r)"
      using Cons.IH Cons.prems by simp
    ultimately have "split_elision (CHR '':'' # join_with '':'' gs @ rest)
        = (CHR '':'' # join_with '':'' gs, if rest = [] then None else Some r)"
      by simp
    then show ?thesis
      using split_elision_clean [OF clean, of "CHR '':'' # join_with '':'' gs @ rest"] by (simp add: Cons)
  qed
qed

lemma split_groups:
  "list_all group_text gs \<Longrightarrow> group_pieces (join_with '':'' gs) = gs"
proof (cases gs)
  case (Cons g hs)
  assume "list_all group_text gs"
  then have "\<forall>p \<in> set gs. CHR '':'' \<notin> set p" "g \<noteq> []"
    by (auto simp: group_text_clean list_all_iff Cons)
  with Cons show ?thesis by (simp add: group_pieces_def split_on_join_with) (simp add: join_with_Cons)
qed (simp add: group_pieces_def)

definition show_with :: "ipv6_text \<Rightarrow> string list \<Rightarrow> string" where
  "show_with t final =
     (if elided t
      then join_with '':'' (head_groups t) @ ''::'' @ join_with '':'' (tail_groups t @ final)
      else join_with '':'' (head_groups t @ final))"

lemma group_text_hex: "n < 65536 \<Longrightarrow> group_text (hex_text n)"
proof -
  assume "n < 65536"
  then have "length (hex_text n) \<le> 4"
    by (simp add: hex_text.simps [of n] hex_text.simps [of "n div 16"] hex_text.simps [of "n div 16 div 16"]
        hex_text.simps [of "n div 16 div 16 div 16"])
  then show ?thesis by (simp add: group_text_def hex_text_digits)
qed

lemma dotted_groups_text: "valid_text t \<Longrightarrow> list_all group_text (dotted_groups (dotted t))"
  by (cases "dotted t") (auto simp: valid_text_def intro!: group_text_hex)

lemma bytes_of_shown:
  assumes v: "valid_text t" and e: "expand_v4_tail s = show_with t (dotted_groups (dotted t))"
  shows "ipv6Bytes s = text_bytes t"
proof -
  let ?d = "dotted_groups (dotted t)"
  have g: "list_all group_text (head_groups t)" "list_all group_text (tail_groups t @ ?d)"
    "list_all group_text (head_groups t @ ?d)"
    using v dotted_groups_text [OF v] by (simp_all add: valid_text_def)
  show ?thesis
  proof (cases "elided t")
    case True
    then show ?thesis
      using split_elision_groups [OF g(1) disjI2 [OF refl], of "join_with '':'' (tail_groups t @ ?d)"]
        split_elision_groups [OF g(2), of "[]" "[]"] split_groups [OF g(1)] split_groups [OF g(2)]
      by (simp add: ipv6Bytes_def e show_with_def text_bytes_def text_groups_def before_elision_def Let_def)
  next
    case False
    with v have "tail_groups t = []" "length (head_groups t) + length ?d = 8"
      by (auto simp: valid_text_def Let_def)
    with False show ?thesis
      using split_elision_groups [OF g(3), of "[]" "[]"] split_groups [OF g(3)]
      by (simp add: ipv6Bytes_def e show_with_def text_bytes_def text_groups_def Let_def)
  qed
qed

section \<open>Host names\<close>

definition addr_chars :: string where
  "addr_chars = ''0123456789abcdef:.''"

lemma addr_char_facts:
  assumes "set s \<subseteq> set addr_chars"
  shows "map to_lower s = s" "trim_space s = s" "takeWhile (\<lambda>c. c \<noteq> CHR ''%'') s = s"
    "\<not> suffix ''.localhost'' s" "\<not> suffix ''.local'' s" "s \<noteq> ''localhost''" "\<not> prefix ''['' s"
proof -
  have all: "list_all (\<lambda>c. to_lower c = c \<and> \<not> js_space c \<and> c \<noteq> CHR ''%'' \<and> c \<noteq> CHR ''l'' \<and> c \<noteq> CHR ''['') addr_chars"
    by code_simp
  then have each: "to_lower c = c" "\<not> js_space c" "c \<noteq> CHR ''%''" "c \<noteq> CHR ''l''" "c \<noteq> CHR ''[''" if "c \<in> set s" for c
    using that assms by (auto simp: list_all_iff)
  show "map to_lower s = s" by (simp add: each(1) map_idI)
  have clean: "CHR ''l'' \<notin> set s" "CHR ''['' \<notin> set s" using each(4,5) by blast+
  have ends: "dropWhile js_space u = u" if "set u \<subseteq> set s" for u
    using that each(2) by (cases u) auto
  show "trim_space s = s" by (simp add: trim_space_def ends)
  show "takeWhile (\<lambda>c. c \<noteq> CHR ''%'') s = s" using each(3) by (simp add: takeWhile_eq_all_conv)
  show "\<not> suffix ''.localhost'' s" "\<not> suffix ''.local'' s" "s \<noteq> ''localhost''" "\<not> prefix ''['' s"
    using clean by (auto simp: suffix_def prefix_def)
qed

lemma normalize_addr: "set s \<subseteq> set addr_chars \<Longrightarrow> normalizeIpLiteral s = s"
  by (simp add: normalizeIpLiteral_def addr_char_facts Let_def)

lemma normalize_bracketed:
  assumes "set s \<subseteq> set addr_chars"
  shows "normalizeIpLiteral (''['' @ s @ '']'') = s"
proof -
  have lower: "map to_lower (''['' @ s @ '']'') = ''['' @ s @ '']''"
    using addr_char_facts(1) [OF assms] by (simp add: to_lower_def)
  have trim: "trim_space (''['' @ s @ '']'') = ''['' @ s @ '']''"
    by (simp add: trim_space_def js_space_def)
  show ?thesis
    unfolding normalizeIpLiteral_def trim lower
    using addr_char_facts(3) [OF assms] by (simp add: suffix_def Let_def)
qed

lemma classify_shown:
  assumes "set s \<subseteq> set addr_chars" "drop_trailing_dots s = s" "isIP s = 6"
  shows "classifyHostname isIP (''['' @ s @ '']'') =
     (case classify_bytes (ipv6Bytes s) of
        Private \<Rightarrow> Some PrivateNetwork | SpecialPurpose \<Rightarrow> Some SpecialPurposeRange | Public \<Rightarrow> None)"
  unfolding classifyHostname_def normalize_bracketed [OF assms(1)] assms(2) Let_def
  using addr_char_facts(4-6) [OF assms(1)]
  by (simp add: assms(3) classifyIp_def classifyIpv6_def normalize_addr [OF assms(1)])

lemma classify_dotted_host:
  assumes "set s \<subseteq> set addr_chars" "drop_trailing_dots s = s" "isIP s = 4"
  shows "classifyHostname isIP s =
     (case classifyIpv4 s of
        Private \<Rightarrow> Some PrivateNetwork | SpecialPurpose \<Rightarrow> Some SpecialPurposeRange | Public \<Rightarrow> None)"
  unfolding classifyHostname_def normalize_addr [OF assms(1)] assms(2) Let_def
  using addr_char_facts(4-6) [OF assms(1)]
  by (simp add: assms(3) classifyIp_def normalize_addr [OF assms(1)])

section \<open>Dotted tails\<close>

lemma show_text_with: "show_text t = show_with t (dotted_part (dotted t))"
  by (simp add: show_text_def show_with_def)

lemma join_append:
  "ps \<noteq> [] \<Longrightarrow> qs \<noteq> [] \<Longrightarrow> join_with sep (ps @ qs) = join_with sep ps @ sep @ join_with sep qs"
  by (induction sep ps rule: join_with.induct) (auto simp: join_with_Cons)

lemma hex_addr: "hex_digit c \<Longrightarrow> c \<in> set addr_chars \<and> c \<noteq> CHR ''.''"
proof -
  have "list_all (\<lambda>c. c \<in> set addr_chars \<and> c \<noteq> CHR ''.'') ''0123456789abcdef''" by code_simp
  then show "hex_digit c \<Longrightarrow> c \<in> set addr_chars \<and> c \<noteq> CHR ''.''" by (simp add: list_all_iff hex_digit_def del: list.set)
qed

lemma digit_addr: "is_digit c \<Longrightarrow> c \<in> set addr_chars \<and> c \<noteq> CHR ''.''"
proof -
  assume "is_digit c"
  then have c: "c = digit_char (of_char c - 48)" "of_char c - 48 \<in> set [0 ..< 10 :: nat]"
    by (auto simp: is_digit_def digit_char_def)
  have "list_all (\<lambda>n. digit_char n \<in> set addr_chars \<and> digit_char n \<noteq> CHR ''.'') [0..<10]" by code_simp
  from this [unfolded list_all_iff, rule_format, OF c(2)] show ?thesis unfolding c(1) [symmetric] .
qed

lemma separator_addr: "set '':'' \<subseteq> set addr_chars" "set ''::'' \<subseteq> set addr_chars" "set ''.'' \<subseteq> set addr_chars"
  by (simp_all add: addr_chars_def)

lemma join_chars: "set (join_with sep ps) \<subseteq> set sep \<union> (\<Union>p \<in> set ps. set p)"
  by (induction sep ps rule: join_with.induct) auto

lemma group_chars: "group_text g \<Longrightarrow> set g \<subseteq> set addr_chars - {CHR ''.''}"
  using hex_addr by (auto simp: group_text_def list_all_iff)

lemma dotted_chars: "set (dotted_text a b c d) \<subseteq> set addr_chars"
proof -
  have "set (dec n) \<subseteq> set addr_chars" for n using dec_digits digit_addr by blast
  then show ?thesis
    unfolding dotted_text_def using join_chars [of "''.''" "[dec a, dec b, dec c, dec d]"] separator_addr(3) by fastforce
qed

lemma show_with_last:
  assumes "elided t \<or> head_groups t \<noteq> []"
  shows "\<exists>pre. \<forall>g gs. show_with t (g # gs) = pre @ CHR '':'' # join_with '':'' (g # gs)"
proof (cases "elided t")
  case True
  show ?thesis
  proof (cases "tail_groups t = []")
    case tail: True
    with True show ?thesis
      by - (rule exI [where x = "join_with '':'' (head_groups t) @ '':''"], simp add: show_with_def)
  next
    case False
    with True show ?thesis
      by - (rule exI [where x = "join_with '':'' (head_groups t) @ ''::'' @ join_with '':'' (tail_groups t)"],
        simp add: show_with_def join_append)
  qed
next
  case False
  with assms show ?thesis
    by - (rule exI [where x = "join_with '':'' (head_groups t)"], simp add: show_with_def join_append)
qed

lemma after_last_colon_clean: "CHR '':'' \<notin> set u \<Longrightarrow> after_last_colon (pre @ CHR '':'' # u) = u"
proof -
  assume "CHR '':'' \<notin> set u"
  then have "takeWhile (\<lambda>c. c \<noteq> CHR '':'') (rev u) = rev u" by (auto simp: takeWhile_eq_all_conv)
  then show ?thesis by (simp add: after_last_colon_def takeWhile_append)
qed

lemma v4_tail_plain: "CHR ''.'' \<notin> set s \<Longrightarrow> v4_tail s = None"
proof -
  assume a: "CHR ''.'' \<notin> set s"
  have "set (after_last_colon s) \<subseteq> set s"
    by (auto simp: after_last_colon_def dest: set_takeWhileD)
  with a have "CHR ''.'' \<notin> set (after_last_colon s)" by blast
  then show ?thesis by (simp add: v4_tail_def Let_def)
qed

lemma dotted_no_colon: "CHR '':'' \<notin> set (dotted_text a b c d)"
  by (simp add: dotted_text_def dec_clean is_digit_def)

lemma shown_chars:
  assumes "valid_text t"
  shows "set (show_text t) \<subseteq> set addr_chars" "dotted t = None \<Longrightarrow> CHR ''.'' \<notin> set (show_text t)"
proof -
  have parts: "set (show_text t) \<subseteq> set '':'' \<union> (\<Union>p \<in> set (head_groups t) \<union> set (tail_groups t) \<union> set (dotted_part (dotted t)). set p)"
    unfolding show_text_def
    using join_chars [of "'':''" "head_groups t"] join_chars [of "'':''" "tail_groups t @ dotted_part (dotted t)"]
      join_chars [of "'':''" "head_groups t @ dotted_part (dotted t)"] by auto
  have groups: "set p \<subseteq> set addr_chars - {CHR ''.''}" if "p \<in> set (head_groups t) \<union> set (tail_groups t)" for p
    using that assms group_chars by (auto simp: valid_text_def list_all_iff)
  have dotted: "set p \<subseteq> set addr_chars" if "p \<in> set (dotted_part (dotted t))" for p
  proof (cases "dotted t")
    case (Some q)
    with that show ?thesis using dotted_chars by (cases q) simp
  qed (use that in simp)
  show "set (show_text t) \<subseteq> set addr_chars" using parts groups dotted separator_addr(1) by blast
  show "dotted t = None \<Longrightarrow> CHR ''.'' \<notin> set (show_text t)" using parts groups by fastforce
qed

lemma expand_shown:
  assumes v: "valid_text t"
  shows "expand_v4_tail (show_text t) = show_with t (dotted_groups (dotted t))"
proof (cases "dotted t")
  case None
  then show ?thesis
    using v4_tail_plain [OF shown_chars(2) [OF v None]] by (simp add: expand_v4_tail_def show_text_with)
next
  case (Some q)
  obtain a b c d where q: "q = (a, b, c, d)" by (cases q)
  have bounds: "a < 256" "b < 256" "c < 256" "d < 256" using v by (simp_all add: valid_text_def Some q)
  have "elided t \<or> head_groups t \<noteq> []" using v by (auto simp: valid_text_def Some q Let_def)
  then obtain pre where pre: "\<forall>g gs. show_with t (g # gs) = pre @ CHR '':'' # join_with '':'' (g # gs)"
    using show_with_last by blast
  have tail: "v4_tail (show_text t) = Some (dotted_text a b c d)"
    by (simp add: show_text_with Some q pre v4_tail_def after_last_colon_clean dotted_no_colon split_dotted bounds)
  show ?thesis
    by (simp add: expand_v4_tail_def tail split_dotted) (simp add: show_text_with Some q pre)
qed

lemma ipv6Bytes_shown: "valid_text t \<Longrightarrow> ipv6Bytes (show_text t) = text_bytes t"
  by (rule bytes_of_shown [OF _ expand_shown])

lemma no_trailing_dot: "s \<noteq> [] \<Longrightarrow> last s \<noteq> CHR ''.'' \<Longrightarrow> drop_trailing_dots s = s"
  by (cases s rule: rev_cases) (simp_all add: drop_trailing_dots_def)

lemma dotted_last: "dotted_text a b c d \<noteq> []" "last (dotted_text a b c d) \<noteq> CHR ''.''"
proof -
  have "is_digit (last (dec d))" using dec_digits [of d] by (simp add: last_in_set)
  then have "last (dec d) \<noteq> CHR ''.''" using digit_addr by blast
  then show "dotted_text a b c d \<noteq> []" "last (dotted_text a b c d) \<noteq> CHR ''.''" by (simp_all add: dotted_text_def)
qed

lemma join_last: "list_all group_text gs \<Longrightarrow> gs \<noteq> [] \<Longrightarrow>
    join_with '':'' gs \<noteq> [] \<and> last (join_with '':'' gs) \<noteq> CHR ''.''"
proof (induction gs)
  case (Cons g gs)
  then have g: "g \<noteq> []" "CHR ''.'' \<notin> set g" by (simp_all add: group_text_clean)
  then have "last g \<noteq> CHR ''.''" using last_in_set [OF g(1)] by metis
  with g Cons show ?case by (cases gs) (auto simp: join_with_Cons)
qed simp

lemma shown_no_trailing_dot:
  assumes v: "valid_text t"
  shows "drop_trailing_dots (show_text t) = show_text t"
proof (rule no_trailing_dot)
  let ?d = "dotted_part (dotted t)"
  have groups: "list_all group_text (head_groups t)" "list_all group_text (tail_groups t)"
    using v by (simp_all add: valid_text_def)
  have ended: "join_with '':'' (gs @ ?d) \<noteq> [] \<and> last (join_with '':'' (gs @ ?d)) \<noteq> CHR ''.''"
    if "list_all group_text gs" "gs @ ?d \<noteq> []" for gs
    using that join_last [of gs] dotted_last
    by (cases "dotted t"; cases "gs = []") (auto simp: join_append)
  have full: "\<not> elided t \<Longrightarrow> head_groups t @ ?d \<noteq> []"
    using v by (cases "dotted t") (auto simp: valid_text_def Let_def)
  show "show_text t \<noteq> []" using ended [OF groups(1) full] by (auto simp: show_text_def)
  show "last (show_text t) \<noteq> CHR ''.''"
    using ended [OF groups(1) full] ended [OF groups(2)]
    by (cases "elided t"; cases "tail_groups t @ ?d = []") (auto simp: show_text_def)
qed

section \<open>Properties\<close>

definition block_reason :: "EgressAddressClass \<Rightarrow> SsrfBlockReason option" where
  "block_reason k = (case k of Private \<Rightarrow> Some PrivateNetwork | SpecialPurpose \<Rightarrow> Some SpecialPurposeRange | Public \<Rightarrow> None)"

text \<open>The octet tests of an IPv4 literal are exactly its membership in the policy's address prefixes.\<close>

theorem ipv4_policy_is_prefix_table:
  assumes "a < 256" "b < 256" "c < 256" "d < 256" "isIP (dotted_text a b c d) = 4"
  shows "classifyHostname isIP (dotted_text a b c d) = block_reason (policy4 (address4 a b c d))"
  using classify_dotted_host [where isIP = isIP, OF dotted_chars no_trailing_dot [OF dotted_last] assms(5)] classifyIpv4_dotted [OF assms(1-4)]
  by (simp add: block_reason_def)

theorem ipv4_policy_is_prefix_table_witness:
  "classifyHostname (\<lambda>_. 4) ''198.19.0.7'' = Some SpecialPurposeRange"
proof -
  have "block_reason (policy4 (address4 198 19 0 7)) = Some SpecialPurposeRange"
    by (simp add: classify_octets_policy [symmetric] classify_octets_def block_reason_def)
  moreover have "dotted_text 198 19 0 7 = ''198.19.0.7''"
    by (simp add: dotted_text_def dec.simps digit_char_def char_of_def bit_Suc_0_iff)
  ultimately show ?thesis using ipv4_policy_is_prefix_table [of 198 19 0 7 "\<lambda>_. 4"] by simp
qed

text \<open>
  C23. An IPv4 destination cannot be hidden in an IPv6 literal: whatever the text form of the literal (elision, leading
  zeros, a dotted tail) and whichever of the embeddings it uses (mapped, translated, compatible, NAT64, 6to4), a fetch of
  the URL is decided as the embedded IPv4 address is.
\<close>

theorem embedded_address_shares_policy:
  assumes "a < 256" "b < 256" "c < 256" "d < 256"
    and "valid_text t" "text_bytes t = embed k [a, b, c, d]" "isIP (show_text t) = 6"
    and "parse_url url = Some (protocol, ''['' @ show_text t @ '']'')" "protocol = ''http:'' \<or> protocol = ''https:''"
  shows "checkSsrf parse_url isIP url = block_reason (policy4 (address4 a b c d))"
proof -
  have "classifyHostname isIP (''['' @ show_text t @ '']'') = block_reason (policy4 (address4 a b c d))"
    using classify_shown [where isIP = isIP, OF shown_chars(1) [OF assms(5)] shown_no_trailing_dot [OF assms(5)] assms(7)]
      ipv6Bytes_shown [OF assms(5)] classify_embedded [OF assms(1-4)] assms(6)
    by (simp add: block_reason_def)
  with assms(8,9) show ?thesis by (auto simp: checkSsrf_def)
qed

theorem embedded_address_shares_policy_witness:
  "checkSsrf (\<lambda>url. Some (''http:'', ''[::ffff:169.254.169.254]'')) (\<lambda>_. 6) ''http://[::ffff:169.254.169.254]/'' =
     Some PrivateNetwork"
proof -
  let ?t = "\<lparr>head_groups = [], elided = True, tail_groups = [''ffff''], dotted = Some (169, 254, 169, 254)\<rparr>"
  have "block_reason (policy4 (address4 169 254 169 254)) = Some PrivateNetwork"
    by (simp add: classify_octets_policy [symmetric] classify_octets_def block_reason_def)
  moreover have ffff: "hex_number ''ffff'' = 65535" "hex_number ''0'' = 0"
    by (simp_all add: hex_number_def hex_value_def)
  moreover have "valid_text ?t"
    by (simp add: valid_text_def group_text_def hex_digit_def)
  moreover have "text_bytes ?t = embed Mapped [169, 254, 169, 254]"
    using ffff by (simp add: text_bytes_def text_groups_def embed_bytes replicate_numeral)
  moreover have "show_text ?t = ''::ffff:169.254.169.254''"
    by (simp add: show_text_def dotted_text_def dec.simps digit_char_def char_of_def bit_Suc_0_iff)
  ultimately show ?thesis
    using embedded_address_shares_policy [of 169 254 169 254 ?t Mapped "\<lambda>_. 6"
        "\<lambda>url. Some (''http:'', ''[::ffff:169.254.169.254]'')" "''http://[::ffff:169.254.169.254]/''" "''http:''"]
    by simp
qed

end
