(* ===== verification/Branch_View.thy ===== *)
theory Branch_View
  imports Thread_Scope Recovery_State Utf8
begin

text \<open>
  The branch view, \<^verbatim>\<open>src/packages/web/application-host/lib/harness/working-state/branch-view.ts\<close>: listing the files
  of a working branch and reading one of them, through symbolic links.

  The store is the argument the code takes, as a record of its operations. \<open>Object.entries\<close> of a record of states is an
  association list with distinct keys, and the final sort by \<open>localeCompare\<close> is the argument \<open>by_path\<close>. Signals and
  deadlines are not modelled. A thrown error is \<open>Inl\<close>.
\<close>

section \<open>Data\<close>

datatype WorkingBranchPathOrigin = OriginBase | OriginDelta | OriginDraftBase

datatype entry_kind = FileKind | DirectoryKind

record BranchViewEntry =
  entry_path :: string
  entry_kind :: entry_kind
  entry_revision :: string

record WorkingStateTreeEntry =
  tree_path :: string
  tree_state :: RecoveryState
  tree_origin :: WorkingBranchPathOrigin
  tree_viewRevision :: "nat option"

record branch_store =
  getBranchRoot :: "string \<Rightarrow> nat option"
  readPath :: "string \<Rightarrow> string \<Rightarrow> nat option \<Rightarrow> nat option \<Rightarrow> WorkingStateTreeEntry option"
  listPaths :: "string \<Rightarrow> string list \<Rightarrow> nat option \<Rightarrow> (nat \<times> WorkingStateTreeEntry list) option"
  readContent :: "WorkingStateTreeEntry \<Rightarrow> nat list option"

section \<open>Paths\<close>

definition normalizeRelative :: "string \<Rightarrow> (string, string) outcome" where
  "normalizeRelative v =
     (let raw = strip_dot_slash (to_slashes v)
      in if raw = [] \<or> raw = ''.'' then Inr []
         else
           let segs = scope_parts raw
           in if CHR 0x00 \<in> set raw \<or> prefix ''/'' raw \<or> drive_prefix raw \<or> ''..'' \<in> set segs
              then Inl (''Invalid branch view path: '' @ v)
              else Inr (join_with ''/'' segs))"

definition isTextBytes :: "nat list \<Rightarrow> bool" where
  "isTextBytes bb \<longleftrightarrow> 0 \<notin> set bb \<and> utf8_decode bb \<noteq> None"

definition descendantOf :: "string \<Rightarrow> string \<Rightarrow> bool" where
  "descendantOf f root \<longleftrightarrow> root = [] \<or> f = root \<or> prefix (root @ ''/'') f"

text \<open>\<open>file.includes("/") ? file.slice(0, file.lastIndexOf("/")) : ""\<close>\<close>

definition parent_of :: "string \<Rightarrow> string" where
  "parent_of f = (if CHR ''/'' \<in> set f then rev (drop 1 (dropWhile (\<lambda>c. c \<noteq> CHR ''/'') (rev f))) else [])"

lemma parent_shorter [simp]: "f \<noteq> [] \<Longrightarrow> length (parent_of f) < length f"
proof -
  assume "f \<noteq> []"
  have "length (dropWhile (\<lambda>c. c \<noteq> CHR ''/'') (rev f)) \<le> length f"
    using length_dropWhile_le [of _ "rev f"] by simp
  then have "length (drop 1 (dropWhile (\<lambda>c. c \<noteq> CHR ''/'') (rev f))) < length f"
    using \<open>f \<noteq> []\<close> by (simp add: less_le_trans) (metis Suc_pred diff_Suc_less diff_le_mono le_imp_less_Suc length_greater_0_conv)
  then show ?thesis using \<open>f \<noteq> []\<close> by (simp add: parent_of_def)
qed

function tombstone_loop :: "(string \<times> RecoveryState) list \<Rightarrow> string \<Rightarrow> bool" where
  "tombstone_loop states parent =
     (if parent = [] then False
      else if map_of states parent = Some Missing then True
      else tombstone_loop states (parent_of parent))"
  by pat_completeness auto
termination by (relation "measure (\<lambda>(s, p). length p)") simp_all

declare tombstone_loop.simps [simp del]

definition hiddenByTombstone :: "(string \<times> RecoveryState) list \<Rightarrow> string \<Rightarrow> bool" where
  "hiddenByTombstone states f =
     (if map_of states f = Some Missing then True else tombstone_loop states (parent_of f))"

fun origin_name :: "WorkingBranchPathOrigin \<Rightarrow> string" where
  "origin_name OriginBase = ''base''"
| "origin_name OriginDelta = ''delta''"
| "origin_name OriginDraftBase = ''draft-base''"

definition branchViewRevision :: "string \<Rightarrow> nat \<Rightarrow> WorkingBranchPathOrigin \<Rightarrow> string" where
  "branchViewRevision branchId revision origin =
     ''working-branch:'' @ branchId @ ''@'' @ dec revision @ '':'' @ origin_name origin"

section \<open>Listing\<close>

text \<open>The map of entries, in insertion order; the revision of every entry is the same and added at the end.\<close>

definition map_set :: "'k \<Rightarrow> 'v \<Rightarrow> ('k \<times> 'v) list \<Rightarrow> ('k \<times> 'v) list" where
  "map_set k v m = AList.update k v m"

definition addDirectory :: "string \<Rightarrow> (string \<times> entry_kind) list \<Rightarrow> (string \<times> entry_kind) list" where
  "addDirectory relative m =
     (let path = (if relative = [] then ''.'' else relative)
      in if map_of m path \<noteq> None then m else map_set path DirectoryKind m)"

function add_ancestors :: "string \<Rightarrow> (string \<times> entry_kind) list \<Rightarrow> (string \<times> entry_kind) list" where
  "add_ancestors ancestor m =
     (if ancestor = [] then m else add_ancestors (parent_of ancestor) (addDirectory ancestor m))"
  by pat_completeness auto
termination by (relation "measure (\<lambda>(a, m). length a)") simp_all

declare add_ancestors.simps [simp del]

definition list_step ::
  "(string \<times> RecoveryState) list \<Rightarrow> string \<Rightarrow> bool \<Rightarrow> string \<times> RecoveryState \<Rightarrow>
     (string \<times> entry_kind) list \<Rightarrow> (string \<times> entry_kind) list" where
  "list_step states root immediate st m =
     (case st of (f, state) \<Rightarrow>
        if \<not> descendantOf f root \<or> hiddenByTombstone states f then m
        else if state = Missing then m
        else
          let relative = (if root \<noteq> [] then (if f = root then ''.'' else drop (length root + 1) f) else f)
          in if relative = [] then m
             else if immediate \<and> CHR ''/'' \<in> set relative
               then addDirectory (takeWhile (\<lambda>c. c \<noteq> CHR ''/'') relative) m
             else if kind state = ''directory'' then addDirectory relative m
             else
               let m = map_set relative FileKind m
               in if immediate then m else add_ancestors (parent_of relative) m)"

definition listBranchView ::
  "(BranchViewEntry list \<Rightarrow> BranchViewEntry list) \<Rightarrow> (string \<times> RecoveryState) list \<Rightarrow> string \<Rightarrow> string \<Rightarrow> nat \<Rightarrow> bool \<Rightarrow>
     (string, BranchViewEntry list) outcome" where
  "listBranchView by_path states root branchId revision immediate =
     obind (normalizeRelative root) (\<lambda>normalizedRoot.
       let entry = (\<lambda>(p, k). \<lparr>entry_path = p, entry_kind = k,
                      entry_revision = branchViewRevision branchId revision OriginBase\<rparr>);
           root_state = map_option kind (map_of states normalizedRoot);
           m = (if normalizedRoot = [] \<or> root_state = Some ''directory''
                then addDirectory (if normalizedRoot = [] then ''.'' else normalizedRoot) [] else [])
       in if normalizedRoot \<noteq> [] \<and> hiddenByTombstone states normalizedRoot then Inr []
          else if normalizedRoot \<noteq> [] \<and> root_state = Some ''regular-file'' then Inr [entry (''.'', FileKind)]
          else Inr (by_path (map entry (fold (list_step states normalizedRoot immediate) states m))))"

section \<open>Reading\<close>

record ResolvedBranchPath =
  res_path :: string
  res_state :: RecoveryState
  res_origin :: WorkingBranchPathOrigin
  res_revision :: string
  res_viewRevision :: nat
  res_entry :: WorkingStateTreeEntry

text \<open>\<open>pinned\<close> is \<open>readOptions.pin.writeRevision\<close>; the result is \<open>Inr None\<close> for \<open>null\<close>.\<close>

definition resolveBranchPath ::
  "branch_store \<Rightarrow> string \<Rightarrow> string \<Rightarrow> nat option \<Rightarrow> nat option \<Rightarrow> (string, ResolvedBranchPath option) outcome" where
  "resolveBranchPath store branchId f revision pinned =
     (case getBranchRoot store branchId of
        None \<Rightarrow> Inr None
      | Some writeRevision \<Rightarrow>
          obind (normalizeRelative f) (\<lambda>path.
            case readPath store branchId path revision pinned of
              None \<Rightarrow> Inr None
            | Some entry \<Rightarrow>
                let requested = (case tree_viewRevision entry of
                                   Some v \<Rightarrow> v
                                 | None \<Rightarrow> (case pinned of
                                              Some v \<Rightarrow> v
                                            | None \<Rightarrow> (case revision of Some v \<Rightarrow> v | None \<Rightarrow> writeRevision)))
                in Inr (Some \<lparr>res_path = path, res_state = tree_state entry, res_origin = tree_origin entry,
                     res_revision = branchViewRevision branchId requested (tree_origin entry),
                     res_viewRevision = requested, res_entry = entry\<rparr>)))"

datatype branch_read =
    BranchFile string "nat list" WorkingBranchPathOrigin string nat
  | MissingFile string string nat WorkingBranchPathOrigin
  | Unavailable string

text \<open>
  The parent of the link and its target, \<open>None\<close> for a target that is refused: \<open>target.includes("..")\<close> is a substring
  test.
\<close>

definition joined_target :: "string \<Rightarrow> string \<Rightarrow> string option" where
  "joined_target path target =
     (if target = [] \<or> prefix ''/'' target \<or> drive_prefix target \<or> sublist ''..'' target then None
      else Some (if parent_of path \<noteq> [] then parent_of path @ ''/'' @ target else target))"

partial_function (option) read_branch_file ::
  "branch_store \<Rightarrow> string \<Rightarrow> nat option \<Rightarrow> nat option \<Rightarrow> bool \<Rightarrow> string list \<Rightarrow> string \<Rightarrow>
     (string, branch_read) outcome option" where
  "read_branch_file store branchId revision pinned followSymlinks seen f =
     (case resolveBranchPath store branchId f revision pinned of
        Inl e \<Rightarrow> Some (Inl e)
      | Inr None \<Rightarrow> Some (Inr (Unavailable (''Working branch '' @ branchId @ '' is unavailable'')))
      | Inr (Some r) \<Rightarrow>
          (case res_state r of
             Missing \<Rightarrow> Some (Inr (MissingFile (res_path r) (res_revision r) (res_viewRevision r) (res_origin r)))
           | Directory _ \<Rightarrow>
               Some (Inr (Unavailable ((if res_path r = [] then ''.'' else res_path r) @ '' is a directory'')))
           | Unsupported \<Rightarrow> Some (Inr (Unavailable (res_path r @ '' is not a readable file in this branch'')))
           | Symlink target _ \<Rightarrow>
               if \<not> followSymlinks
               then Some (Inr (Unavailable (res_path r @ '' is a symlink and cannot be read as text'')))
               else if res_path r \<in> set seen
               then Some (Inr (Unavailable (res_path r @ '' is a symlink cycle'')))
               else (case joined_target (res_path r) target of
                       None \<Rightarrow>
                         Some (Inr (Unavailable
                           (res_path r @ '' is a symlink that cannot be resolved inside the branch view'')))
                     | Some joined \<Rightarrow>
                         read_branch_file store branchId revision pinned True (res_path r # seen) joined)
           | RegularFile _ _ _ \<Rightarrow>
               (case readContent store (res_entry r) of
                  None \<Rightarrow> Some (Inr (Unavailable (''Working-state object is missing for '' @ res_path r)))
                | Some bytes \<Rightarrow>
                    Some (Inr (BranchFile (res_path r) bytes (res_origin r) (res_revision r) (res_viewRevision r))))))"

declare read_branch_file.simps [code]

definition readBranchFile ::
  "branch_store \<Rightarrow> string \<Rightarrow> string \<Rightarrow> nat option \<Rightarrow> nat option \<Rightarrow> bool \<Rightarrow> (string, branch_read) outcome option" where
  "readBranchFile store branchId f revision pinned followSymlinks =
     read_branch_file store branchId revision pinned followSymlinks [] f"

record BranchTextFile =
  text_path :: string
  text_bytes :: "nat list"
  text_text :: utext
  text_origin :: WorkingBranchPathOrigin
  text_revision :: string
  text_viewRevision :: nat

definition text_file ::
  "branch_store \<Rightarrow> string \<Rightarrow> nat \<Rightarrow> (string \<times> RecoveryState) list \<Rightarrow> string list \<Rightarrow> WorkingStateTreeEntry \<Rightarrow>
     BranchTextFile option" where
  "text_file store branchId viewRevision states roots e =
     (if kind (tree_state e) \<noteq> ''regular-file'' \<or> hiddenByTombstone states (tree_path e) then None
      else if \<not> list_ex (descendantOf (tree_path e)) roots then None
      else (case readContent store e of
              None \<Rightarrow> None
            | Some bytes \<Rightarrow>
                if \<not> isTextBytes bytes then None
                else Some \<lparr>text_path = tree_path e, text_bytes = bytes, text_text = the (utf8_decode bytes),
                       text_origin = tree_origin e,
                       text_revision = branchViewRevision branchId viewRevision (tree_origin e),
                       text_viewRevision = viewRevision\<rparr>))"

definition listBranchTextFiles ::
  "(BranchTextFile list \<Rightarrow> BranchTextFile list) \<Rightarrow> branch_store \<Rightarrow> string \<Rightarrow> string list \<Rightarrow> nat option \<Rightarrow>
     (string, BranchTextFile list) outcome" where
  "listBranchTextFiles by_path store branchId prefixes_given revision =
     obind (ocollect (map normalizeRelative prefixes_given)) (\<lambda>normalized.
       let roots = (if length prefixes_given > 0 then normalized else [''''])
       in case listPaths store branchId roots revision of
            None \<Rightarrow> Inr []
          | Some (viewRevision, entries) \<Rightarrow>
              let states = map (\<lambda>e. (tree_path e, tree_state e)) entries
              in Inr (by_path (List.map_filter (text_file store branchId viewRevision states roots) entries)))"

definition listBranchViewFromStore ::
  "(BranchViewEntry list \<Rightarrow> BranchViewEntry list) \<Rightarrow> branch_store \<Rightarrow> string \<Rightarrow> string \<Rightarrow> nat option \<Rightarrow> bool \<Rightarrow>
     (string, BranchViewEntry list option) outcome" where
  "listBranchViewFromStore by_path store branchId root revision immediate =
     (case listPaths store branchId [root] revision of
        None \<Rightarrow> Inr None
      | Some (viewRevision, entries) \<Rightarrow>
          obind (listBranchView by_path (map (\<lambda>e. (tree_path e, tree_state e)) entries) root branchId viewRevision immediate)
            (\<lambda>es. Inr (Some es)))"

section \<open>Reading follows the links\<close>

text \<open>
  The reference reader knows nothing of cycles: a hop ends the reading with a result or leads from a link to its joined
  target, and \<open>chase\<close> takes hops as long as the fuel lasts.
\<close>

definition read_hop ::
  "branch_store \<Rightarrow> string \<Rightarrow> nat option \<Rightarrow> nat option \<Rightarrow> string \<Rightarrow> (string, branch_read) outcome + string \<times> string" where
  "read_hop store branchId revision pinned f =
     (case resolveBranchPath store branchId f revision pinned of
        Inl e \<Rightarrow> Inl (Inl e)
      | Inr None \<Rightarrow> Inl (Inr (Unavailable (''Working branch '' @ branchId @ '' is unavailable'')))
      | Inr (Some r) \<Rightarrow>
          (case res_state r of
             Missing \<Rightarrow> Inl (Inr (MissingFile (res_path r) (res_revision r) (res_viewRevision r) (res_origin r)))
           | Directory _ \<Rightarrow> Inl (Inr (Unavailable ((if res_path r = [] then ''.'' else res_path r) @ '' is a directory'')))
           | Unsupported \<Rightarrow> Inl (Inr (Unavailable (res_path r @ '' is not a readable file in this branch'')))
           | Symlink target _ \<Rightarrow>
               (case joined_target (res_path r) target of
                  None \<Rightarrow>
                    Inl (Inr (Unavailable (res_path r @ '' is a symlink that cannot be resolved inside the branch view'')))
                | Some joined \<Rightarrow> Inr (res_path r, joined))
           | RegularFile _ _ _ \<Rightarrow>
               (case readContent store (res_entry r) of
                  None \<Rightarrow> Inl (Inr (Unavailable (''Working-state object is missing for '' @ res_path r)))
                | Some bytes \<Rightarrow>
                    Inl (Inr (BranchFile (res_path r) bytes (res_origin r) (res_revision r) (res_viewRevision r))))))"

fun chase ::
  "branch_store \<Rightarrow> string \<Rightarrow> nat option \<Rightarrow> nat option \<Rightarrow> nat \<Rightarrow> string \<Rightarrow> (string, branch_read) outcome option" where
  "chase store branchId revision pinned 0 f = None"
| "chase store branchId revision pinned (Suc n) f =
     (case read_hop store branchId revision pinned f of
        Inl r \<Rightarrow> Some r
      | Inr (path, joined) \<Rightarrow> chase store branchId revision pinned n joined)"

definition hops ::
  "branch_store \<Rightarrow> string \<Rightarrow> nat option \<Rightarrow> nat option \<Rightarrow> (string \<times> string) set" where
  "hops store branchId revision pinned =
     {(f, g). \<exists>path. read_hop store branchId revision pinned f = Inr (path, g)}"

lemma resolve_path:
  assumes "resolveBranchPath s b f v k = Inr (Some r)"
  shows "normalizeRelative f = Inr (res_path r)"
proof (cases "getBranchRoot s b")
  case (Some w)
  with assms obtain p where p: "normalizeRelative f = Inr p"
    by (auto simp: resolveBranchPath_def obind_Inr_iff)
  with assms Some show ?thesis
    by (cases "readPath s b p v k") (auto simp: resolveBranchPath_def Let_def)
qed (use assms in \<open>simp add: resolveBranchPath_def\<close>)

lemma hop_path:
  assumes "read_hop s b v k f = Inr (p, j)"
  shows "normalizeRelative f = Inr p"
proof (cases "resolveBranchPath s b f v k")
  case (Inr q)
  with assms obtain r where q: "q = Some r" by (cases q) (auto simp: read_hop_def)
  with assms Inr have "res_path r = p"
    by (auto simp: read_hop_def split: RecoveryState.splits option.splits)
  with resolve_path Inr q show ?thesis by auto
qed (use assms in \<open>simp add: read_hop_def\<close>)

lemma hop_by_path:
  assumes "normalizeRelative f = Inr p" "normalizeRelative g = Inr p"
  shows "read_hop s b v k f = read_hop s b v k g"
proof -
  have "resolveBranchPath s b f v k = resolveBranchPath s b g v k"
    using assms by (cases "getBranchRoot s b") (simp_all add: resolveBranchPath_def)
  then show ?thesis by (simp add: read_hop_def)
qed

lemma read_unfold:
  assumes "\<And>p. normalizeRelative f = Inr p \<Longrightarrow> p \<in> set seen \<Longrightarrow> \<exists>j. read_hop s b v k f = Inr (p, j)"
  shows "read_branch_file s b v k True seen f =
     (case read_hop s b v k f of
        Inl r \<Rightarrow> Some r
      | Inr (p, j) \<Rightarrow>
          if p \<in> set seen then Some (Inr (Unavailable (p @ '' is a symlink cycle'')))
          else read_branch_file s b v k True (p # seen) j)"
proof (cases "resolveBranchPath s b f v k")
  case (Inr o')
  show ?thesis
  proof (cases o')
    case (Some r)
    with Inr resolve_path have p: "normalizeRelative f = Inr (res_path r)" by simp
    show ?thesis
      using assms [OF p] by (auto simp: read_branch_file.simps [of s b v k True seen f] read_hop_def Inr Some
          split: RecoveryState.split option.split)
  qed (simp add: read_branch_file.simps [of s b v k True seen f] read_hop_def Inr)
qed (simp add: read_branch_file.simps [of s b v k True seen f] read_hop_def)

text \<open>A chase that returns has no cycle ahead of it.\<close>

lemma chase_ahead:
  assumes "(f, g) \<in> (hops s b v k)\<^sup>*" "chase s b v k n f = Some r"
  shows "\<exists>m \<le> n. chase s b v k m g = Some r"
  using assms
proof (induction arbitrary: n rule: converse_rtrancl_induct)
  case base
  then show ?case by auto
next
  case (step f f')
  then obtain p where "read_hop s b v k f = Inr (p, f')" by (auto simp: hops_def)
  with step.prems obtain n' where "n = Suc n'" "chase s b v k n' f' = Some r" by (cases n) auto
  with step.IH show ?case by (meson le_SucI)
qed

lemma chase_no_cycle:
  assumes "(f, f) \<in> (hops s b v k)\<^sup>+"
  shows "chase s b v k n f = None"
proof (induction n rule: less_induct)
  case (less n)
  show ?case
  proof (rule ccontr)
    assume "chase s b v k n f \<noteq> None"
    then obtain r where r: "chase s b v k n f = Some r" by blast
    obtain g where g: "(f, g) \<in> hops s b v k" "(g, f) \<in> (hops s b v k)\<^sup>*" using tranclD [OF assms] by blast
    then obtain p where "read_hop s b v k f = Inr (p, g)" by (auto simp: hops_def)
    with r obtain n' where n': "n = Suc n'" "chase s b v k n' g = Some r" by (cases n) auto
    obtain m where "m \<le> n'" "chase s b v k m f = Some r" using chase_ahead [OF g(2) n'(2)] by blast
    with less.IH [of m] n'(1) show False by simp
  qed
qed

text \<open>Every path already seen is a link that leads to the file now read.\<close>

definition seen_lead :: "branch_store \<Rightarrow> string \<Rightarrow> nat option \<Rightarrow> nat option \<Rightarrow> string list \<Rightarrow> string \<Rightarrow> bool" where
  "seen_lead s b v k seen f \<longleftrightarrow>
     (\<forall>p \<in> set seen. \<exists>g j. read_hop s b v k g = Inr (p, j) \<and> (j, f) \<in> (hops s b v k)\<^sup>*)"

lemma seen_lead_step:
  "seen_lead s b v k seen f \<Longrightarrow> read_hop s b v k f = Inr (p, j) \<Longrightarrow> seen_lead s b v k (p # seen) j"
  unfolding seen_lead_def hops_def
  by (auto intro: rtrancl_into_rtrancl) (metis (mono_tags, lifting) case_prodI mem_Collect_eq rtrancl.rtrancl_into_rtrancl)

lemma seen_again:
  assumes "seen_lead s b v k seen f" "normalizeRelative f = Inr p" "p \<in> set seen"
  shows "\<exists>j. read_hop s b v k f = Inr (p, j) \<and> (f, f) \<in> (hops s b v k)\<^sup>+"
proof -
  obtain g j where g: "read_hop s b v k g = Inr (p, j)" "(j, f) \<in> (hops s b v k)\<^sup>*"
    using assms by (auto simp: seen_lead_def)
  then have "read_hop s b v k f = Inr (p, j)" using hop_by_path [OF assms(2) hop_path [OF g(1)]] by simp
  moreover from this g(2) have "(f, f) \<in> (hops s b v k)\<^sup>+"
    by (auto simp: hops_def intro: rtrancl_into_trancl2)
  ultimately show ?thesis by blast
qed

lemma read_unfold_seen:
  "seen_lead s b v k seen f \<Longrightarrow> read_branch_file s b v k True seen f =
     (case read_hop s b v k f of
        Inl r \<Rightarrow> Some r
      | Inr (p, j) \<Rightarrow>
          if p \<in> set seen then Some (Inr (Unavailable (p @ '' is a symlink cycle'')))
          else read_branch_file s b v k True (p # seen) j)"
  by (rule read_unfold) (use seen_again in blast)

lemma read_agrees_with_chase:
  assumes "chase s b v k n f = Some r" "seen_lead s b v k seen f"
  shows "read_branch_file s b v k True seen f = Some r"
  using assms
proof (induction n arbitrary: f seen)
  case (Suc n)
  note unfold = read_unfold_seen [OF Suc.prems(2)]
  show ?case
  proof (cases "read_hop s b v k f")
    case (Inr q)
    then obtain p j where hop: "read_hop s b v k f = Inr (p, j)" by (cases q) simp
    have "p \<notin> set seen"
      using seen_again [OF Suc.prems(2) hop_path [OF hop]] chase_no_cycle [of f s b v k "Suc n"] Suc.prems(1) by auto
    with Suc.IH [OF _ seen_lead_step [OF Suc.prems(2) hop]] Suc.prems(1) show ?thesis
      by (simp add: unfold hop)
  qed (use Suc.prems(1) in \<open>simp add: unfold\<close>)
qed simp

definition link_paths :: "branch_store \<Rightarrow> string \<Rightarrow> nat option \<Rightarrow> nat option \<Rightarrow> string set" where
  "link_paths s b v k = {p. \<exists>e t m. readPath s b p v k = Some e \<and> tree_state e = Symlink t m}"

lemma hop_link:
  assumes "read_hop s b v k f = Inr (p, j)"
  shows "p \<in> link_paths s b v k"
proof -
  have n: "normalizeRelative f = Inr p" by (rule hop_path [OF assms])
  from assms obtain w where w: "getBranchRoot s b = Some w"
    by (cases "getBranchRoot s b") (simp_all add: read_hop_def resolveBranchPath_def)
  with n assms obtain e where e: "readPath s b p v k = Some e"
    by (cases "readPath s b p v k") (simp_all add: read_hop_def resolveBranchPath_def)
  with n w assms have "\<exists>t m. tree_state e = Symlink t m"
    by (cases "tree_state e") (auto simp: read_hop_def resolveBranchPath_def Let_def split: option.splits)
  with e show ?thesis by (auto simp: link_paths_def)
qed

lemma read_reports_cycle:
  assumes "finite (link_paths s b v k)" "\<forall>n. chase s b v k n f = None" "seen_lead s b v k seen f"
  shows "\<exists>g p j. (f, g) \<in> (hops s b v k)\<^sup>* \<and> read_hop s b v k g = Inr (p, j) \<and> (g, g) \<in> (hops s b v k)\<^sup>+ \<and>
    read_branch_file s b v k True seen f = Some (Inr (Unavailable (p @ '' is a symlink cycle'')))"
  using assms(2,3)
proof (induction "card (link_paths s b v k - set seen)" arbitrary: f seen rule: less_induct)
  case less
  from less.prems(1) have "chase s b v k (Suc 0) f = None" by blast
  then obtain p j where hop: "read_hop s b v k f = Inr (p, j)" by (auto split: sum.splits)
  note unfold = read_unfold_seen [OF less.prems(2)]
  show ?case
  proof (cases "p \<in> set seen")
    case True
    with seen_again [OF less.prems(2) hop_path [OF hop]] hop show ?thesis
      by (intro exI [of _ f] exI [of _ p] exI [of _ j]) (simp add: unfold)
  next
    case False
    have "link_paths s b v k - set (p # seen) \<subset> link_paths s b v k - set seen"
      using hop_link [OF hop] False by auto
    then have smaller: "card (link_paths s b v k - set (p # seen)) < card (link_paths s b v k - set seen)"
      using assms(1) by (intro psubset_card_mono) simp_all
    have "\<forall>n. chase s b v k n j = None"
    proof
      fix n
      have "chase s b v k (Suc n) f = None" using less.prems(1) by blast
      with hop show "chase s b v k n j = None" by simp
    qed
    from less.hyps [OF smaller this seen_lead_step [OF less.prems(2) hop]]
    obtain g q i where g: "(j, g) \<in> (hops s b v k)\<^sup>*" "read_hop s b v k g = Inr (q, i)" "(g, g) \<in> (hops s b v k)\<^sup>+"
      "read_branch_file s b v k True (p # seen) j = Some (Inr (Unavailable (q @ '' is a symlink cycle'')))"
      by blast
    have "(f, j) \<in> hops s b v k" using hop by (auto simp: hops_def)
    with g hop False show ?thesis
      by (intro exI [of _ g] exI [of _ q] exI [of _ i]) (simp add: unfold converse_rtrancl_into_rtrancl)
  qed
qed

text \<open>
  C24. Reading a file of a branch always returns when the branch has finitely many links: it gives what following the
  links one after the other gives, and where that never ends it reports a link that really lies on a cycle reached from
  the file.
\<close>

theorem branch_read_follows_links:
  assumes "finite (link_paths store branchId revision pinned)"
  shows "(\<exists>n r. chase store branchId revision pinned n f = Some r \<and>
            readBranchFile store branchId f revision pinned True = Some r)
    \<or> ((\<forall>n. chase store branchId revision pinned n f = None) \<and>
        (\<exists>g p j. (f, g) \<in> (hops store branchId revision pinned)\<^sup>* \<and>
           read_hop store branchId revision pinned g = Inr (p, j) \<and> (g, g) \<in> (hops store branchId revision pinned)\<^sup>+ \<and>
           readBranchFile store branchId f revision pinned True = Some (Inr (Unavailable (p @ '' is a symlink cycle'')))))"
proof (cases "\<forall>n. chase store branchId revision pinned n f = None")
  case True
  then show ?thesis
    using read_reports_cycle [OF assms True, of "[]"] by (auto simp: readBranchFile_def seen_lead_def)
next
  case False
  then obtain n r where "chase store branchId revision pinned n f = Some r" by auto
  moreover from this have "readBranchFile store branchId f revision pinned True = Some r"
    unfolding readBranchFile_def by (rule read_agrees_with_chase) (simp add: seen_lead_def)
  ultimately show ?thesis by blast
qed

text \<open>A branch in which two links point at each other and a third at a file beside it.\<close>

definition link_branch :: branch_store where
  "link_branch =
     \<lparr>getBranchRoot = (\<lambda>_. Some 3),
      readPath = (\<lambda>_ p _ _.
        if p = ''d/a'' then Some \<lparr>tree_path = p, tree_state = Symlink ''b'' None, tree_origin = OriginBase, tree_viewRevision = None\<rparr>
        else if p = ''d/b'' then Some \<lparr>tree_path = p, tree_state = Symlink ''./a'' None, tree_origin = OriginBase, tree_viewRevision = None\<rparr>
        else if p = ''d/c'' then Some \<lparr>tree_path = p, tree_state = Symlink ''e//f'' None, tree_origin = OriginDelta, tree_viewRevision = None\<rparr>
        else Some \<lparr>tree_path = p, tree_state = RegularFile 1 ''h'' None, tree_origin = OriginDelta, tree_viewRevision = None\<rparr>),
      listPaths = (\<lambda>_ _ _. None),
      readContent = (\<lambda>e. if tree_path e = ''d/e/f'' then Some [65] else None)\<rparr>"

lemma link_branch_finite: "finite (link_paths link_branch v r k)"
  by (rule finite_subset [of _ "{''d/a'', ''d/b'', ''d/c''}"]) (auto simp: link_paths_def link_branch_def split: if_splits)

lemma link_branch_reads:
  "readBranchFile link_branch ''t'' ''d/a'' None None True = Some (Inr (Unavailable ''d/a is a symlink cycle''))"
  "readBranchFile link_branch ''t'' ''d/c'' None None True =
     Some (Inr (BranchFile ''d/e/f'' [65] OriginDelta ''working-branch:t@3:delta'' 3))"
  by code_simp+

theorem branch_read_follows_links_witness:
  "readBranchFile link_branch ''t'' ''d/a'' None None True = Some (Inr (Unavailable ''d/a is a symlink cycle'')) \<and>
    ((\<exists>n r. chase link_branch ''t'' None None n ''d/a'' = Some r \<and>
            readBranchFile link_branch ''t'' ''d/a'' None None True = Some r)
    \<or> (\<forall>n. chase link_branch ''t'' None None n ''d/a'' = None))"
  using branch_read_follows_links [OF link_branch_finite, of "''t''" None None "''d/a''"] link_branch_reads(1) by blast

section \<open>Only canonical paths are read\<close>

definition canonical :: "string \<Rightarrow> bool" where
  "canonical p \<longleftrightarrow> p = [] \<or>
     (\<exists>parts. parts \<noteq> [] \<and> (\<forall>x \<in> set parts. proper_segment x \<and> CHR 0x5C \<notin> set x \<and> CHR 0x00 \<notin> set x) \<and> p = join_with ''/'' parts)"

lemma normalizeRelative_canonical:
  assumes "normalizeRelative v = Inr p"
  shows "canonical p"
proof -
  let ?raw = "strip_dot_slash (to_slashes v)"
  have clean: "CHR 0x5C \<notin> set ?raw" by (auto simp: strip_dot_slash_def to_slashes_def dest!: in_set_dropD split: if_splits)
  consider "p = []" | "p = join_with ''/'' (scope_parts ?raw)" "CHR 0x00 \<notin> set ?raw" "''..'' \<notin> set (scope_parts ?raw)"
    using assms by (auto simp: normalizeRelative_def Let_def split: if_splits)
  then show ?thesis
  proof cases
    case 2
    have "set x \<subseteq> set ?raw" if "x \<in> set (scope_parts ?raw)" for x
      using that split_on_set [of x "CHR ''/''" ?raw] by (simp add: scope_parts_def)
    with 2 clean have "\<forall>x \<in> set (scope_parts ?raw). proper_segment x \<and> CHR 0x5C \<notin> set x \<and> CHR 0x00 \<notin> set x"
      using scope_parts_proper by blast
    with 2(1) show ?thesis by (cases "scope_parts ?raw = []") (auto simp: canonical_def)
  qed (simp add: canonical_def)
qed

definition same_inside :: "branch_store \<Rightarrow> branch_store \<Rightarrow> bool" where
  "same_inside s s' \<longleftrightarrow> getBranchRoot s = getBranchRoot s' \<and> readContent s = readContent s' \<and>
     (\<forall>b p v k. canonical p \<longrightarrow> readPath s b p v k = readPath s' b p v k)"

lemma resolve_inside:
  assumes "same_inside s s'"
  shows "resolveBranchPath s b f v k = resolveBranchPath s' b f v k"
proof (cases "normalizeRelative f")
  case (Inr p)
  with normalizeRelative_canonical [OF Inr] assms show ?thesis
    by (cases "getBranchRoot s' b") (simp_all add: same_inside_def resolveBranchPath_def)
next
  case (Inl e)
  with assms show ?thesis by (cases "getBranchRoot s' b") (simp_all add: same_inside_def resolveBranchPath_def)
qed

lemma read_inside:
  assumes same: "same_inside s s'" and ret: "read_branch_file s b v k follow seen f = Some r"
  shows "read_branch_file s' b v k follow seen f = Some r"
proof -
  have "t = s \<longrightarrow> read_branch_file s' b v k follow seen f = Some r"
    if "read_branch_file t b v k follow seen f = Some r" for t
  proof (rule read_branch_file.raw_induct [where
        P = "\<lambda>t b v k follow seen f r. t = s \<longrightarrow> read_branch_file s' b v k follow seen f = Some r", OF _ that],
      rule impI)
    fix g t b v k follow seen f r
    assume IH: "\<And>t b v k follow seen f r. g t b v k follow seen f = Some r \<Longrightarrow>
        t = s \<longrightarrow> read_branch_file s' b v k follow seen f = Some r"
      and body: "(case resolveBranchPath t b f v k of
        Inl e \<Rightarrow> Some (Inl e)
      | Inr None \<Rightarrow> Some (Inr (Unavailable (''Working branch '' @ b @ '' is unavailable'')))
      | Inr (Some r) \<Rightarrow>
          (case res_state r of
             Missing \<Rightarrow> Some (Inr (MissingFile (res_path r) (res_revision r) (res_viewRevision r) (res_origin r)))
           | Unsupported \<Rightarrow> Some (Inr (Unavailable (res_path r @ '' is not a readable file in this branch'')))
           | Directory _ \<Rightarrow>
               Some (Inr (Unavailable ((if res_path r = [] then ''.'' else res_path r) @ '' is a directory'')))
           | Symlink target _ \<Rightarrow>
               if \<not> follow
               then Some (Inr (Unavailable (res_path r @ '' is a symlink and cannot be read as text'')))
               else if res_path r \<in> set seen
               then Some (Inr (Unavailable (res_path r @ '' is a symlink cycle'')))
               else (case joined_target (res_path r) target of
                       None \<Rightarrow>
                         Some (Inr (Unavailable
                           (res_path r @ '' is a symlink that cannot be resolved inside the branch view'')))
                     | Some joined \<Rightarrow> g t b v k True (res_path r # seen) joined)
           | RegularFile _ _ _ \<Rightarrow>
               (case readContent t (res_entry r) of
                  None \<Rightarrow> Some (Inr (Unavailable (''Working-state object is missing for '' @ res_path r)))
                | Some bytes \<Rightarrow>
                    Some (Inr (BranchFile (res_path r) bytes (res_origin r) (res_revision r) (res_viewRevision r)))))) = Some r"
      and t: "t = s"
    have content: "readContent s' = readContent s" using same by (simp add: same_inside_def)
    note eqs = read_branch_file.simps [of s' b v k follow seen f] resolve_inside [OF same, symmetric] content
    show "read_branch_file s' b v k follow seen f = Some r"
    proof (cases "resolveBranchPath s b f v k")
      case (Inr q)
      show ?thesis
      proof (cases q)
        case (Some r1)
        show ?thesis
        proof (cases "res_state r1")
          case (Symlink target m)
          show ?thesis
          proof (cases "follow \<and> res_path r1 \<notin> set seen")
            case True
            with body IH show ?thesis
              by (cases "joined_target (res_path r1) target") (simp_all add: eqs read_branch_file.simps [of s' b v k True seen f] t Inr Some Symlink)
          qed (use body in \<open>auto simp: eqs t Inr Some Symlink\<close>)
        qed (use body in \<open>simp_all add: eqs t Inr Some\<close>)
      qed (use body in \<open>simp add: eqs t Inr\<close>)
    qed (use body in \<open>simp add: eqs t\<close>)
  qed
  with ret show ?thesis by blast
qed

text \<open>
  Whatever path is asked for and whatever the links say, only canonical paths inside the branch (no empty, dot or
  dot-dot segment, no backslash, no NUL) are looked up: two stores that agree on these give the same reading.
\<close>

theorem branch_read_stays_inside:
  assumes "same_inside store store'"
  shows "readBranchFile store branchId f revision pinned follow = readBranchFile store' branchId f revision pinned follow"
proof -
  have converse: "same_inside store' store" using assms by (simp add: same_inside_def)
  show ?thesis
    unfolding readBranchFile_def using read_inside [OF assms] read_inside [OF converse] by (metis not_Some_eq)
qed

text \<open>A store that also answers for paths outside gives the link that points at the branch's own file the same reading.\<close>

theorem branch_read_stays_inside_witness:
  "readBranchFile (link_branch\<lparr>readPath := \<lambda>b p v k. if p = ''..'' then None else readPath link_branch b p v k\<rparr>)
     ''t'' ''d/c'' None None True =
   Some (Inr (BranchFile ''d/e/f'' [65] OriginDelta ''working-branch:t@3:delta'' 3))"
proof -
  have "\<not> canonical ''..''"
  proof
    assume "canonical ''..''"
    then obtain parts where p: "parts \<noteq> []" "\<forall>x \<in> set parts. proper_segment x" "''..'' = join_with ''/'' parts"
      by (auto simp: canonical_def)
    have "\<forall>x \<in> set parts. CHR ''/'' \<notin> set x" using p(2) by (simp add: proper_segment_def)
    then have "split_on CHR ''/'' (join_with ''/'' parts) = parts" by (rule split_on_join_with [OF p(1)])
    then have "parts = [''..'']" unfolding p(3) [symmetric] by simp
    with p(2) show False by (simp add: proper_segment_def)
  qed
  then have "same_inside (link_branch\<lparr>readPath := \<lambda>b p v k. if p = ''..'' then None else readPath link_branch b p v k\<rparr>) link_branch"
    by (auto simp: same_inside_def)
  from branch_read_stays_inside [OF this, of "''t''" "''d/c''" None None True] link_branch_reads(2) show ?thesis by simp
qed

end
