(* ===== verification/Lease_Storage.thy ===== *)
theory Lease_Storage
  imports Workspace_Lease Settings_Store
begin

text \<open>
  Workspace leases on the settings file store: \<^verbatim>\<open>lib/recovery/workspace-lease.ts\<close> runs its transactions with the
  \<open>transact\<close> of \<^verbatim>\<open>settings-store/src/index.ts\<close>. The leases are modelled with documents that change at once and never
  fail; here a transaction on the files is related to that, under every failure of a file operation.
\<close>

text \<open>The value a lease mutator returns: \<open>{ document, write: true }\<close> or \<open>{ write: false }\<close>, or its error.\<close>

definition lease_mutator ::
  "(jsval \<Rightarrow> (lease_error, jsval option) outcome) \<Rightarrow> jsval \<Rightarrow> lease_error + jsval option \<times> bool \<times> unit" where
  "lease_mutator m v =
     (case m v of
        Inl e \<Rightarrow> Inl e
      | Inr None \<Rightarrow> Inr (None, False, ())
      | Inr (Some d) \<Rightarrow> Inr (Some d, True, ()))"

locale lease_storage = document_store fit current run
  for fit :: "'f \<Rightarrow> bool"
    and current :: "'f \<Rightarrow> jsval option"
    and run :: "(jsval \<Rightarrow> lease_error + jsval option \<times> bool \<times> unit) \<Rightarrow> 'f \<Rightarrow> 'f \<times> (lease_error transaction_error + unit)"
begin

lemma lease_committed:
  assumes "fit fs" "current fs = Some (docs path)" "run (lease_mutator m) fs = (fs', Inr ())"
  shows "snd (transact docs path m) = Inr () \<and> current fs' = Some (fst (transact docs path m) path) \<and> fit fs'"
  using committed [OF assms(1,3)] assms(2)
  by (auto simp: lease_mutator_def transact_def split: sum.splits option.splits)

lemma lease_refused:
  assumes "current fs = Some (docs path)" "run (lease_mutator m) fs = (fs', Inl (MutatorThrew e))"
  shows "transact docs path m = (docs, Inl e) \<and> fs' = fs"
  using mutator_threw [OF assms(2)] assms(1)
  by (auto simp: lease_mutator_def transact_def split: sum.splits option.splits)

lemma lease_failed:
  assumes "fit fs" "current fs = Some (docs path)" "run (lease_mutator m) fs = (fs', Inl err)"
  shows "current fs' \<in> {Some (docs path), Some (fst (transact docs path m) path)}"
  using store_failed [OF assms(1,3)] assms(2)
  by (auto simp: lease_mutator_def transact_def split: sum.splits option.splits)

end

interpretation lease_files: lease_storage fit_files "current_document d" "transact_settings win32 io d" for win32 io d
  by unfold_locales


definition reader :: LeaseOwner where
  "reader = \<lparr>acquiredAt = ''now'', authorityInstanceId = ''a'', leaseId = ''x'', lease_mode = ''exclusive'',
     owner_pid = 1, purpose = ''merge'', workspaceId = ''w''\<rparr>"

abbreviation acquire_reader :: "jsval \<Rightarrow> (lease_error, jsval option) outcome" where
  "acquire_reader \<equiv> acquire_transaction (\<lambda>_. True) (Some (\<lambda>_. Signalled)) 1 {''a''} reader"

definition granted_document :: jsval where
  "granted_document = document_json \<lparr>owners = [reader], lease_revision = 1\<rparr>"

lemma acquire_reader_first:
  "acquire_reader (document_json leaseDocument) = Inr (Some granted_document)"
  by (simp add: lease_eval reader_def granted_document_def)

lemma object_document [simp]:
  "assertObject (Some (document_json x)) = Inr (document_json x)" "assertObject (Some granted_document) = Inr granted_document"
  by (simp_all add: assertObject_def document_json_def granted_document_def)

definition fresh_files :: store_files where
  "fresh_files = \<lparr>document = Some (Some (document_json leaseDocument)), previous = None, temporary = None\<rparr>"

lemma fresh_files_facts:
  "fit_files fresh_files" "current_document d fresh_files = Some (document_json leaseDocument)"
  "read_settings d fresh_files = Inr (document_json leaseDocument)"
  by (simp_all add: fresh_files_def fit_files_def current_document_def read_settings_def)

lemma acquire_on_fresh:
  "transact_settings win32 io d (lease_mutator acquire_reader) fresh_files =
     (case writeUnlocked win32 io granted_document fresh_files of
        (fs, Written) \<Rightarrow> (fs, Inr ())
      | (fs, Threw e) \<Rightarrow> (fs, Inl (StoreThrew e))
      | (fs, Stopped) \<Rightarrow> (fs, Inl MachineStopped))"
  by (simp add: transact_settings_def fresh_files_facts lease_mutator_def acquire_reader_first)

text \<open>The machine stops on Windows after the document was moved aside: a read still gives the old document.\<close>

definition stop_after_move :: "io_call \<Rightarrow> io" where
  "stop_after_move call = (if call = Rename_In then Fails ''EPERM'' else if call = Rename_In_Again then Stops else Done)"


text \<open>
  A failure after the commit leaves a lease nobody can give back: when the last \<open>chmod\<close> fails, \<open>acquire\<close> throws and
  returns no handle, but the entry of the running manager is in the document and refuses the next acquisition.
\<close>

theorem failed_acquire_leaves_lease:
  "\<exists>fs'. transact_settings False (\<lambda>call. if call = Chmod_Document then Fails ''EPERM'' else Done) d
       (lease_mutator acquire_reader) fresh_files = (fs', Inl (StoreThrew (IoError ''EPERM''))) \<and>
     current_document d fs' = Some granted_document \<and>
     acquire_transaction (\<lambda>_. True) kill 1 {''a''} (reader\<lparr>leaseId := ''y'', lease_mode := ''shared''\<rparr>) granted_document =
       Inl LeaseUnavailable"
proof -
  let ?io = "\<lambda>call. if call = Chmod_Document then Fails ''EPERM'' else Done"
  have "\<exists>fs'. writeUnlocked False ?io granted_document fresh_files = (fs', Threw (IoError ''EPERM'')) \<and>
      document fs' = Some (Some granted_document)"
    by (simp add: writeUnlocked_def io_step_def replaceFile_def cleanup_def fresh_files_def)
  then obtain fs' where fs': "writeUnlocked False ?io granted_document fresh_files = (fs', Threw (IoError ''EPERM''))"
      "document fs' = Some (Some granted_document)" by blast
  have "acquire_transaction (\<lambda>_. True) kill 1 {''a''} (reader\<lparr>leaseId := ''y'', lease_mode := ''shared''\<rparr>) granted_document =
      Inl LeaseUnavailable"
    by (simp add: granted_document_def reader_def lease_eval)
  with fs' show ?thesis
    by - (rule exI [where x = fs'], simp add: acquire_on_fresh current_document_def read_settings_def)
qed

end
