(* ===== verification/Tunnel_Host.thy ===== *)
theory Tunnel_Host
  imports Tunnel_Client
begin

text \<open>
  The host side of the tunnel multiplexer, \<^verbatim>\<open>src/packages/web/application-host/lib/relay/tunnel-host.ts\<close>: it dispatches
  the frames of one relay connection to the loopback server, one stream per HTTP request or WebSocket.

  JavaScript runs each piece of code between two \<open>await\<close>s to its end, so the host is a machine that takes one step for a
  frame of the client, for the end of a promise it waits for, for a timer and for an event of a socket. A stream is
  compared by identity, so streams are objects of a store and the map \<open>streams\<close> has their references; an object keeps where
  its handler waits (\<open>phase\<close>). A step gives its effects in order: frames sent, fetches, dials, bytes for a body or a socket.

  \<open>tunnel_env\<close> has the dependencies: \<open>TextEncoder\<close> and \<open>JSON.stringify\<close>, \<open>TextDecoder\<close> and \<open>JSON.parse\<close>, the error of
  \<open>new WebSocket\<close> if it throws, whether \<open>close\<close> of a socket throws, the identifier and the port. Strings are of characters
  below 256, and letter case is that of ASCII: \<open>fetch\<close> refuses other letters in a method or a header name. A fetch whose
  signal was aborted is rejected. Sending a frame ends at once, as the host client's does.
\<close>

section \<open>Requests\<close>

record tunnel_env =
  connectionId :: string
  localPort :: nat
  json_bytes :: "jsval \<Rightarrow> bytes"
  json_parse :: "bytes \<Rightarrow> jsval option"
  dial_error :: "string \<Rightarrow> string list \<Rightarrow> string option"
  close_throws :: "int \<Rightarrow> string \<Rightarrow> bool"

record HttpRequestPayload =
  hasBody :: bool
  headers :: "(string \<times> string) list"
  request_method :: string
  request_path :: string
  request_query :: string

record WsOpenPayload =
  open_path :: string
  protocols :: "string list"
  open_query :: string

definition errorMessage :: "string \<Rightarrow> string \<Rightarrow> string" where
  "errorMessage message fallback = (if message \<noteq> [] then message else fallback)"

definition isAllowedHttpPath :: "string \<Rightarrow> bool" where
  "isAllowedHttpPath pathname \<longleftrightarrow>
     pathname = ''/health'' \<or> pathname = ''/api'' \<or> prefix ''/api/'' pathname \<or> pathname = ''/auth'' \<or> prefix ''/auth/'' pathname"

definition ALLOWED_WS_PATHS :: "string list" where
  "ALLOWED_WS_PATHS = [''/api/varin/runtime/ws'', ''/api/terminal/ws'', ''/api/dictation/ws'']"

definition isRelayWebSocketPathAllowed :: "string \<Rightarrow> bool" where
  "isRelayWebSocketPathAllowed pathname \<longleftrightarrow> pathname \<in> set ALLOWED_WS_PATHS"

definition STRIPPED_REQUEST_HEADERS :: "string list" where
  "STRIPPED_REQUEST_HEADERS =
     [''connection'', ''keep-alive'', ''transfer-encoding'', ''upgrade'', ''host'', ''content-length'']"

definition STRIPPED_RESPONSE_HEADERS :: "string list" where
  "STRIPPED_RESPONSE_HEADERS =
     [''connection'', ''keep-alive'', ''transfer-encoding'', ''content-length'', ''content-encoding'']"

definition BODY_BUFFER_MAX_BYTES :: nat where
  "BODY_BUFFER_MAX_BYTES = 512 * 1024"

definition ascii_lower :: "char \<Rightarrow> char" where
  "ascii_lower c = (let n = of_char c :: nat in if 65 \<le> n \<and> n \<le> 90 then char_of (n + 32) else c)"

definition ascii_upper :: "char \<Rightarrow> char" where
  "ascii_upper c = (let n = of_char c :: nat in if 97 \<le> n \<and> n \<le> 122 then char_of (n - 32) else c)"

fun is_string :: "jsval \<Rightarrow> bool" where
  "is_string (JString s) = True"
| "is_string v = False"

fun string_of :: "jsval \<Rightarrow> string" where
  "string_of (JString s) = s"
| "string_of v = []"

fun elements :: "jsval \<Rightarrow> jsval list" where
  "elements (JArray vs) = vs"
| "elements v = []"

fun entries :: "jsval \<Rightarrow> (string \<times> jsval) list" where
  "entries (JObject ps) = ps"
| "entries v = []"

definition is_record :: "jsval \<Rightarrow> bool" where
  "is_record v \<longleftrightarrow> is_object v \<and> \<not> is_array v"

definition isHttpRequestPayload :: "jsval \<Rightarrow> bool" where
  "isHttpRequestPayload parsed \<longleftrightarrow>
     is_record parsed \<and> is_string (prop_of parsed ''method'') \<and> is_string (prop_of parsed ''path'') \<and>
     is_string (prop_of parsed ''query'') \<and> is_record (prop_of parsed ''headers'') \<and>
     list_all (\<lambda>(name, v). is_string v) (entries (prop_of parsed ''headers''))"

definition isWsOpenPayload :: "jsval \<Rightarrow> bool" where
  "isWsOpenPayload parsed \<longleftrightarrow>
     is_record parsed \<and> is_string (prop_of parsed ''path'') \<and> is_string (prop_of parsed ''query'') \<and>
     (prop_of parsed ''protocols'' = JUndefined \<or>
      is_array (prop_of parsed ''protocols'') \<and> list_all is_string (elements (prop_of parsed ''protocols'')))"

definition isWsClosePayload :: "jsval \<Rightarrow> bool" where
  "isWsClosePayload parsed \<longleftrightarrow> is_record parsed"

text \<open>The fields the handlers read of a value that passed.\<close>

definition http_request :: "jsval \<Rightarrow> HttpRequestPayload" where
  "http_request v =
     \<lparr>hasBody = (prop_of v ''hasBody'' = JBool True),
      headers = map (\<lambda>(name, v). (name, string_of v)) (entries (prop_of v ''headers'')),
      request_method = string_of (prop_of v ''method''), request_path = string_of (prop_of v ''path''),
      request_query = string_of (prop_of v ''query'')\<rparr>"

definition ws_open :: "jsval \<Rightarrow> WsOpenPayload" where
  "ws_open v =
     \<lparr>open_path = string_of (prop_of v ''path''), protocols = map string_of (elements (prop_of v ''protocols'')),
      open_query = string_of (prop_of v ''query'')\<rparr>"

definition decodeJsonPayload :: "tunnel_env \<Rightarrow> bytes \<Rightarrow> (jsval \<Rightarrow> bool) \<Rightarrow> (string, jsval) outcome" where
  "decodeJsonPayload env bs validate =
     (case json_parse env bs of
        None \<Rightarrow> Inl ''malformed JSON tunnel payload''
      | Some parsed \<Rightarrow> if validate parsed then Inr parsed else Inl ''unexpected JSON tunnel payload shape'')"

text \<open>A header called \<open>__proto__\<close> would set the prototype, which a string does not.\<close>

definition add_header :: "(string \<times> string) list \<Rightarrow> string \<times> string \<Rightarrow> (string \<times> string) list" where
  "add_header built header =
     (let name = fst header; v = snd header; lower = map ascii_lower name
      in if lower \<in> set STRIPPED_REQUEST_HEADERS then built
         else if list_ex (\<lambda>c. c = CHR 0x0D \<or> c = CHR 0x0A) name \<or> list_ex (\<lambda>c. c = CHR 0x0D \<or> c = CHR 0x0A) v then built
         else if lower = ''__proto__'' then built
         else AList.update lower v built)"

definition buildRequestHeaders :: "tunnel_env \<Rightarrow> (string \<times> string) list \<Rightarrow> string \<Rightarrow> (string \<times> string) list" where
  "buildRequestHeaders env rawHeaders loopbackOrigin =
     AList.update ''origin'' loopbackOrigin
       (AList.update ''x-varin-relay-connection'' (connectionId env) (foldl add_header [] rawHeaders))"

definition loopback :: "tunnel_env \<Rightarrow> string" where
  "loopback env = ''http://127.0.0.1:'' @ dec (localPort env)"

definition with_query :: "string \<Rightarrow> string \<Rightarrow> string" where
  "with_query path query = path @ (if query \<noteq> [] then ''?'' @ query else [])"

definition responseHeaders :: "(string \<times> string) list \<Rightarrow> (string \<times> string) list" where
  "responseHeaders received =
     foldl (\<lambda>built (name, v). if name \<in> set STRIPPED_RESPONSE_HEADERS then built else AList.update name v built) [] received"

section \<open>Streams and the host\<close>

text \<open>
  \<open>stream.body\<close> is absent, the sink that buffers, or the controller of the live stream that replaces it. The branches of the
  buffering sink for a live controller are never taken.
\<close>

datatype body_sink = No_Sink | Buffering | Live

datatype http_phase = Awaiting_Body | Fetching | Responding "bytes list" | Settled

record http_stream =
  http_id :: nat
  request :: HttpRequestPayload
  noBody :: bool
  sink :: body_sink
  buffered :: "bytes list"
  bufferedBytes :: nat
  bodyFrameCount :: nat
  completed :: bool
  bodyFailure :: "string option"
  live_open :: bool
  aborted :: bool
  phase :: http_phase

datatype ready_state = Connecting | Open | Closing | Closed

record ws_stream =
  ws_id :: nat
  opened :: bool
  readyState :: ready_state
  outgoing :: "bytes list list"

datatype TunnelStream = Http http_stream | Ws ws_stream

record tunnel_host =
  streams :: "(nat \<times> nat) list"
  objects :: "nat \<rightharpoonup> TunnelStream"
  next_ref :: nat
  assembler :: pending
  closed :: bool

datatype fetch_body = No_Body | Buffer bytes | Live_Body

datatype effect =
    Send_Frame bytes
  | Fetch nat string string "(string \<times> string) list" fetch_body
  | Body_Enqueue nat bytes
  | Body_Close nat
  | Body_Error nat
  | Abort_Fetch nat
  | Dial nat string "string list" "(string \<times> string) list"
  | Socket_Send nat bool bytes
  | Socket_Close nat int string
  | Terminate nat
  | Throws tunnel_error

definition createTunnelHost :: tunnel_host where
  "createTunnelHost = \<lparr>streams = [], objects = Map.empty, next_ref = 0, assembler = Map.empty, closed = False\<rparr>"

definition set_object :: "nat \<Rightarrow> TunnelStream \<Rightarrow> tunnel_host \<Rightarrow> tunnel_host" where
  "set_object r s h = h\<lparr>objects := (objects h)(r \<mapsto> s)\<rparr>"

definition is_current :: "tunnel_host \<Rightarrow> nat \<Rightarrow> nat \<Rightarrow> bool" where
  "is_current h sid r \<longleftrightarrow> map_of (streams h) sid = Some r"

section \<open>Sending\<close>

definition send :: "bytes \<Rightarrow> tunnel_host \<Rightarrow> effect list" where
  "send frame h = (if closed h then [] else [Send_Frame frame])"

definition send_encoded :: "TunnelFrameType \<Rightarrow> nat \<Rightarrow> bytes \<Rightarrow> tunnel_host \<Rightarrow> effect list" where
  "send_encoded ft sid pl h =
     (case encodeTunnelFrame (type_value ft) (JInt (int sid)) pl False of Inl e \<Rightarrow> [Throws e] | Inr frame \<Rightarrow> send frame h)"

definition sendJson :: "tunnel_env \<Rightarrow> TunnelFrameType \<Rightarrow> nat \<Rightarrow> jsval \<Rightarrow> tunnel_host \<Rightarrow> effect list" where
  "sendJson env ft sid v h = send_encoded ft sid (json_bytes env v) h"

definition sendAbort :: "tunnel_env \<Rightarrow> nat \<Rightarrow> string \<Rightarrow> tunnel_host \<Rightarrow> effect list" where
  "sendAbort env sid reason h = sendJson env StreamAbort sid (JObject [(''reason'', JString reason)]) h"

definition host_dropStream :: "nat \<Rightarrow> tunnel_host \<Rightarrow> tunnel_host" where
  "host_dropStream sid h = h\<lparr>streams := AList.delete sid (streams h), assembler := dropStream sid (assembler h)\<rparr>"

definition finishBody :: "string option \<Rightarrow> http_stream \<Rightarrow> http_stream" where
  "finishBody error s = (if completed s then s else s\<lparr>completed := True, bodyFailure := error\<rparr>)"

definition body_error :: "string \<Rightarrow> http_stream \<Rightarrow> http_stream" where
  "body_error reason s =
     (case sink s of No_Sink \<Rightarrow> s | Buffering \<Rightarrow> finishBody (Some reason) s | Live \<Rightarrow> s\<lparr>live_open := False\<rparr>)"

definition abortLocalStream :: "nat \<Rightarrow> string \<Rightarrow> tunnel_host \<Rightarrow> tunnel_host \<times> effect list" where
  "abortLocalStream sid reason h =
     (case map_of (streams h) sid of
        None \<Rightarrow> (h, [])
      | Some r \<Rightarrow>
          (case objects h r of
             None \<Rightarrow> (h, [])
           | Some (Http s) \<Rightarrow>
               (set_object r (Http ((body_error reason s)\<lparr>aborted := True\<rparr>)) (host_dropStream sid h),
                (if sink s = Live \<and> live_open s then [Body_Error r] else []) @ [Abort_Fetch r])
           | Some (Ws s) \<Rightarrow> (set_object r (Ws (s\<lparr>readyState := Closing\<rparr>)) (host_dropStream sid h), [Terminate r])))"

definition syntheticResponse :: "tunnel_env \<Rightarrow> nat \<Rightarrow> nat \<Rightarrow> string \<Rightarrow> tunnel_host \<Rightarrow> effect list" where
  "syntheticResponse env sid status message h =
     sendJson env HttpResponse sid (JObject [(''status'', JNumber (JInt (int status))),
       (''headers'', JObject [(''content-type'', JString ''application/json'')])]) h @
     sendJson env HttpBody sid (JObject [(''error'', JString message), (''reason'', JString message),
       (''source'', JString ''relay-tunnel-host'')]) h @
     send_encoded StreamEnd sid [] h"

section \<open>HTTP streams\<close>

definition request_effect :: "tunnel_env \<Rightarrow> nat \<Rightarrow> HttpRequestPayload \<Rightarrow> fetch_body \<Rightarrow> effect" where
  "request_effect env r req body =
     Fetch r (loopback env @ with_query (request_path req) (request_query req)) (map ascii_upper (request_method req))
       (buildRequestHeaders env (headers req) (loopback env)) body"

definition forwardRequest ::
  "tunnel_env \<Rightarrow> nat \<Rightarrow> http_stream \<Rightarrow> fetch_body \<Rightarrow> tunnel_host \<Rightarrow> tunnel_host \<times> effect list" where
  "forwardRequest env r s body h =
     (set_object r (Http (s\<lparr>phase := Fetching\<rparr>)) h, [request_effect env r (request s) body])"

definition runHttpStream :: "tunnel_env \<Rightarrow> nat \<Rightarrow> http_stream \<Rightarrow> tunnel_host \<Rightarrow> tunnel_host \<times> effect list" where
  "runHttpStream env r s h =
     (let meth = map ascii_upper (request_method (request s))
      in if \<not> isAllowedHttpPath (request_path (request s))
         then let h = host_dropStream (http_id s) h
              in (h, syntheticResponse env (http_id s) 403 ''Path is not allowed through the relay'' h)
         else if meth = ''GET'' \<or> meth = ''HEAD'' then forwardRequest env r (s\<lparr>noBody := True\<rparr>) No_Body h
         else (set_object r (Http (s\<lparr>sink := Buffering, phase := Awaiting_Body\<rparr>)) h, []))"

definition handleHttpRequest :: "tunnel_env \<Rightarrow> nat \<Rightarrow> bytes \<Rightarrow> tunnel_host \<Rightarrow> tunnel_host \<times> effect list" where
  "handleHttpRequest env sid pl h =
     (if map_of (streams h) sid \<noteq> None
      then case abortLocalStream sid ''duplicate stream id'' h of
             (h, es) \<Rightarrow> (h, es @ sendAbort env sid ''duplicate stream id'' h)
      else case decodeJsonPayload env pl isHttpRequestPayload of
             Inl message \<Rightarrow> (h, sendAbort env sid (errorMessage message ''malformed request'') h)
           | Inr v \<Rightarrow>
               let r = next_ref h;
                   s = \<lparr>http_id = sid, request = http_request v, noBody = False, sink = No_Sink, buffered = [], bufferedBytes = 0,
                        bodyFrameCount = 0, completed = False, bodyFailure = None, live_open = False, aborted = False,
                        phase = Settled\<rparr>
               in runHttpStream env r s
                    (set_object r (Http s) (h\<lparr>streams := AList.update sid r (streams h), next_ref := Suc r\<rparr>)))"

definition switchToLive :: "tunnel_env \<Rightarrow> nat \<Rightarrow> http_stream \<Rightarrow> tunnel_host \<Rightarrow> tunnel_host \<times> effect list" where
  "switchToLive env r s h =
     (case forwardRequest env r (s\<lparr>sink := Live, live_open := True, buffered := []\<rparr>) Live_Body h of
        (h, es) \<Rightarrow> (h, map (Body_Enqueue r) (buffered s) @ es))"

definition body_enqueue :: "tunnel_env \<Rightarrow> nat \<Rightarrow> http_stream \<Rightarrow> bytes \<Rightarrow> tunnel_host \<Rightarrow> tunnel_host \<times> effect list" where
  "body_enqueue env r s pl h =
     (case sink s of
        No_Sink \<Rightarrow> (h, [])
      | Live \<Rightarrow> (h, if live_open s then [Body_Enqueue r pl] else [])
      | Buffering \<Rightarrow>
          if completed s then (h, [])
          else
            let s = s\<lparr>bodyFrameCount := bodyFrameCount s + 1, buffered := buffered s @ [pl],
                      bufferedBytes := bufferedBytes s + length pl\<rparr>
            in if bufferedBytes s > BODY_BUFFER_MAX_BYTES then switchToLive env r s h
               else (set_object r (Http s) h, []))"

definition current_stream :: "tunnel_host \<Rightarrow> nat \<Rightarrow> (nat \<times> TunnelStream) option" where
  "current_stream h sid =
     (case map_of (streams h) sid of
        None \<Rightarrow> None
      | Some r \<Rightarrow> (case objects h r of None \<Rightarrow> None | Some s \<Rightarrow> Some (r, s)))"

definition handleHttpBody :: "tunnel_env \<Rightarrow> nat \<Rightarrow> bytes \<Rightarrow> tunnel_host \<Rightarrow> tunnel_host \<times> effect list" where
  "handleHttpBody env sid pl h =
     (case current_stream h sid of
        Some (r, Http s) \<Rightarrow> if noBody s then (h, []) else body_enqueue env r s pl h
      | _ \<Rightarrow> (h, []))"

definition handleStreamEnd :: "nat \<Rightarrow> tunnel_host \<Rightarrow> tunnel_host \<times> effect list" where
  "handleStreamEnd sid h =
     (case current_stream h sid of
        Some (r, Http s) \<Rightarrow>
          (case sink s of
             No_Sink \<Rightarrow> (h, [])
           | Buffering \<Rightarrow> (set_object r (Http (finishBody None s)) h, [])
           | Live \<Rightarrow> (set_object r (Http (s\<lparr>live_open := False\<rparr>)) h, if live_open s then [Body_Close r] else []))
      | _ \<Rightarrow> (h, []))"

text \<open>The code after \<open>await bodyEnded\<close>; after a switch to a live stream it does nothing.\<close>

definition drop_aborting :: "tunnel_env \<Rightarrow> nat \<Rightarrow> string \<Rightarrow> tunnel_host \<Rightarrow> tunnel_host \<times> effect list" where
  "drop_aborting env sid reason h = (let h = host_dropStream sid h in (h, sendAbort env sid reason h))"

definition body_ended :: "tunnel_env \<Rightarrow> nat \<Rightarrow> http_stream \<Rightarrow> tunnel_host \<Rightarrow> tunnel_host \<times> effect list" where
  "body_ended env r s h =
     (if phase s \<noteq> Awaiting_Body \<or> \<not> completed s then (h, [])
      else
        let s = s\<lparr>phase := Settled\<rparr>; h = set_object r (Http s) h
        in if \<not> is_current h (http_id s) r then (h, [])
           else case bodyFailure s of
                  Some failure \<Rightarrow> drop_aborting env (http_id s) (if failure \<noteq> [] then failure else ''tunnel request body failed'') h
                | None \<Rightarrow>
                    if hasBody (request s) \<and> bodyFrameCount s = 0
                    then drop_aborting env (http_id s) ''tunnel request body frames were lost'' h
                    else forwardRequest env r (s\<lparr>sink := No_Sink\<rparr>) (Buffer (concat (buffered s))) h)"

definition delivery_deadline :: "tunnel_env \<Rightarrow> nat \<Rightarrow> http_stream \<Rightarrow> tunnel_host \<Rightarrow> tunnel_host \<times> effect list" where
  "delivery_deadline env r s h =
     (if phase s \<noteq> Awaiting_Body \<or> \<not> is_current h (http_id s) r \<or> completed s then (h, [])
      else drop_aborting env (http_id s) ''tunnel request body was not delivered in time''
             (set_object r (Http (finishBody (Some ''tunnel request body was not delivered in time'') s)) h))"

definition fetch_failed :: "tunnel_env \<Rightarrow> nat \<Rightarrow> http_stream \<Rightarrow> string \<Rightarrow> tunnel_host \<Rightarrow> tunnel_host \<times> effect list" where
  "fetch_failed env r s message h =
     (if phase s \<noteq> Fetching then (h, [])
      else
        let h = set_object r (Http (s\<lparr>phase := Settled\<rparr>)) h
        in if is_current h (http_id s) r then drop_aborting env (http_id s) (errorMessage message ''loopback request failed'') h
           else (h, []))"

definition fetch_done ::
  "tunnel_env \<Rightarrow> nat \<Rightarrow> http_stream \<Rightarrow> nat \<Rightarrow> (string \<times> string) list \<Rightarrow> tunnel_host \<Rightarrow> tunnel_host \<times> effect list" where
  "fetch_done env r s status received h =
     (if phase s \<noteq> Fetching \<or> aborted s then (h, [])
      else
        case encodeTunnelFrame (type_value HttpResponse) (JInt (int (http_id s)))
               (json_bytes env (JObject [(''status'', JNumber (JInt (int status))),
                  (''headers'', JObject (map (\<lambda>(name, v). (name, JString v)) (responseHeaders received)))])) False of
          Inl e \<Rightarrow> (set_object r (Http (s\<lparr>phase := Settled\<rparr>)) h, [Throws e])
        | Inr frame \<Rightarrow> (set_object r (Http (s\<lparr>phase := Responding []\<rparr>)) h, send frame h))"

definition response_error :: "tunnel_env \<Rightarrow> nat \<Rightarrow> http_stream \<Rightarrow> string \<Rightarrow> tunnel_host \<Rightarrow> tunnel_host \<times> effect list" where
  "response_error env r s message h =
     (if phase s \<noteq> Responding [] then (h, [])
      else
        let h = set_object r (Http (s\<lparr>phase := Settled\<rparr>)) h
        in if is_current h (http_id s) r then drop_aborting env (http_id s) (errorMessage message ''loopback response failed'') h
           else (h, []))"

definition response_chunk :: "tunnel_env \<Rightarrow> nat \<Rightarrow> http_stream \<Rightarrow> bytes \<Rightarrow> tunnel_host \<Rightarrow> tunnel_host \<times> effect list" where
  "response_chunk env r s chunk h =
     (if phase s \<noteq> Responding [] then (h, [])
      else if closed h \<or> aborted s then (set_object r (Http (s\<lparr>phase := Settled\<rparr>)) h, [])
      else case chunkPayload chunk (int MAX_TUNNEL_PAYLOAD_BYTES) of
             Inl e \<Rightarrow> response_error env r s [] h
           | Inr pieces \<Rightarrow> (set_object r (Http (s\<lparr>phase := Responding pieces\<rparr>)) h, []))"

text \<open>One piece, after the wait for the outbound buffer to drain.\<close>

definition response_piece :: "nat \<Rightarrow> http_stream \<Rightarrow> tunnel_host \<Rightarrow> tunnel_host \<times> effect list" where
  "response_piece r s h =
     (case phase s of
        Responding (piece # pieces) \<Rightarrow>
          if closed h \<or> aborted s then (set_object r (Http (s\<lparr>phase := Settled\<rparr>)) h, [])
          else (set_object r (Http (s\<lparr>phase := Responding pieces\<rparr>)) h, send_encoded HttpBody (http_id s) piece h)
      | _ \<Rightarrow> (h, []))"

definition response_end :: "nat \<Rightarrow> http_stream \<Rightarrow> tunnel_host \<Rightarrow> tunnel_host \<times> effect list" where
  "response_end r s h =
     (if phase s \<noteq> Responding [] then (h, [])
      else
        let h = set_object r (Http (s\<lparr>phase := Settled\<rparr>)) h
        in if is_current h (http_id s) r
           then let h = host_dropStream (http_id s) h in (h, send_encoded StreamEnd (http_id s) [] h)
           else (h, []))"

section \<open>WebSocket streams\<close>

definition handleWsOpen :: "tunnel_env \<Rightarrow> nat \<Rightarrow> bytes \<Rightarrow> tunnel_host \<Rightarrow> tunnel_host \<times> effect list" where
  "handleWsOpen env sid pl h =
     (if map_of (streams h) sid \<noteq> None
      then case abortLocalStream sid ''duplicate stream id'' h of
             (h, es) \<Rightarrow> (h, es @ sendAbort env sid ''duplicate stream id'' h)
      else case decodeJsonPayload env pl isWsOpenPayload of
             Inl message \<Rightarrow> (h, sendAbort env sid (errorMessage message ''malformed ws open'') h)
           | Inr v \<Rightarrow>
               let req = ws_open v
               in if \<not> isRelayWebSocketPathAllowed (open_path req)
                  then (h, sendAbort env sid ''Path is not allowed through the relay'' h)
                  else
                    let url = ''ws://127.0.0.1:'' @ dec (localPort env) @ with_query (open_path req) (open_query req)
                    in case dial_error env url (protocols req) of
                         Some message \<Rightarrow> (h, sendAbort env sid (errorMessage message ''ws dial failed'') h)
                       | None \<Rightarrow>
                           let r = next_ref h;
                               s = \<lparr>ws_id = sid, opened = False, readyState = Connecting, outgoing = []\<rparr>
                           in (set_object r (Ws s) (h\<lparr>streams := AList.update sid r (streams h), next_ref := Suc r\<rparr>),
                               [Dial r url (protocols req)
                                  [(''x-varin-relay-connection'', connectionId env), (''origin'', loopback env)]]))"

definition ws_opened :: "tunnel_env \<Rightarrow> nat \<Rightarrow> ws_stream \<Rightarrow> string \<Rightarrow> tunnel_host \<Rightarrow> tunnel_host \<times> effect list" where
  "ws_opened env r s protocol h =
     (if readyState s \<noteq> Connecting then (h, [])
      else if \<not> is_current h (ws_id s) r then (set_object r (Ws (s\<lparr>readyState := Open\<rparr>)) h, [])
      else (set_object r (Ws (s\<lparr>readyState := Open, opened := True\<rparr>)) h,
            sendJson env WsOpened (ws_id s) (JObject (if protocol \<noteq> [] then [(''protocol'', JString protocol)] else [])) h))"

text \<open>A socket delivers messages only once it is open. Each message starts a loop of its own over its frames.\<close>

definition ws_message :: "nat \<Rightarrow> ws_stream \<Rightarrow> bool \<Rightarrow> bytes \<Rightarrow> tunnel_host \<Rightarrow> tunnel_host \<times> effect list" where
  "ws_message r s isBinary bs h =
     (if readyState s = Connecting \<or> \<not> is_current h (ws_id s) r \<or> closed h then (h, [])
      else case encodeFragmentedMessage (type_value (if isBinary then WsBinary else WsText)) (JInt (int (ws_id s))) bs of
             Inl e \<Rightarrow> (h, [Throws e])
           | Inr frames \<Rightarrow> (set_object r (Ws (s\<lparr>outgoing := outgoing s @ [frames]\<rparr>)) h, []))"

definition ws_continue :: "nat \<Rightarrow> ws_stream \<Rightarrow> nat \<Rightarrow> tunnel_host \<Rightarrow> tunnel_host \<times> effect list" where
  "ws_continue r s k h =
     (if k \<ge> length (outgoing s) then (h, [])
      else case outgoing s ! k of
             [] \<Rightarrow> (set_object r (Ws (s\<lparr>outgoing := take k (outgoing s) @ drop (Suc k) (outgoing s)\<rparr>)) h, [])
           | frame # frames \<Rightarrow>
               if \<not> is_current h (ws_id s) r \<or> closed h
               then (set_object r (Ws (s\<lparr>outgoing := take k (outgoing s) @ drop (Suc k) (outgoing s)\<rparr>)) h, [])
               else (set_object r (Ws (s\<lparr>outgoing := (outgoing s)[k := frames]\<rparr>)) h, send frame h))"

definition ws_closed :: "tunnel_env \<Rightarrow> nat \<Rightarrow> ws_stream \<Rightarrow> nat \<Rightarrow> string \<Rightarrow> tunnel_host \<Rightarrow> tunnel_host \<times> effect list" where
  "ws_closed env r s code reason h =
     (let h = set_object r (Ws (s\<lparr>readyState := Closed\<rparr>)) h
      in if \<not> is_current h (ws_id s) r then (h, [])
         else
           let h = host_dropStream (ws_id s) h
           in (h, if opened s
                  then sendJson env WsClose (ws_id s)
                         (JObject [(''code'', JNumber (JInt (int (if code = 0 then 1000 else code)))), (''reason'', JString reason)]) h
                  else sendAbort env (ws_id s)
                         (if reason \<noteq> [] then reason
                          else ''upstream ws closed ('' @ (if code = 0 then ''no code'' else dec code) @ '')'') h))"

definition ws_error :: "tunnel_env \<Rightarrow> nat \<Rightarrow> ws_stream \<Rightarrow> string \<Rightarrow> tunnel_host \<Rightarrow> tunnel_host \<times> effect list" where
  "ws_error env r s message h =
     (if \<not> is_current h (ws_id s) r \<or> opened s then (h, [])
      else
        let h = set_object r (Ws (s\<lparr>readyState := Closing\<rparr>)) (host_dropStream (ws_id s) h)
        in (h, Terminate r # sendAbort env (ws_id s) (errorMessage message ''upstream ws error'') h))"

definition handleWsMessage :: "nat \<Rightarrow> bool \<Rightarrow> bytes \<Rightarrow> tunnel_host \<Rightarrow> effect list" where
  "handleWsMessage sid isBinary message h =
     (case current_stream h sid of
        Some (r, Ws s) \<Rightarrow> if readyState s = Open then [Socket_Send r isBinary message] else []
      | _ \<Rightarrow> [])"

definition close_code :: "jsval \<Rightarrow> int" where
  "close_code v =
     (case prop_of v ''code'' of
        JNumber (JInt code) \<Rightarrow> if 1000 \<le> code \<and> code \<le> 4999 then code else 1000
      | _ \<Rightarrow> 1000)"

definition handleWsClose :: "tunnel_env \<Rightarrow> nat \<Rightarrow> bytes \<Rightarrow> tunnel_host \<Rightarrow> tunnel_host \<times> effect list" where
  "handleWsClose env sid pl h =
     (case current_stream h sid of
        Some (r, Ws s) \<Rightarrow>
          let h = set_object r (Ws (s\<lparr>readyState := Closing\<rparr>)) (host_dropStream sid h);
              (code, reason) =
                (case decodeJsonPayload env pl isWsClosePayload of
                   Inl _ \<Rightarrow> (1000, [])
                 | Inr v \<Rightarrow> (close_code v, string_of (prop_of v ''reason'')))
          in (h, if close_throws env code reason then [Terminate r] else [Socket_Close r code reason])
      | _ \<Rightarrow> (h, []))"

section \<open>Frames and closing\<close>

definition dispatch_frame :: "tunnel_env \<Rightarrow> TunnelFrame \<Rightarrow> tunnel_host \<Rightarrow> tunnel_host \<times> effect list" where
  "dispatch_frame env f h =
     (if frameType f = type_value WsText \<or> frameType f = type_value WsBinary then
        (case push DEFAULT_MAX_MESSAGE_BYTES (assembler h) f of
           (pend, Inl e) \<Rightarrow> (h\<lparr>assembler := pend\<rparr>, [Throws e])
         | (pend, Inr None) \<Rightarrow> (h\<lparr>assembler := pend\<rparr>, [])
         | (pend, Inr (Some message)) \<Rightarrow>
             let h = h\<lparr>assembler := pend\<rparr> in (h, handleWsMessage (streamId f) (frameType f = type_value WsBinary) message h))
      else if frameType f = type_value HttpRequest then handleHttpRequest env (streamId f) (payload f) h
      else if frameType f = type_value HttpBody then handleHttpBody env (streamId f) (payload f) h
      else if frameType f = type_value StreamEnd then handleStreamEnd (streamId f) h
      else if frameType f = type_value StreamAbort then abortLocalStream (streamId f) ''aborted by client'' h
      else if frameType f = type_value WsOpen then handleWsOpen env (streamId f) (payload f) h
      else if frameType f = type_value WsClose then handleWsClose env (streamId f) (payload f) h
      else if frameType f = type_value Ping then (h, send_encoded Pong (streamId f) [] h)
      else (h, []))"

definition handleFrame :: "tunnel_env \<Rightarrow> bytes \<Rightarrow> tunnel_host \<Rightarrow> tunnel_host \<times> effect list" where
  "handleFrame env plaintext h =
     (if closed h then (h, [])
      else case decodeTunnelFrame plaintext of Inl e \<Rightarrow> (h, [Throws e]) | Inr f \<Rightarrow> dispatch_frame env f h)"

fun abort_all :: "nat list \<Rightarrow> tunnel_host \<Rightarrow> tunnel_host \<times> effect list" where
  "abort_all [] h = (h, [])"
| "abort_all (sid # sids) h =
     (case abortLocalStream sid ''connection closed'' h of
        (h, es) \<Rightarrow> (case abort_all sids h of (h, es') \<Rightarrow> (h, es @ es')))"

definition close_host :: "tunnel_host \<Rightarrow> tunnel_host \<times> effect list" where
  "close_host h =
     (if closed h then (h, [])
      else case abort_all (map fst (streams h)) (h\<lparr>closed := True\<rparr>) of (h, es) \<Rightarrow> (h\<lparr>streams := []\<rparr>, es))"

text \<open>What happens around the host, with the reference of the stream it happens to.\<close>

datatype http_event =
    Body_Ended
  | Deadline
  | Fetch_Failed string
  | Fetch_Done nat "(string \<times> string) list"
  | Response_Chunk bytes
  | Response_Piece
  | Response_End
  | Response_Error string

datatype ws_event =
    Ws_Opened string
  | Ws_Message bool bytes
  | Ws_Continue nat
  | Ws_Closed nat string
  | Ws_Error string

datatype host_event = Frame bytes | Http_Event nat http_event | Ws_Event nat ws_event | Close

fun http_step :: "tunnel_env \<Rightarrow> nat \<Rightarrow> http_stream \<Rightarrow> http_event \<Rightarrow> tunnel_host \<Rightarrow> tunnel_host \<times> effect list" where
  "http_step env r s Body_Ended h = body_ended env r s h"
| "http_step env r s Deadline h = delivery_deadline env r s h"
| "http_step env r s (Fetch_Failed message) h = fetch_failed env r s message h"
| "http_step env r s (Fetch_Done status received) h = fetch_done env r s status received h"
| "http_step env r s (Response_Chunk chunk) h = response_chunk env r s chunk h"
| "http_step env r s Response_Piece h = response_piece r s h"
| "http_step env r s Response_End h = response_end r s h"
| "http_step env r s (Response_Error message) h = response_error env r s message h"

fun ws_step :: "tunnel_env \<Rightarrow> nat \<Rightarrow> ws_stream \<Rightarrow> ws_event \<Rightarrow> tunnel_host \<Rightarrow> tunnel_host \<times> effect list" where
  "ws_step env r s (Ws_Opened protocol) h = ws_opened env r s protocol h"
| "ws_step env r s (Ws_Message isBinary bs) h = ws_message r s isBinary bs h"
| "ws_step env r s (Ws_Continue k) h = ws_continue r s k h"
| "ws_step env r s (Ws_Closed code reason) h = ws_closed env r s code reason h"
| "ws_step env r s (Ws_Error message) h = ws_error env r s message h"

fun tunnel_step :: "tunnel_env \<Rightarrow> tunnel_host \<Rightarrow> host_event \<Rightarrow> tunnel_host \<times> effect list" where
  "tunnel_step env h (Frame plaintext) = handleFrame env plaintext h"
| "tunnel_step env h (Http_Event r e) = (case objects h r of Some (Http s) \<Rightarrow> http_step env r s e h | _ \<Rightarrow> (h, []))"
| "tunnel_step env h (Ws_Event r e) = (case objects h r of Some (Ws s) \<Rightarrow> ws_step env r s e h | _ \<Rightarrow> (h, []))"
| "tunnel_step env h Close = close_host h"

fun tunnel_run :: "tunnel_env \<Rightarrow> tunnel_host \<Rightarrow> host_event list \<Rightarrow> tunnel_host \<times> (host_event \<times> effect list) list" where
  "tunnel_run env h [] = (h, [])"
| "tunnel_run env h (e # es) =
     (case tunnel_step env h e of (h', outs) \<Rightarrow> (case tunnel_run env h' es of (h'', trace) \<Rightarrow> (h'', (e, outs) # trace)))"

end
