(* ===== verification/Tunnel_Host_Protocol.thy ===== *)
theory Tunnel_Host_Protocol
  imports Tunnel_Host
begin

text \<open>
  The protocol a client of the tunnel host sees, as a machine of sessions, the host's invariant, and the proof that the
  host simulates the machine: \<open>view\<close> maps a host to the sessions, every handler is a sequence of moves, and a closed host is
  silent.
\<close>


section \<open>The protocol the client sees\<close>

text \<open>
  A stream the client has opened waits for the head of the response or for the socket, and then receives its body or its
  messages. Every frame the host may send is a move of this machine; \<open>None\<close> is a stream that is not open.
\<close>

datatype session = Http_Wait | Http_Body | Ws_Dialing | Ws_Up

type_synonym sessions = "nat \<rightharpoonup> session"

fun answer :: "session \<Rightarrow> TunnelFrameType \<Rightarrow> session option option" where
  "answer Http_Wait HttpResponse = Some (Some Http_Body)"
| "answer Http_Wait StreamAbort = Some None"
| "answer Http_Body HttpBody = Some (Some Http_Body)"
| "answer Http_Body StreamEnd = Some None"
| "answer Http_Body StreamAbort = Some None"
| "answer Ws_Dialing WsOpened = Some (Some Ws_Up)"
| "answer Ws_Dialing StreamAbort = Some None"
| "answer Ws_Up WsText = Some (Some Ws_Up)"
| "answer Ws_Up WsBinary = Some (Some Ws_Up)"
| "answer Ws_Up WsClose = Some None"
| "answer s ft = None"

definition frame_type :: "TunnelFrame \<Rightarrow> TunnelFrameType option" where
  "frame_type f = client_isTunnelFrameType (frameType f)"

definition reply :: "nat option \<Rightarrow> sessions \<Rightarrow> TunnelFrame \<Rightarrow> sessions option" where
  "reply ping m f =
     (case frame_type f of
        None \<Rightarrow> None
      | Some Pong \<Rightarrow> if ping = Some (streamId f) then Some m else None
      | Some ft \<Rightarrow>
          (case m (streamId f) of
             None \<Rightarrow> None
           | Some s \<Rightarrow> (case answer s ft of None \<Rightarrow> None | Some s' \<Rightarrow> Some (m(streamId f := s')))))"

fun sees :: "nat option \<Rightarrow> sessions \<Rightarrow> effect list \<Rightarrow> sessions option" where
  "sees ping m [] = Some m"
| "sees ping m (Send_Frame bs # outs) =
     (case decodeTunnelFrame bs of
        Inl _ \<Rightarrow> None
      | Inr f \<Rightarrow> (case reply ping m f of None \<Rightarrow> None | Some m' \<Rightarrow> sees ping m' outs))"
| "sees ping m (out # outs) = sees ping m outs"

text \<open>What the client's own frames do: it opens a stream, aborts it, or closes a socket.\<close>

definition hears_frame :: "TunnelFrame \<Rightarrow> sessions \<Rightarrow> sessions" where
  "hears_frame f m =
     (case frame_type f of
        Some HttpRequest \<Rightarrow> m(streamId f \<mapsto> Http_Wait)
      | Some WsOpen \<Rightarrow> m(streamId f \<mapsto> Ws_Dialing)
      | Some StreamAbort \<Rightarrow> m(streamId f := None)
      | Some WsClose \<Rightarrow>
          (case m (streamId f) of
             Some Ws_Dialing \<Rightarrow> m(streamId f := None)
           | Some Ws_Up \<Rightarrow> m(streamId f := None)
           | _ \<Rightarrow> m)
      | _ \<Rightarrow> m)"

fun frame_of :: "host_event \<Rightarrow> TunnelFrame option" where
  "frame_of (Frame bs) = (case decodeTunnelFrame bs of Inl _ \<Rightarrow> None | Inr f \<Rightarrow> Some f)"
| "frame_of e = None"

definition hears :: "host_event \<Rightarrow> sessions \<Rightarrow> sessions" where
  "hears e m = (case frame_of e of None \<Rightarrow> m | Some f \<Rightarrow> hears_frame f m)"

definition pinged :: "host_event \<Rightarrow> nat option" where
  "pinged e = (case frame_of e of None \<Rightarrow> None | Some f \<Rightarrow> if frame_type f = Some Ping then Some (streamId f) else None)"

fun conforms :: "sessions \<Rightarrow> (host_event \<times> effect list) list \<Rightarrow> bool" where
  "conforms m [] = True"
| "conforms m ((e, outs) # trace) =
     (case sees (pinged e) (hears e m) outs of None \<Rightarrow> False | Some m' \<Rightarrow> conforms m' trace)"

definition oversize :: "effect list \<Rightarrow> bool" where
  "oversize outs \<longleftrightarrow> Throws PayloadTooLarge \<in> set outs"

section \<open>The host's invariant\<close>

fun stream_id :: "TunnelStream \<Rightarrow> nat" where
  "stream_id (Http s) = http_id s"
| "stream_id (Ws s) = ws_id s"

fun session_of :: "TunnelStream \<Rightarrow> session" where
  "session_of (Http s) = (case phase s of Responding _ \<Rightarrow> Http_Body | _ \<Rightarrow> Http_Wait)"
| "session_of (Ws s) = (if opened s then Ws_Up else Ws_Dialing)"

definition view :: "tunnel_host \<Rightarrow> sessions" where
  "view h sid = (case current_stream h sid of None \<Rightarrow> None | Some (r, x) \<Rightarrow> Some (session_of x))"

definition socket_frame :: "nat \<Rightarrow> bytes \<Rightarrow> bool" where
  "socket_frame sid frame \<longleftrightarrow>
     (\<exists>f. decodeTunnelFrame frame = Inr f \<and> streamId f = sid \<and> frame_type f \<in> {Some WsText, Some WsBinary})"

fun object_ok :: "bool \<Rightarrow> TunnelStream \<Rightarrow> bool" where
  "object_ok current (Http s) \<longleftrightarrow>
     (current \<longrightarrow> \<not> aborted s) \<and>
     (phase s = Fetching \<or> (\<exists>ps. phase s = Responding ps) \<longrightarrow> current \<or> aborted s) \<and>
     (\<forall>ps. phase s = Responding ps \<longrightarrow> (\<forall>p \<in> set ps. length p \<le> MAX_TUNNEL_PAYLOAD_BYTES)) \<and>
     (sink s = Buffering \<or> phase s = Awaiting_Body \<longrightarrow> isAllowedHttpPath (request_path (request s)) \<and> sink s = Buffering) \<and>
     (current \<and> sink s = Buffering \<longrightarrow> phase s = Awaiting_Body)"
| "object_ok current (Ws s) \<longleftrightarrow>
     (current \<longrightarrow> (readyState s \<noteq> Connecting \<longleftrightarrow> opened s)) \<and>
     (current \<and> outgoing s \<noteq> [] \<longrightarrow> opened s) \<and>
     (\<forall>frames \<in> set (outgoing s). \<forall>frame \<in> set frames. socket_frame (ws_id s) frame)"

definition host_ok :: "tunnel_host \<Rightarrow> bool" where
  "host_ok h \<longleftrightarrow>
     (\<forall>sid r. is_current h sid r \<longrightarrow> sid < 2 ^ 32 \<and> (\<exists>x. objects h r = Some x \<and> stream_id x = sid)) \<and>
     (\<forall>r x. objects h r = Some x \<longrightarrow> r < next_ref h \<and> object_ok (is_current h (stream_id x) r) x)"

lemma update_simps [simp]:
  "streams (set_object r x h) = streams h" "next_ref (set_object r x h) = next_ref h" "closed (set_object r x h) = closed h"
  "assembler (set_object r x h) = assembler h" "objects (set_object r x h) = (objects h)(r \<mapsto> x)"
  "objects (host_dropStream sid h) = objects h" "next_ref (host_dropStream sid h) = next_ref h"
  "closed (host_dropStream sid h) = closed h" "is_current (set_object r x h) = is_current h"
  "is_current (host_dropStream sid h) sid' r' \<longleftrightarrow> sid' \<noteq> sid \<and> is_current h sid' r'"
  by (auto simp: set_object_def host_dropStream_def is_current_def fun_eq_iff)

lemma set_set [simp]: "set_object r x (set_object r y h) = set_object r x h"
  by (simp add: set_object_def)

lemma drop_set_object: "set_object r x (host_dropStream sid h) = host_dropStream sid (set_object r x h)"
  by (simp add: set_object_def host_dropStream_def)

lemma host_okD:
  assumes "host_ok h" "is_current h sid r"
  shows "sid < 2 ^ 32" "\<exists>x. objects h r = Some x \<and> stream_id x = sid"
  using assms by (auto simp: host_ok_def)

lemma host_ok_object:
  assumes "host_ok h" "objects h r = Some x"
  shows "r < next_ref h" "object_ok (is_current h (stream_id x) r) x"
  using assms by (auto simp: host_ok_def)

lemma is_current_fun: "is_current h sid r \<Longrightarrow> is_current h sid r' \<longleftrightarrow> r' = r"
  by (auto simp: is_current_def)

lemma current_id: "host_ok h \<Longrightarrow> is_current h sid r \<Longrightarrow> objects h r = Some x \<Longrightarrow> stream_id x = sid"
  by (drule (1) host_okD(2)) auto

lemma view_current:
  assumes "host_ok h" "is_current h sid r" "objects h r = Some x"
  shows "view h sid = Some (session_of x)"
  using assms by (auto simp: view_def current_stream_def is_current_def)

lemma view_none: "map_of (streams h) sid = None \<Longrightarrow> view h sid = None"
  by (simp add: view_def current_stream_def)

lemma ok_set_object:
  assumes "host_ok h" "objects h r = Some x" "stream_id x' = stream_id x" "object_ok (is_current h (stream_id x) r) x'"
  shows "host_ok (set_object r x' h)"
  unfolding host_ok_def
proof (intro conjI allI impI)
  fix sid r' assume "is_current (set_object r x' h) sid r'"
  then show "sid < 2 ^ 32" "\<exists>y. objects (set_object r x' h) r' = Some y \<and> stream_id y = sid"
    using host_okD [OF assms(1), of sid r'] assms(2,3) by auto
next
  fix r' y assume "objects (set_object r x' h) r' = Some y"
  then show "r' < next_ref (set_object r x' h)" "object_ok (is_current (set_object r x' h) (stream_id y) r') y"
    using host_ok_object [OF assms(1), of r' y] host_ok_object(1) [OF assms(1,2)] assms(3,4) by (auto split: if_splits)
qed

lemma view_at: "view h sid = (case map_of (streams h) sid of None \<Rightarrow> None | Some r \<Rightarrow> map_option session_of (objects h r))"
  by (simp add: view_def current_stream_def split: option.split)

lemma view_set_object:
  assumes "host_ok h" "objects h r = Some x"
  shows "view (set_object r x' h) = (if is_current h (stream_id x) r then (view h)(stream_id x \<mapsto> session_of x') else view h)"
proof
  fix sid
  have "is_current h sid r \<Longrightarrow> sid = stream_id x" using current_id [OF assms(1) _ assms(2)] by simp
  then show "view (set_object r x' h) sid =
      (if is_current h (stream_id x) r then (view h)(stream_id x \<mapsto> session_of x') else view h) sid"
    by (cases "map_of (streams h) sid") (auto simp: view_at is_current_def)
qed

lemma ok_drop:
  assumes "host_ok h" "is_current h sid r" "objects h r = Some x" "object_ok False x"
  shows "host_ok (host_dropStream sid h)"
  unfolding host_ok_def
proof (intro conjI allI impI)
  fix sid' r' assume "is_current (host_dropStream sid h) sid' r'"
  then show "sid' < 2 ^ 32" "\<exists>x. objects (host_dropStream sid h) r' = Some x \<and> stream_id x = sid'"
    using host_okD [OF assms(1)] by auto
next
  fix r' x' assume "objects (host_dropStream sid h) r' = Some x'"
  then show "r' < next_ref (host_dropStream sid h)" "object_ok (is_current (host_dropStream sid h) (stream_id x') r') x'"
    using host_ok_object [OF assms(1), of r' x'] assms(3,4) is_current_fun [OF assms(2), of r'] by (cases "stream_id x' = sid"; auto)+
qed

lemma view_drop: "view (host_dropStream sid h) = (view h)(sid := None)"
  by (rule ext) (auto simp: view_at host_dropStream_def split: option.split)

lemma ok_drop_set:
  assumes "host_ok h" "is_current h sid r" "objects h r = Some x" "stream_id x' = sid" "object_ok False x'"
  shows "host_ok (host_dropStream sid (set_object r x' h))"
proof -
  have id: "stream_id x = sid" using current_id [OF assms(1-3)] .
  show ?thesis
    unfolding host_ok_def
  proof (intro conjI allI impI)
    fix sid' r' assume "is_current (host_dropStream sid (set_object r x' h)) sid' r'"
    then show "sid' < 2 ^ 32" "\<exists>y. objects (host_dropStream sid (set_object r x' h)) r' = Some y \<and> stream_id y = sid'"
      using host_okD [OF assms(1), of sid' r'] assms(3) id by auto
  next
    fix r' y assume "objects (host_dropStream sid (set_object r x' h)) r' = Some y"
    then show "r' < next_ref (host_dropStream sid (set_object r x' h))"
      "object_ok (is_current (host_dropStream sid (set_object r x' h)) (stream_id y) r') y"
      using host_ok_object [OF assms(1), of r'] host_ok_object(1) [OF assms(1,3)] assms(4,5) is_current_fun [OF assms(2), of r']
      by (cases "stream_id y = sid"; auto split: if_splits)+
  qed
qed

lemma view_drop_set:
  assumes "host_ok h" "is_current h sid r" "objects h r = Some x"
  shows "view (host_dropStream sid (set_object r x' h)) = (view h)(sid := None)"
  using current_id [OF assms] view_set_object [OF assms(1,3), of x'] by (simp add: view_drop)

lemma add_stream:
  assumes "host_ok h" "map_of (streams h) sid = None" "sid < 2 ^ 32" "stream_id x = sid" "object_ok True x"
  shows "host_ok (set_object (next_ref h) x (h\<lparr>streams := AList.update sid (next_ref h) (streams h), next_ref := Suc (next_ref h)\<rparr>))" (is "host_ok ?h")
    and "view (set_object (next_ref h) x (h\<lparr>streams := AList.update sid (next_ref h) (streams h), next_ref := Suc (next_ref h)\<rparr>)) =
      (view h)(sid \<mapsto> session_of x)"
proof -
  have fresh: "objects h (next_ref h) = None"
    using assms(1) by (cases "objects h (next_ref h)") (auto simp: host_ok_def)
  then have "\<not> is_current h sid' (next_ref h)" for sid'
    using assms(1) by (auto simp: host_ok_def)
  have new: "is_current ?h sid' r' \<longleftrightarrow> (if sid' = sid then r' = next_ref h else is_current h sid' r')" for sid' r'
    by (auto simp: is_current_def set_object_def)
  show "host_ok ?h"
    unfolding host_ok_def new
  proof (intro conjI allI impI)
    fix sid' r' assume "if sid' = sid then r' = next_ref h else is_current h sid' r'"
    then show "sid' < 2 ^ 32" "\<exists>y. objects ?h r' = Some y \<and> stream_id y = sid'"
      using assms(3,4) host_okD [OF assms(1), of sid' r'] fresh by (auto split: if_splits)
  next
    fix r' y assume y: "objects ?h r' = Some y"
    then show "r' < next_ref ?h" "object_ok (if stream_id y = sid then r' = next_ref h else is_current h (stream_id y) r') y"
      using assms(2,4,5) host_ok_object [OF assms(1), of r' y] by (auto simp: is_current_def split: if_splits)
  qed
  show "view ?h = (view h)(sid \<mapsto> session_of x)"
    using \<open>\<And>sid'. \<not> is_current h sid' (next_ref h)\<close>
    by (intro ext) (auto simp: view_at is_current_def set_object_def split: option.split)
qed

section \<open>Sending\<close>

lemma frame_type_value: "client_isTunnelFrameType (type_value ft) = Some ft"
  by (cases ft) (simp_all add: client_isTunnelFrameType_def TunnelFrameTypes_def)

lemma send_encoded_cases:
  assumes "\<not> closed h" "sid < 2 ^ 32"
  obtains "send_encoded ft sid pl h = [Throws PayloadTooLarge]" "length pl > MAX_TUNNEL_PAYLOAD_BYTES"
  | frame where "send_encoded ft sid pl h = [Send_Frame frame]"
      "decodeTunnelFrame frame = Inr \<lparr>frameType = type_value ft, streamId = sid, payload = pl, hasMoreFragments = False\<rparr>"
proof (cases "encodeTunnelFrame (type_value ft) (JInt (int sid)) pl False")
  case (Inl e)
  with assms have "e = PayloadTooLarge" "length pl > MAX_TUNNEL_PAYLOAD_BYTES"
    by (auto simp: encodeTunnelFrame_def MAX_STREAM_ID_def split: if_splits)
  with Inl that(1) show thesis by (simp add: send_encoded_def)
next
  case (Inr frame)
  with assms decode_of_encode [of "type_value ft" "int sid" pl False frame]
  have "decodeTunnelFrame frame = Inr \<lparr>frameType = type_value ft, streamId = sid, payload = pl, hasMoreFragments = False\<rparr>"
    by (simp add: MAX_STREAM_ID_def)
  with Inr assms(1) that(2) show thesis by (simp add: send_encoded_def send_def)
qed

lemma sees_send:
  assumes "\<not> closed h" "sid < 2 ^ 32" "m sid = Some s" "answer s ft = Some s'"
  shows "oversize (send_encoded ft sid pl h) \<or> sees ping m (send_encoded ft sid pl h @ outs) = sees ping (m(sid := s')) outs"
proof (rule send_encoded_cases [OF assms(1,2), of ft pl])
  assume "send_encoded ft sid pl h = [Throws PayloadTooLarge]"
  then show ?thesis by (simp add: oversize_def)
next
  fix frame
  assume sent: "send_encoded ft sid pl h = [Send_Frame frame]"
    "decodeTunnelFrame frame = Inr \<lparr>frameType = type_value ft, streamId = sid, payload = pl, hasMoreFragments = False\<rparr>"
  have "ft \<noteq> Pong" using assms(4) by (cases s) auto
  then have "reply ping m \<lparr>frameType = type_value ft, streamId = sid, payload = pl, hasMoreFragments = False\<rparr> = Some (m(sid := s'))"
    using assms(3,4) by (simp add: reply_def frame_type_def frame_type_value) (cases ft; simp)
  with sent show ?thesis by simp
qed

lemma oversize_append [simp]: "oversize (xs @ ys) \<longleftrightarrow> oversize xs \<or> oversize ys" "\<not> oversize []"
  "oversize (x # xs) \<longleftrightarrow> x = Throws PayloadTooLarge \<or> oversize xs"
  by (auto simp: oversize_def)


section \<open>Every step is a move of the protocol\<close>

definition silent :: "effect list \<Rightarrow> bool" where
  "silent outs \<longleftrightarrow> (\<forall>bs. Send_Frame bs \<notin> set outs)"

lemma silent_simps [simp]: "silent []" "silent (x # xs) \<longleftrightarrow> (\<forall>bs. x \<noteq> Send_Frame bs) \<and> silent xs" "silent (xs @ ys) \<longleftrightarrow> silent xs \<and> silent ys"
  "silent (map (Body_Enqueue r) cs)"
  by (auto simp: silent_def)

lemma sees_silent: "silent pre \<Longrightarrow> sees ping m (pre @ outs) = sees ping m outs"
proof (induction pre)
  case (Cons x pre)
  then show ?case by (cases x) auto
qed simp

definition tracks :: "nat option \<Rightarrow> sessions \<Rightarrow> tunnel_host \<times> effect list \<Rightarrow> bool" where
  "tracks ping m res \<longleftrightarrow> host_ok (fst res) \<and> (oversize (snd res) \<or> sees ping m (snd res) = Some (view (fst res)))"

lemma tracks_nothing: "host_ok h \<Longrightarrow> m = view h \<Longrightarrow> silent outs \<Longrightarrow> tracks ping m (h, outs)"
  using sees_silent [of outs ping m "[]"] by (simp add: tracks_def)

lemma tracks_update:
  assumes "host_ok h" "objects h r = Some x" "stream_id x' = stream_id x" "object_ok (is_current h (stream_id x) r) x'"
    and "is_current h (stream_id x) r \<Longrightarrow> session_of x' = session_of x" "silent outs"
  shows "tracks ping (view h) (set_object r x' h, outs)"
proof (rule tracks_nothing)
  show "host_ok (set_object r x' h)" using ok_set_object [OF assms(1-4)] .
  show "view h = view (set_object r x' h)"
    using assms(5) view_current [OF assms(1) _ assms(2)] view_set_object [OF assms(1,2), of x'] by (auto simp: fun_eq_iff)
qed (rule assms(6))

lemma tracks_send:
  assumes "host_ok h" "objects h r = Some x" "stream_id x = sid" "is_current h sid r" "stream_id x' = sid" "object_ok True x'"
    and "\<not> closed h'" "answer (session_of x) ft = Some (Some (session_of x'))"
  shows "tracks ping (view h) (set_object r x' h, send_encoded ft sid pl h')"
  unfolding tracks_def fst_conv snd_conv
proof
  show "host_ok (set_object r x' h)" using ok_set_object [OF assms(1,2)] assms by simp
  show "oversize (send_encoded ft sid pl h') \<or> sees ping (view h) (send_encoded ft sid pl h') = Some (view (set_object r x' h))"
    using sees_send [of h' sid "view h" "session_of x" ft "Some (session_of x')" pl ping "[]"] assms(7,8)
      host_okD(1) [OF assms(1,4)] view_current [OF assms(1,4,2)]
      view_set_object [OF assms(1,2), of x'] assms(3,4) by simp
qed

lemma tracks_drop:
  assumes "host_ok h" "objects h r = Some x" "is_current h sid r" "stream_id x' = sid" "object_ok False x'"
    and "\<not> closed h'" "answer (session_of x) ft = Some None" "silent pre"
  shows "tracks ping (view h) (host_dropStream sid (set_object r x' h), pre @ send_encoded ft sid pl h')"
  unfolding tracks_def fst_conv snd_conv
proof
  show "host_ok (host_dropStream sid (set_object r x' h))" using ok_drop_set [OF assms(1,3,2,4,5)] .
  show "oversize (pre @ send_encoded ft sid pl h') \<or>
      sees ping (view h) (pre @ send_encoded ft sid pl h') = Some (view (host_dropStream sid (set_object r x' h)))"
    using sees_send [of h' sid "view h" "session_of x" ft None pl ping "[]"] assms(6,7)
      host_okD(1) [OF assms(1,3)] view_current [OF assms(1,3,2)]
      view_drop_set [OF assms(1,3,2), of x'] assms(8) by (simp add: sees_silent)
qed

lemmas tracks_drop_now = tracks_drop [where pre = "[]", simplified append_Nil]

lemma tracks_drop_silent:
  assumes "host_ok h" "objects h r = Some x" "is_current h sid r" "stream_id x' = sid" "object_ok False x'"
    and "m = (view h)(sid := None)" "silent outs"
  shows "tracks ping m (host_dropStream sid (set_object r x' h), outs)"
  using ok_drop_set [OF assms(1,3,2,4,5)] view_drop_set [OF assms(1,3,2), of x'] assms(6,7) by (intro tracks_nothing) simp_all

lemmas handler_defs = drop_aborting_def sendAbort_def sendJson_def Let_def

lemma abort_tracks:
  assumes "host_ok h" "\<not> closed h" "objects h r = Some (Http s)" "is_current h (http_id s) r" "http_id s' = http_id s" "object_ok False (Http s')"
  shows "tracks None (view h) (drop_aborting env (http_id s) reason (set_object r (Http s') h))"
  unfolding handler_defs
  by (rule tracks_drop_now [OF assms(1,3,4)]) (use assms in \<open>auto split: http_phase.split\<close>)

lemma settle_tracks:
  assumes "host_ok h" "objects h r = Some (Http s)" "is_current h (http_id s) r \<Longrightarrow> phase s = Fetching" "silent outs"
  shows "tracks None (view h) (set_object r (Http (s\<lparr>phase := Settled\<rparr>)) h, outs)"
  by (rule tracks_update [OF assms(1,2)]) (use host_ok_object [OF assms(1,2)] assms(3,4) in \<open>auto split: http_phase.split\<close>)

lemma body_ended_tracks:
  assumes "host_ok h" "\<not> closed h" "objects h r = Some (Http s)"
  shows "tracks None (view h) (body_ended env r s h)"
proof (cases "phase s = Awaiting_Body \<and> completed s")
  case True
  note ok = host_ok_object [OF assms(1,3)]
  have "tracks None (view h) (set_object r (Http (s\<lparr>sink := No_Sink, phase := Fetching\<rparr>)) h,
      [request_effect env r (request s) (Buffer (concat (buffered s)))])" if "is_current h (http_id s) r"
    by (rule tracks_update [OF assms(1,3)]) (use ok that True in \<open>auto simp: request_effect_def\<close>)
  moreover have "tracks None (view h) (drop_aborting env (http_id s) reason (set_object r (Http (s\<lparr>phase := Settled\<rparr>)) h))"
    if "is_current h (http_id s) r" for reason
    by (rule abort_tracks [OF assms that]) (use ok in auto)
  moreover have "tracks None (view h) (set_object r (Http (s\<lparr>phase := Settled\<rparr>)) h, [])" if "\<not> is_current h (http_id s) r"
    by (rule settle_tracks [OF assms(1,3)]) (use that in auto)
  ultimately show ?thesis
    using True by (auto simp: body_ended_def forwardRequest_def Let_def split: option.split)
next
  case False
  with tracks_nothing [OF assms(1)] show ?thesis by (auto simp: body_ended_def)
qed

lemma delivery_deadline_tracks:
  assumes "host_ok h" "\<not> closed h" "objects h r = Some (Http s)"
  shows "tracks None (view h) (delivery_deadline env r s h)"
proof (cases "phase s \<noteq> Awaiting_Body \<or> \<not> is_current h (http_id s) r \<or> completed s")
  case True
  with tracks_nothing [OF assms(1)] show ?thesis by (simp add: delivery_deadline_def)
next
  case False
  have "object_ok False (Http (finishBody failure s))" for failure
    using host_ok_object [OF assms(1,3)] False by (auto simp: finishBody_def)
  moreover have "http_id (finishBody failure s) = http_id s" for failure by (simp add: finishBody_def)
  ultimately show ?thesis
    using False by (simp add: delivery_deadline_def abort_tracks [OF assms] del: object_ok.simps)
qed

lemma fetch_failed_tracks:
  assumes "host_ok h" "\<not> closed h" "objects h r = Some (Http s)"
  shows "tracks None (view h) (fetch_failed env r s message h)"
proof (cases "phase s = Fetching")
  case True
  note ok = host_ok_object [OF assms(1,3)]
  have "tracks None (view h) (drop_aborting env (http_id s) reason (set_object r (Http (s\<lparr>phase := Settled\<rparr>)) h))"
    if "is_current h (http_id s) r" for reason
    by (rule abort_tracks [OF assms that]) (use ok in auto)
  moreover have "tracks None (view h) (set_object r (Http (s\<lparr>phase := Settled\<rparr>)) h, [])" if "\<not> is_current h (http_id s) r"
    by (rule settle_tracks [OF assms(1,3)]) (use that in auto)
  ultimately show ?thesis using True by (auto simp: fetch_failed_def Let_def)
qed (use tracks_nothing [OF assms(1)] in \<open>simp add: fetch_failed_def\<close>)

lemma response_error_tracks:
  assumes "host_ok h" "\<not> closed h" "objects h r = Some (Http s)"
  shows "tracks None (view h) (response_error env r s message h)"
proof (cases "phase s = Responding []")
  case True
  note ok = host_ok_object [OF assms(1,3)]
  have "tracks None (view h) (drop_aborting env (http_id s) reason (set_object r (Http (s\<lparr>phase := Settled\<rparr>)) h))"
    if "is_current h (http_id s) r" for reason
    by (rule abort_tracks [OF assms that]) (use ok in auto)
  moreover have "tracks None (view h) (set_object r (Http (s\<lparr>phase := Settled\<rparr>)) h, [])" if "\<not> is_current h (http_id s) r"
    by (rule settle_tracks [OF assms(1,3)]) (use that in auto)
  ultimately show ?thesis using True by (auto simp: response_error_def Let_def)
qed (use tracks_nothing [OF assms(1)] in \<open>simp add: response_error_def\<close>)

lemma response_end_tracks:
  assumes "host_ok h" "\<not> closed h" "objects h r = Some (Http s)"
  shows "tracks None (view h) (response_end r s h)"
proof (cases "phase s = Responding []")
  case True
  note ok = host_ok_object [OF assms(1,3)]
  have "tracks None (view h) (host_dropStream (http_id s) (set_object r (Http (s\<lparr>phase := Settled\<rparr>)) h),
      send_encoded StreamEnd (http_id s) [] (host_dropStream (http_id s) (set_object r (Http (s\<lparr>phase := Settled\<rparr>)) h)))"
    if "is_current h (http_id s) r"
    by (rule tracks_drop_now [OF assms(1,3) that]) (use ok assms True in auto)
  moreover have "tracks None (view h) (set_object r (Http (s\<lparr>phase := Settled\<rparr>)) h, [])" if "\<not> is_current h (http_id s) r"
    by (rule settle_tracks [OF assms(1,3)]) (use that in auto)
  ultimately show ?thesis using True by (auto simp: response_end_def Let_def)
qed (use tracks_nothing [OF assms(1)] in \<open>simp add: response_end_def\<close>)

text \<open>An aborted stream leaves the map with the abort, so what goes on is the stream's own.\<close>

lemma running_current:
  assumes "host_ok h" "objects h r = Some (Http s)" "phase s = Fetching \<or> phase s = Responding ps" "\<not> aborted s"
  shows "is_current h (http_id s) r"
  using host_ok_object(2) [OF assms(1,2)] assms(3,4) unfolding object_ok.simps stream_id.simps by blast

lemma fetch_done_tracks:
  assumes "host_ok h" "\<not> closed h" "objects h r = Some (Http s)"
  shows "tracks None (view h) (fetch_done env r s status received h)"
proof (cases "phase s = Fetching \<and> \<not> aborted s")
  case True
  then have current: "is_current h (http_id s) r" using running_current [OF assms(1,3)] by simp
  note ok = host_ok_object [OF assms(1,3)]
  have head: "tracks None (view h) (set_object r (Http (s\<lparr>phase := Responding []\<rparr>)) h, send_encoded HttpResponse (http_id s) pl h)" for pl
    by (rule tracks_send [OF assms(1,3) _ current]) (use ok current assms True in auto)
  have "tracks None (view h) (set_object r (Http (s\<lparr>phase := Settled\<rparr>)) h, [Throws e])" for e
    by (rule settle_tracks [OF assms(1,3)]) (use True in auto)
  moreover define pl where "pl = json_bytes env (JObject [(''status'', JNumber (JInt (int status))),
      (''headers'', JObject (map (\<lambda>(name, v). (name, JString v)) (responseHeaders received)))])"
  have "fetch_done env r s status received h =
      (case encodeTunnelFrame (type_value HttpResponse) (JInt (int (http_id s))) pl False of
         Inl e \<Rightarrow> (set_object r (Http (s\<lparr>phase := Settled\<rparr>)) h, [Throws e])
       | Inr frame \<Rightarrow> (set_object r (Http (s\<lparr>phase := Responding []\<rparr>)) h, send frame h))"
    using True by (simp add: fetch_done_def pl_def)
  ultimately show ?thesis
    using head [of pl] by (auto simp: send_encoded_def split: sum.splits)
qed (use tracks_nothing [OF assms(1)] in \<open>auto simp: fetch_done_def\<close>)

lemma response_chunk_tracks:
  assumes "host_ok h" "\<not> closed h" "objects h r = Some (Http s)"
  shows "tracks None (view h) (response_chunk env r s bs h)"
proof (cases "phase s = Responding []")
  case True
  note ok = host_ok_object [OF assms(1,3)]
  have "tracks None (view h) (set_object r (Http (s\<lparr>phase := Settled\<rparr>)) h, [])" if "aborted s"
    by (rule settle_tracks [OF assms(1,3)]) (use ok that in auto)
  moreover have "tracks None (view h) (set_object r (Http (s\<lparr>phase := Responding pieces\<rparr>)) h, [])"
    if "chunkPayload bs (int MAX_TUNNEL_PAYLOAD_BYTES) = Inr pieces" "\<not> aborted s" for pieces
    by (rule tracks_update [OF assms(1,3)]) (use ok that True chunkPayload_Inr(3) [OF that(1)] in auto)
  ultimately show ?thesis
    using True response_error_tracks [OF assms] assms(2) by (auto simp: response_chunk_def split: sum.split)
qed (use tracks_nothing [OF assms(1)] in \<open>auto simp: response_chunk_def\<close>)


lemma response_piece_tracks:
  assumes "host_ok h" "\<not> closed h" "objects h r = Some (Http s)"
  shows "tracks None (view h) (response_piece r s h)"
proof (cases "\<exists>p ps. phase s = Responding (p # ps)")
  case True
  then obtain p ps where phase: "phase s = Responding (p # ps)" by blast
  note ok = host_ok_object [OF assms(1,3)]
  show ?thesis
  proof (cases "aborted s")
    case True
    have "tracks None (view h) (set_object r (Http (s\<lparr>phase := Settled\<rparr>)) h, [])"
      by (rule settle_tracks [OF assms(1,3)]) (use ok True in auto)
    with True phase show ?thesis by (simp add: response_piece_def)
  next
    case False
    with running_current [OF assms(1,3)] phase have current: "is_current h (http_id s) r" by blast
    have "tracks None (view h) (set_object r (Http (s\<lparr>phase := Responding ps\<rparr>)) h, send_encoded HttpBody (http_id s) p h)"
      by (rule tracks_send [OF assms(1,3) _ current]) (use ok current assms phase False in auto)
    with False phase assms(2) show ?thesis by (simp add: response_piece_def)
  qed
next
  case False
  then have "response_piece r s h = (h, [])" by (auto simp: response_piece_def split: http_phase.split list.split)
  with tracks_nothing [OF assms(1)] show ?thesis by simp
qed

lemma http_step_tracks:
  assumes "host_ok h" "\<not> closed h" "objects h r = Some (Http s)"
  shows "tracks None (view h) (http_step env r s e h)"
  by (cases e) (simp_all add: body_ended_tracks [OF assms] delivery_deadline_tracks [OF assms] fetch_failed_tracks [OF assms]
      fetch_done_tracks [OF assms] response_chunk_tracks [OF assms] response_piece_tracks [OF assms]
      response_end_tracks [OF assms] response_error_tracks [OF assms])

lemma ws_opened_tracks:
  assumes "host_ok h" "\<not> closed h" "objects h r = Some (Ws s)"
  shows "tracks None (view h) (ws_opened env r s protocol h)"
proof (cases "readyState s = Connecting")
  case True
  note ok = host_ok_object [OF assms(1,3)]
  have "tracks None (view h) (set_object r (Ws (s\<lparr>readyState := Open\<rparr>)) h, [])" if "\<not> is_current h (ws_id s) r"
    by (rule tracks_update [OF assms(1,3)]) (use ok that in auto)
  moreover have "tracks None (view h) (set_object r (Ws (s\<lparr>readyState := Open, opened := True\<rparr>)) h, send_encoded WsOpened (ws_id s) pl h)"
    if "is_current h (ws_id s) r" for pl
    by (rule tracks_send [OF assms(1,3) _ that]) (use ok that True assms(2) in auto)
  ultimately show ?thesis using True by (auto simp: ws_opened_def sendJson_def)
qed (use tracks_nothing [OF assms(1)] in \<open>simp add: ws_opened_def\<close>)

lemma encoded_socket_frames:
  assumes "encodeFragmentedMessage (type_value ft) (JInt (int sid)) bs = Inr frames" "sid < 2 ^ 32" "ft = WsText \<or> ft = WsBinary"
  shows "\<forall>frame \<in> set frames. socket_frame sid frame"
proof -
  obtain cs where "chunkPayload bs (int MAX_TUNNEL_PAYLOAD_BYTES) = Inr cs"
    "ocollect (map (\<lambda>(i, c). encodeTunnelFrame (type_value ft) (JInt (int sid)) c (i < 0 + length cs - 1)) (List.enumerate 0 cs)) = Inr frames"
    using assms(1) by (auto simp: encodeFragmentedMessage_def obind_Inr_iff)
  then have "map decodeTunnelFrame frames = map Inr (fragments (type_value ft) sid cs)"
    using encode_fragments [of "type_value ft" "int sid" 0 cs frames] assms(2) by (simp add: MAX_STREAM_ID_def)
  moreover have "\<forall>f \<in> set (fragments t sid cs). frameType f = t \<and> streamId f = sid" for t
    by (induction t sid cs rule: fragments.induct) auto
  ultimately have "\<exists>f. decodeTunnelFrame frame = Inr f \<and> frameType f = type_value ft \<and> streamId f = sid" if "frame \<in> set frames" for frame
    using that by (metis (no_types, lifting) image_iff list.set_map)
  then show ?thesis
    using assms(3) frame_type_value [of ft] unfolding socket_frame_def frame_type_def by (metis insertCI)
qed

lemma ws_message_tracks:
  assumes "host_ok h" "\<not> closed h" "objects h r = Some (Ws s)"
  shows "tracks None (view h) (ws_message r s isBinary bs h)"
proof (cases "readyState s = Connecting \<or> \<not> is_current h (ws_id s) r")
  case False
  note ok = host_ok_object [OF assms(1,3)]
  from False have current: "is_current h (ws_id s) r" by simp
  have "tracks None (view h) (set_object r (Ws (s\<lparr>outgoing := outgoing s @ [frames]\<rparr>)) h, [])"
    if "encodeFragmentedMessage (type_value (if isBinary then WsBinary else WsText)) (JInt (int (ws_id s))) bs = Inr frames" for frames
    by (rule tracks_update [OF assms(1,3)])
      (use ok False encoded_socket_frames [OF that host_okD(1) [OF assms(1) current]] in auto)
  with False assms(2) tracks_nothing [OF assms(1) refl] show ?thesis
    by (auto simp: ws_message_def split: sum.split)
qed (use tracks_nothing [OF assms(1)] in \<open>auto simp: ws_message_def\<close>)


lemma sees_socket:
  assumes "socket_frame sid frame" "m sid = Some Ws_Up" "\<not> closed h"
  shows "sees ping m (send frame h) = Some m"
proof -
  obtain f where f: "decodeTunnelFrame frame = Inr f" "streamId f = sid" "frame_type f = Some WsText \<or> frame_type f = Some WsBinary"
    using assms(1) by (auto simp: socket_frame_def)
  then have "reply ping m f = Some m" using assms(2) by (auto simp: reply_def fun_upd_idem)
  with f(1) assms(3) show ?thesis by (simp add: send_def)
qed

lemma ws_continue_tracks:
  assumes "host_ok h" "\<not> closed h" "objects h r = Some (Ws s)"
  shows "tracks None (view h) (ws_continue r s k h)"
proof (cases "k < length (outgoing s)")
  case True
  note ok = host_ok_object [OF assms(1,3)]
  have shorter: "tracks None (view h) (set_object r (Ws (s\<lparr>outgoing := take k (outgoing s) @ drop (Suc k) (outgoing s)\<rparr>)) h, [])"
    by (rule tracks_update [OF assms(1,3)]) (use ok True in \<open>auto dest!: in_set_takeD in_set_dropD\<close>)
  have "tracks None (view h) (set_object r (Ws (s\<lparr>outgoing := (outgoing s)[k := frames]\<rparr>)) h, send frame h)"
    if "outgoing s ! k = frame # frames" "is_current h (ws_id s) r" for frame frames
  proof -
    have frames: "\<forall>f \<in> set (frame # frames). socket_frame (ws_id s) f"
      using ok(2) True that(1) nth_mem [OF True] by simp
    have up: "view h (ws_id s) = Some Ws_Up"
      using ok(2) that(2) True view_current [OF assms(1) that(2) assms(3)] by auto
    have "tracks None (view h) (set_object r (Ws (s\<lparr>outgoing := (outgoing s)[k := frames]\<rparr>)) h, [])"
      by (rule tracks_update [OF assms(1,3)])
        (use ok frames that(2) up True set_update_subset_insert [of "outgoing s" k frames] in \<open>auto dest!: subsetD\<close>)
    moreover have "sees None (view h) (send frame h) = Some (view h)"
      using sees_socket [of "ws_id s" frame "view h" h None] up assms(2) frames by simp
    ultimately show ?thesis by (simp add: tracks_def)
  qed
  with shorter True assms(2) show ?thesis
    by (auto simp: ws_continue_def split: list.split)
qed (use tracks_nothing [OF assms(1)] in \<open>simp add: ws_continue_def\<close>)

lemma ws_closed_tracks:
  assumes "host_ok h" "\<not> closed h" "objects h r = Some (Ws s)"
  shows "tracks None (view h) (ws_closed env r s code reason h)"
proof -
  note ok = host_ok_object [OF assms(1,3)]
  have "tracks None (view h) (set_object r (Ws (s\<lparr>readyState := Closed\<rparr>)) h, [])" if "\<not> is_current h (ws_id s) r"
    by (rule tracks_update [OF assms(1,3)]) (use ok that in auto)
  moreover have "tracks None (view h) (host_dropStream (ws_id s) (set_object r (Ws (s\<lparr>readyState := Closed\<rparr>)) h),
      send_encoded (if opened s then WsClose else StreamAbort) (ws_id s) pl (host_dropStream (ws_id s) (set_object r (Ws (s\<lparr>readyState := Closed\<rparr>)) h)))"
    if "is_current h (ws_id s) r" for pl
    by (rule tracks_drop_now [OF assms(1,3) that]) (use ok assms(2) in auto)
  ultimately show ?thesis by (auto simp: ws_closed_def sendJson_def sendAbort_def Let_def split: if_splits)
qed

lemma ws_error_tracks:
  assumes "host_ok h" "\<not> closed h" "objects h r = Some (Ws s)"
  shows "tracks None (view h) (ws_error env r s message h)"
proof (cases "is_current h (ws_id s) r \<and> \<not> opened s")
  case True
  note ok = host_ok_object [OF assms(1,3)]
  have "tracks None (view h) (host_dropStream (ws_id s) (set_object r (Ws (s\<lparr>readyState := Closing\<rparr>)) h),
      [Terminate r] @ send_encoded StreamAbort (ws_id s) pl (host_dropStream (ws_id s) (set_object r (Ws (s\<lparr>readyState := Closing\<rparr>)) h)))"
    for pl
    by (rule tracks_drop [OF assms(1,3)]) (use ok assms(2) True in auto)
  with True show ?thesis by (simp add: ws_error_def handler_defs drop_set_object)
qed (use tracks_nothing [OF assms(1)] in \<open>auto simp: ws_error_def\<close>)

lemma ws_step_tracks:
  assumes "host_ok h" "\<not> closed h" "objects h r = Some (Ws s)"
  shows "tracks None (view h) (ws_step env r s e h)"
  by (cases e) (simp_all add: ws_opened_tracks [OF assms] ws_message_tracks [OF assms] ws_continue_tracks [OF assms]
      ws_closed_tracks [OF assms] ws_error_tracks [OF assms])

section \<open>The client's frames\<close>

lemma no_stream: "host_ok h \<Longrightarrow> current_stream h sid = None \<longleftrightarrow> map_of (streams h) sid = None"
  using host_okD(2) [of h sid] by (auto simp: current_stream_def is_current_def split: option.split)

lemma current_streamD: "current_stream h sid = Some (r, x) \<Longrightarrow> is_current h sid r \<and> objects h r = Some x"
  by (auto simp: current_stream_def is_current_def split: option.splits)

lemma body_error_id [simp]: "http_id (body_error reason s) = http_id s"
  by (simp add: body_error_def finishBody_def split: body_sink.split)

lemma aborted_ok: "object_ok current (Http s) \<Longrightarrow> object_ok False (Http ((body_error reason s)\<lparr>aborted := True\<rparr>))"
  by (auto simp: body_error_def finishBody_def split: body_sink.split)

lemma abort_local:
  assumes "host_ok h"
  shows "host_ok (fst (abortLocalStream sid reason h))" "view (fst (abortLocalStream sid reason h)) = (view h)(sid := None)"
    "silent (snd (abortLocalStream sid reason h))" "closed (fst (abortLocalStream sid reason h)) = closed h"
    "map_of (streams (fst (abortLocalStream sid reason h))) = (map_of (streams h))(sid := None)"
proof -
  show "closed (fst (abortLocalStream sid reason h)) = closed h"
    "silent (snd (abortLocalStream sid reason h))"
    by (auto simp: abortLocalStream_def split: option.split TunnelStream.split)
  have none: "map_of (streams h) sid = None \<Longrightarrow> abortLocalStream sid reason h = (h, [])" by (simp add: abortLocalStream_def)
  have some: "host_ok (fst (abortLocalStream sid reason h)) \<and> view (fst (abortLocalStream sid reason h)) = (view h)(sid := None) \<and>
      map_of (streams (fst (abortLocalStream sid reason h))) = (map_of (streams h))(sid := None)"
    if cur: "is_current h sid r" "objects h r = Some x" for r x
  proof (cases x)
    case (Http s)
    then have x: "objects h r = Some (Http s)" using cur by simp
    note id = current_id [OF assms cur(1) x]
    have "object_ok False (Http ((body_error reason s)\<lparr>aborted := True\<rparr>))"
      using aborted_ok host_ok_object(2) [OF assms x] by blast
    with ok_drop_set [OF assms cur(1) x, of "Http ((body_error reason s)\<lparr>aborted := True\<rparr>)"] view_drop_set [OF assms cur(1) x] x cur id
    show ?thesis by (simp add: abortLocalStream_def is_current_def drop_set_object) (simp add: host_dropStream_def)
  next
    case (Ws s)
    then have x: "objects h r = Some (Ws s)" using cur by simp
    note id = current_id [OF assms cur(1) x]
    have "object_ok False (Ws (s\<lparr>readyState := Closing\<rparr>))" using host_ok_object(2) [OF assms x] by auto
    with ok_drop_set [OF assms cur(1) x, of "Ws (s\<lparr>readyState := Closing\<rparr>)"] view_drop_set [OF assms cur(1) x] x cur id
    show ?thesis by (simp add: abortLocalStream_def is_current_def drop_set_object) (simp add: host_dropStream_def)
  qed
  have "host_ok (fst (abortLocalStream sid reason h)) \<and> view (fst (abortLocalStream sid reason h)) = (view h)(sid := None) \<and>
      map_of (streams (fst (abortLocalStream sid reason h))) = (map_of (streams h))(sid := None)"
  proof (cases "map_of (streams h) sid")
    case None
    with none assms view_none show ?thesis by (simp add: fun_upd_idem)
  next
    case (Some r)
    then have "is_current h sid r" by (simp add: is_current_def)
    with some host_okD(2) [OF assms this] show ?thesis by blast
  qed
  then show "host_ok (fst (abortLocalStream sid reason h))" "view (fst (abortLocalStream sid reason h)) = (view h)(sid := None)"
    "map_of (streams (fst (abortLocalStream sid reason h))) = (map_of (streams h))(sid := None)" by auto
qed

lemma refuse_tracks:
  assumes "host_ok h" "\<not> closed h'" "sid < 2 ^ 32" "m sid = Some s" "answer s StreamAbort = Some None" "view h = m(sid := None)" "silent es"
  shows "tracks ping m (h, es @ sendAbort env sid reason h')"
  using sees_send [of h' sid m s StreamAbort None _ ping "[]"] assms by (auto simp: tracks_def sendAbort_def sendJson_def sees_silent)


lemma sees_response:
  assumes "\<not> closed h" "sid < 2 ^ 32" "m sid = Some Http_Wait"
  shows "oversize (send_encoded HttpResponse sid p h @ send_encoded HttpBody sid q h @ send_encoded StreamEnd sid r h) \<or>
    sees ping m (send_encoded HttpResponse sid p h @ send_encoded HttpBody sid q h @ send_encoded StreamEnd sid r h) = Some (m(sid := None))"
  using sees_send [of h sid m Http_Wait HttpResponse "Some Http_Body" p ping "send_encoded HttpBody sid q h @ send_encoded StreamEnd sid r h"]
    sees_send [of h sid "m(sid \<mapsto> Http_Body)" Http_Body HttpBody "Some Http_Body" q ping "send_encoded StreamEnd sid r h"]
    sees_send [of h sid "m(sid \<mapsto> Http_Body)" Http_Body StreamEnd None r ping "[]"] assms by auto

lemma request_tracks:
  assumes "host_ok h" "\<not> closed h" "sid < 2 ^ 32"
  shows "tracks None ((view h)(sid \<mapsto> Http_Wait)) (handleHttpRequest env sid pl h)"
proof (cases "map_of (streams h) sid")
  case (Some r)
  note cut = abort_local [OF assms(1), of sid "''duplicate stream id''"]
  show ?thesis
    using Some refuse_tracks [OF cut(1) _ assms(3) _ _ _ cut(3), of "fst (abortLocalStream sid ''duplicate stream id'' h)"
        "(view h)(sid \<mapsto> Http_Wait)" Http_Wait] cut(2,4) assms(2)
    by (simp add: handleHttpRequest_def case_prod_beta)
next
  case None
  note vn = view_none [OF None]
  show ?thesis
  proof (cases "decodeJsonPayload env pl isHttpRequestPayload")
    case (Inl message)
    show ?thesis
      using None Inl refuse_tracks [OF assms(1,2,3), of "(view h)(sid \<mapsto> Http_Wait)" Http_Wait "[]"] vn
      by (simp add: handleHttpRequest_def fun_upd_idem)
  next
    case (Inr v)
    define s where "s = \<lparr>http_id = sid, request = http_request v, noBody = False, sink = No_Sink, buffered = [], bufferedBytes = 0,
      bodyFrameCount = 0, completed = False, bodyFailure = None, live_open = False, aborted = False, phase = Settled\<rparr>"
    define h' where "h' = set_object (next_ref h) (Http s) (h\<lparr>streams := AList.update sid (next_ref h) (streams h), next_ref := Suc (next_ref h)\<rparr>)"
    have s: "http_id s = sid" "phase s = Settled" "sink s = No_Sink" "\<not> aborted s" by (simp_all add: s_def)
    have h': "host_ok h'" "view h' = (view h)(sid \<mapsto> Http_Wait)"
      using add_stream [OF assms(1) None assms(3), of "Http s"] s by (simp_all add: h'_def)
    have obj: "objects h' (next_ref h) = Some (Http s)" "\<not> closed h'" "is_current h' sid (next_ref h)"
      using assms(2) by (simp_all add: h'_def is_current_def set_object_def)
    have run: "handleHttpRequest env sid pl h = runHttpStream env (next_ref h) s h'"
      using None Inr by (simp add: handleHttpRequest_def s_def h'_def Let_def)
    have quiet: "tracks None (view h') (set_object (next_ref h) (Http s') h', outs)"
      if "http_id s' = sid" "silent outs" "object_ok True (Http s')" "phase s' = Fetching \<or> phase s' = Awaiting_Body" for s' outs
      by (rule tracks_update [OF h'(1) obj(1)]) (use that s obj in auto)
    have denied: "tracks None (view h') (host_dropStream sid h', syntheticResponse env sid 403 message (host_dropStream sid h'))" for message
    proof -
      have "oversize (syntheticResponse env sid 403 message (host_dropStream sid h')) \<or>
          sees None (view h') (syntheticResponse env sid 403 message (host_dropStream sid h')) = Some (view (host_dropStream sid h'))"
        using sees_response [of "host_dropStream sid h'" sid "view h'"] assms(3) obj(2) h'(2) view_drop [of sid h']
        by (simp add: syntheticResponse_def sendJson_def)
      then show ?thesis using ok_drop [OF h'(1) obj(3,1)] s by (simp add: tracks_def)
    qed
    show ?thesis
      unfolding run h'(2) [symmetric] runHttpStream_def Let_def forwardRequest_def
      using quiet denied s by (auto simp: request_effect_def)
  qed
qed


lemma body_tracks:
  assumes "host_ok h"
  shows "tracks None (view h) (handleHttpBody env sid pl h)"
proof (cases "\<exists>r s. current_stream h sid = Some (r, Http s) \<and> \<not> noBody s \<and> sink s = Buffering \<and> \<not> completed s")
  case True
  then obtain r s where cs: "current_stream h sid = Some (r, Http s)" "\<not> noBody s" "sink s = Buffering" "\<not> completed s" by blast
  have cur: "is_current h sid r" "objects h r = Some (Http s)" using current_streamD [OF cs(1)] by simp_all
  note ok = host_ok_object [OF assms cur(2)]
  have id: "http_id s = sid" using current_id [OF assms cur] by simp
  have keep: "tracks None (view h) (set_object r (Http s') h, outs)"
    if "http_id s' = sid" "silent outs" "object_ok True (Http s')" "phase s' = Fetching \<or> phase s' = Awaiting_Body" for s' outs
    by (rule tracks_update [OF assms cur(2)]) (use that ok cs cur id in auto)
  have alive: "\<not> aborted s" using ok cur id by simp
  let ?s = "s\<lparr>bodyFrameCount := bodyFrameCount s + 1, buffered := buffered s @ [pl], bufferedBytes := bufferedBytes s + length pl\<rparr>"
  have "tracks None (view h) (set_object r (Http ?s) h, [])"
    by (rule keep) (use ok cs cur id in auto)
  moreover have "tracks None (view h) (set_object r (Http (?s\<lparr>sink := Live, live_open := True, buffered := [], phase := Fetching\<rparr>)) h,
      map (Body_Enqueue r) (buffered ?s) @ [request_effect env r (request s) Live_Body])"
    by (rule keep) (simp_all add: request_effect_def id alive)
  ultimately show ?thesis
    using cs by (simp add: handleHttpBody_def body_enqueue_def switchToLive_def forwardRequest_def Let_def)
next
  case False
  then have "fst (handleHttpBody env sid pl h) = h" "silent (snd (handleHttpBody env sid pl h))"
    by (auto simp: handleHttpBody_def body_enqueue_def split: option.split TunnelStream.split body_sink.split)
  with tracks_nothing [OF assms] show ?thesis by (metis prod.collapse)
qed


lemma stream_end_tracks:
  assumes "host_ok h"
  shows "tracks None (view h) (handleStreamEnd sid h)"
proof (cases "\<exists>r s. current_stream h sid = Some (r, Http s) \<and> sink s \<noteq> No_Sink")
  case True
  then obtain r s where cs: "current_stream h sid = Some (r, Http s)" "sink s \<noteq> No_Sink" by blast
  have cur: "is_current h sid r" "objects h r = Some (Http s)" using current_streamD [OF cs(1)] by simp_all
  note ok = host_ok_object [OF assms cur(2)]
  have id: "http_id s = sid" using current_id [OF assms cur] by simp
  have keep: "tracks None (view h) (set_object r (Http s') h, outs)"
    if "http_id s' = sid" "silent outs" "object_ok True (Http s')" "phase s' = phase s" for s' outs
    by (rule tracks_update [OF assms cur(2)]) (use that cur id in simp_all)
  have alive: "\<not> aborted s" using ok cur id by simp
  show ?thesis
  proof (cases "sink s")
    case Live
    have "tracks None (view h) (set_object r (Http (s\<lparr>live_open := False\<rparr>)) h, if live_open s then [Body_Close r] else [])"
      by (rule keep) (use ok cur id Live alive in auto)
    with cs Live show ?thesis by (simp add: handleStreamEnd_def)
  next
    case Buffering
    have "tracks None (view h) (set_object r (Http (finishBody None s)) h, [])"
      by (rule keep) (use ok cur id Buffering alive in \<open>auto simp: finishBody_def\<close>)
    with cs Buffering show ?thesis by (simp add: handleStreamEnd_def)
  qed (use cs in simp)
next
  case False
  then have "handleStreamEnd sid h = (h, [])"
    by (auto simp: handleStreamEnd_def split: option.split TunnelStream.split body_sink.split)
  with tracks_nothing [OF assms] show ?thesis by simp
qed

lemma ws_open_tracks:
  assumes "host_ok h" "\<not> closed h" "sid < 2 ^ 32"
  shows "tracks None ((view h)(sid \<mapsto> Ws_Dialing)) (handleWsOpen env sid pl h)"
proof (cases "map_of (streams h) sid")
  case (Some r)
  note cut = abort_local [OF assms(1), of sid "''duplicate stream id''"]
  show ?thesis
    using Some refuse_tracks [OF cut(1) _ assms(3) _ _ _ cut(3), of "fst (abortLocalStream sid ''duplicate stream id'' h)"
        "(view h)(sid \<mapsto> Ws_Dialing)" Ws_Dialing] cut(2,4) assms(2)
    by (simp add: handleWsOpen_def case_prod_beta)
next
  case None
  note vn = view_none [OF None]
  have refused: "tracks None ((view h)(sid \<mapsto> Ws_Dialing)) (h, sendAbort env sid reason h)" for reason
    using refuse_tracks [OF assms(1,2,3), of "(view h)(sid \<mapsto> Ws_Dialing)" Ws_Dialing "[]"] vn by (simp add: fun_upd_idem)
  let ?s = "\<lparr>ws_id = sid, opened = False, readyState = Connecting, outgoing = []\<rparr>"
  let ?h = "set_object (next_ref h) (Ws ?s) (h\<lparr>streams := AList.update sid (next_ref h) (streams h), next_ref := Suc (next_ref h)\<rparr>)"
  have "tracks None ((view h)(sid \<mapsto> Ws_Dialing)) (?h, [Dial (next_ref h) url ps hs])" for url ps hs
    using add_stream [OF assms(1) None assms(3), of "Ws ?s"] by (intro tracks_nothing) simp_all
  with refused None show ?thesis
    by (simp add: handleWsOpen_def Let_def split: sum.split option.split)
qed

lemma ws_close_tracks:
  assumes "host_ok h"
  shows "tracks None (case view h sid of Some Ws_Dialing \<Rightarrow> (view h)(sid := None) | Some Ws_Up \<Rightarrow> (view h)(sid := None) | _ \<Rightarrow> view h)
    (handleWsClose env sid pl h)"
proof (cases "\<exists>r s. current_stream h sid = Some (r, Ws s)")
  case True
  then obtain r s where cs: "current_stream h sid = Some (r, Ws s)" by blast
  have cur: "is_current h sid r" "objects h r = Some (Ws s)" using current_streamD [OF cs] by simp_all
  note ok = host_ok_object [OF assms cur(2)]
  have id: "ws_id s = sid" using current_id [OF assms cur] by simp
  have "tracks None ((view h)(sid := None)) (host_dropStream sid (set_object r (Ws (s\<lparr>readyState := Closing\<rparr>)) h), outs)" if "silent outs" for outs
    by (rule tracks_drop_silent [OF assms cur(2,1)]) (use ok id that in auto)
  moreover have "view h sid = Some Ws_Dialing \<or> view h sid = Some Ws_Up" using view_current [OF assms cur] by simp
  ultimately show ?thesis
    using cs by (auto simp: handleWsClose_def Let_def drop_set_object split: sum.split)
next
  case False
  then have "handleWsClose env sid pl h = (h, [])"
    by (auto simp: handleWsClose_def split: option.split TunnelStream.split)
  moreover have "view h sid = None \<or> view h sid = Some Http_Wait \<or> view h sid = Some Http_Body"
  proof (cases "current_stream h sid")
    case (Some p)
    with False obtain r s where "current_stream h sid = Some (r, Http s)" by (cases p, cases "snd p") auto
    then show ?thesis by (cases "phase s") (auto simp: view_def)
  qed (simp add: view_def)
  ultimately show ?thesis using tracks_nothing [OF assms refl] by auto
qed


lemma assembler_irrelevant [simp]: "host_ok (h\<lparr>assembler := p\<rparr>) = host_ok h" "view (h\<lparr>assembler := p\<rparr>) = view h"
  by (auto simp: host_ok_def is_current_def view_at fun_eq_iff split: option.split)

lemma message_tracks:
  assumes "host_ok h"
  shows "tracks None (view h) (case push limit (assembler h) f of
      (pend, Inl e) \<Rightarrow> (h\<lparr>assembler := pend\<rparr>, [Throws e])
    | (pend, Inr None) \<Rightarrow> (h\<lparr>assembler := pend\<rparr>, [])
    | (pend, Inr (Some message)) \<Rightarrow> let h = h\<lparr>assembler := pend\<rparr> in (h, handleWsMessage sid isBinary message h))"
  by (auto simp: Let_def handleWsMessage_def intro!: tracks_nothing assms split: prod.split sum.split option.split TunnelStream.split)

lemma dispatch_tracks:
  assumes "host_ok h" "\<not> closed h" "frameType f = type_value ft" "streamId f < 2 ^ 32"
  shows "tracks (if ft = Ping then Some (streamId f) else None) (hears_frame f (view h)) (dispatch_frame env f h)"
proof -
  have ft: "frame_type f = Some ft" using frame_type_value assms(3) by (simp add: frame_type_def)
  note cut = abort_local [OF assms(1), of "streamId f" "''aborted by client''"]
  have abort: "tracks None ((view h)(streamId f := None)) (abortLocalStream (streamId f) ''aborted by client'' h)"
    using tracks_nothing [OF cut(1) cut(2) [symmetric] cut(3)] by (metis prod.collapse)
  have pong: "tracks (Some (streamId f)) (view h) (h, send_encoded Pong (streamId f) [] h)"
    by (rule send_encoded_cases [OF assms(2,4), of Pong "[]"])
      (auto simp: tracks_def assms(1) oversize_def reply_def frame_type_def frame_type_value [of Pong, simplified])
  have idle: "tracks None (view h) (h, [])" by (rule tracks_nothing) (simp_all add: assms(1))
  show ?thesis
    using request_tracks [OF assms(1,2,4), of env "payload f"] body_tracks [OF assms(1), of env "streamId f" "payload f"]
      stream_end_tracks [OF assms(1), of "streamId f"] ws_open_tracks [OF assms(1,2,4), of env "payload f"]
      ws_close_tracks [OF assms(1), of "streamId f" env "payload f"] abort pong idle
      message_tracks [OF assms(1), where limit = DEFAULT_MAX_MESSAGE_BYTES and f = f and sid = "streamId f"]
    by (cases ft) (simp_all only: dispatch_frame_def hears_frame_def ft assms(3) type_value.simps option.case TunnelFrameType.case
        TunnelFrameType.distinct if_True if_False simp_thms numeral_eq_iff num.distinct num.inject one_eq_numeral_iff numeral_eq_one_iff)
qed

lemma frame_tracks:
  assumes "host_ok h" "\<not> closed h"
  shows "tracks (pinged (Frame bs)) (hears (Frame bs) (view h)) (handleFrame env bs h)"
proof (cases "decodeTunnelFrame bs")
  case (Inl e)
  then show ?thesis
    using assms(2) by (auto simp: handleFrame_def pinged_def hears_def intro!: tracks_nothing assms(1))
next
  case (Inr f)
  then have "isTunnelFrameType (frameType f)" and sid: "streamId f < 2 ^ 32"
    using unsigned_less [of "read_be32 bs 1"] by (auto simp: decodeTunnelFrame_def Let_def split: if_splits)
  then obtain ft where ft: "client_isTunnelFrameType (frameType f) = Some ft"
    by (cases "client_isTunnelFrameType (frameType f)") (auto simp: client_isTunnelFrameType_None)
  then have "frameType f = type_value ft" by (simp add: client_isTunnelFrameType_Some)
  from dispatch_tracks [OF assms this sid] Inr ft assms(2) show ?thesis
    by (simp add: handleFrame_def pinged_def hears_def frame_type_def)
qed

section \<open>A closed host is silent\<close>

lemma send_closed [simp]: "closed h \<Longrightarrow> send frame h = []" "closed h \<Longrightarrow> silent (send_encoded ft sid pl h)"
  by (auto simp: send_def send_encoded_def split: sum.split)

lemma http_step_closed:
  assumes "closed h"
  shows "closed (fst (http_step env r s e h)) \<and> silent (snd (http_step env r s e h))"
  using assms
  by (cases e) (auto simp: body_ended_def delivery_deadline_def fetch_failed_def fetch_done_def response_chunk_def response_error_def
      response_piece_def response_end_def forwardRequest_def request_effect_def handler_defs
      split: option.split sum.split http_phase.split list.split)

lemma ws_step_closed:
  assumes "closed h"
  shows "closed (fst (ws_step env r s e h)) \<and> silent (snd (ws_step env r s e h))"
  using assms
  by (cases e) (auto simp: ws_opened_def ws_message_def ws_continue_def ws_closed_def ws_error_def handler_defs split: list.split)

lemma tunnel_step_closed:
  assumes "closed h"
  shows "closed (fst (tunnel_step env h e)) \<and> silent (snd (tunnel_step env h e))"
  using assms http_step_closed [OF assms] ws_step_closed [OF assms]
  by (cases e) (auto simp: handleFrame_def close_host_def split: option.split TunnelStream.split)

lemma conforms_closed: "closed h \<Longrightarrow> conforms m (snd (tunnel_run env h es))"
proof (induction es arbitrary: h m)
  case (Cons e es)
  obtain h' outs where step: "tunnel_step env h e = (h', outs)" by fastforce
  with tunnel_step_closed [OF Cons.prems, of env e] have "closed h'" "silent outs" by simp_all
  then show ?case
    using Cons.IH [of h'] step sees_silent [of outs "pinged e" "hears e m" "[]"] by (simp add: case_prod_beta)
qed simp

lemma abort_all_silent: "silent (snd (abort_all sids h))"
  by (induction sids h rule: abort_all.induct) (auto simp: abortLocalStream_def split: prod.splits option.splits TunnelStream.splits)

lemma abort_all_closed: "closed (fst (abort_all sids h)) = closed h"
  by (induction sids h rule: abort_all.induct) (auto simp: abortLocalStream_def split: prod.splits option.splits TunnelStream.splits)

lemma close_host_closes: "closed (fst (close_host h))" "silent (snd (close_host h))"
  using abort_all_silent [of "map fst (streams h)" "h\<lparr>closed := True\<rparr>"] abort_all_closed [of "map fst (streams h)" "h\<lparr>closed := True\<rparr>"]
  by (auto simp: close_host_def split: prod.split)

lemma tunnel_step_tracks:
  assumes "host_ok h" "\<not> closed h" "e \<noteq> Close"
  shows "tracks (pinged e) (hears e (view h)) (tunnel_step env h e)"
proof -
  have idle: "tracks None (view h) (h, [])" by (rule tracks_nothing) (simp_all add: assms(1))
  show ?thesis
  proof (cases e)
    case (Frame bs)
    then show ?thesis using frame_tracks [OF assms(1,2)] by simp
  next
    case (Http_Event r ev)
    then show ?thesis
      using idle http_step_tracks [OF assms(1,2)] by (auto simp: pinged_def hears_def split: option.split TunnelStream.split)
  next
    case (Ws_Event r ev)
    then show ?thesis
      using idle ws_step_tracks [OF assms(1,2)] by (auto simp: pinged_def hears_def split: option.split TunnelStream.split)
  qed (use assms(3) in simp)
qed

lemma run_conforms:
  assumes "host_ok h" "\<not> closed h" "\<forall>(e, outs) \<in> set (snd (tunnel_run env h es)). \<not> oversize outs"
  shows "conforms (view h) (snd (tunnel_run env h es))"
  using assms
proof (induction es arbitrary: h)
  case (Cons e es)
  obtain h' outs where step: "tunnel_step env h e = (h', outs)" by fastforce
  show ?case
  proof (cases "closed h'")
    case True
    have "sees (pinged e) (hears e (view h)) outs \<noteq> None"
    proof (cases "e = Close")
      case True
      with step close_host_closes(2) [of h] have "silent outs" by simp
      with sees_silent [of outs _ _ "[]"] show ?thesis by simp
    next
      case False
      then show ?thesis using tunnel_step_tracks [OF Cons.prems(1,2) False, of env] step Cons.prems(3)
        by (auto simp: tracks_def case_prod_beta)
    qed
    then show ?thesis using conforms_closed [OF True] step by (auto simp: case_prod_beta)
  next
    case False
    then have "e \<noteq> Close" using step close_host_closes(1) [of h] by auto
    with tunnel_step_tracks [OF Cons.prems(1,2) this, of env] step Cons.prems(3)
    have "host_ok h'" "sees (pinged e) (hears e (view h)) outs = Some (view h')"
      by (auto simp: tracks_def case_prod_beta)
    then show ?thesis using Cons.IH [OF _ False] Cons.prems(3) step by (auto simp: case_prod_beta)
  qed
qed simp

lemma start_ok: "host_ok createTunnelHost" "view createTunnelHost = Map.empty"
  by (auto simp: host_ok_def createTunnelHost_def is_current_def view_at fun_eq_iff)

end
