(* ===== verification/Tunnel_Host_Requests.thy ===== *)
theory Tunnel_Host_Requests
  imports Tunnel_Host_Protocol
begin

text \<open>
  What a reachable tunnel host asks of the loopback server, how request bodies reach it, what concurrent messages of a
  socket become on the wire, and the properties of the host.
\<close>


section \<open>Reachable hosts\<close>

definition run_inv :: "tunnel_host \<Rightarrow> bool" where
  "run_inv h \<longleftrightarrow> (if closed h then streams h = [] else host_ok h)"

lemma abort_closed [simp]: "closed (fst (abortLocalStream sid reason h)) = closed h"
  by (auto simp: abortLocalStream_def split: option.split TunnelStream.split)

lemma http_step_keeps: "closed (fst (http_step env r s e h)) = closed h"
  by (cases e) (auto simp: body_ended_def delivery_deadline_def fetch_failed_def fetch_done_def response_chunk_def response_error_def
      response_piece_def response_end_def forwardRequest_def handler_defs
      split: option.split sum.split http_phase.split list.split)

lemma ws_step_keeps: "closed (fst (ws_step env r s e h)) = closed h"
  by (cases e) (auto simp: ws_opened_def ws_message_def ws_continue_def ws_closed_def ws_error_def handler_defs split: list.split sum.split)

lemma run_stream_keeps: "closed (fst (runHttpStream env r s h)) = closed h"
  by (simp add: runHttpStream_def forwardRequest_def Let_def)

lemma request_keeps: "closed (fst (handleHttpRequest env sid pl h)) = closed h"
  by (simp add: handleHttpRequest_def run_stream_keeps Let_def case_prod_beta split: sum.split)

lemma body_keeps: "closed (fst (handleHttpBody env sid pl h)) = closed h"
  by (simp add: handleHttpBody_def body_enqueue_def switchToLive_def forwardRequest_def Let_def split: option.split TunnelStream.split body_sink.split)

lemma ws_open_keeps: "closed (fst (handleWsOpen env sid pl h)) = closed h"
  by (simp add: handleWsOpen_def Let_def case_prod_beta split: sum.split option.split)

lemma ws_close_keeps: "closed (fst (handleWsClose env sid pl h)) = closed h"
  by (simp add: handleWsClose_def Let_def case_prod_beta split: option.split TunnelStream.split)

lemma stream_end_keeps: "closed (fst (handleStreamEnd sid h)) = closed h"
  by (simp add: handleStreamEnd_def split: option.split TunnelStream.split body_sink.split)

lemma frame_keeps: "closed (fst (handleFrame env bs h)) = closed h"
  by (simp add: handleFrame_def dispatch_frame_def request_keeps body_keeps ws_open_keeps ws_close_keeps stream_end_keeps Let_def
      split: sum.split option.split prod.split)

lemma tunnel_step_keeps: "e \<noteq> Close \<Longrightarrow> closed (fst (tunnel_step env h e)) = closed h"
  by (cases e) (auto simp: http_step_keeps ws_step_keeps frame_keeps split: option.split TunnelStream.split)

lemma http_step_streams:
  assumes "streams h = []"
  shows "streams (fst (http_step env r s e h)) = []"
  using assms
  by (cases e) (auto simp: body_ended_def delivery_deadline_def fetch_failed_def fetch_done_def response_chunk_def response_error_def
      response_piece_def response_end_def forwardRequest_def handler_defs is_current_def
      split: option.split sum.split http_phase.split list.split)

lemma ws_step_streams:
  assumes "streams h = []"
  shows "streams (fst (ws_step env r s e h)) = []"
  using assms
  by (cases e) (auto simp: ws_opened_def ws_message_def ws_continue_def ws_closed_def ws_error_def handler_defs is_current_def
      split: list.split sum.split)

lemma closed_streams:
  assumes "closed h" "streams h = []"
  shows "streams (fst (tunnel_step env h e)) = []"
  using assms http_step_streams [OF assms(2)] ws_step_streams [OF assms(2)]
  by (cases e) (auto simp: handleFrame_def close_host_def split: option.split TunnelStream.split)

lemma run_inv_step:
  assumes "run_inv h"
  shows "run_inv (fst (tunnel_step env h e))"
proof (cases "closed h")
  case True
  with assms closed_streams tunnel_step_closed [OF True] show ?thesis by (simp add: run_inv_def)
next
  case False
  show ?thesis
  proof (cases "e = Close")
    case True
    with False show ?thesis
      using close_host_closes(1) [of h] by (auto simp: run_inv_def close_host_def split: prod.split)
  next
    case open': False
    have "host_ok (fst (tunnel_step env h e))"
      using tunnel_step_tracks [OF _ False open'] assms False by (simp add: run_inv_def tracks_def)
    then show ?thesis using tunnel_step_keeps [OF open', of env h] False by (simp add: run_inv_def)
  qed
qed

interpretation tunnel: invariant_system createTunnelHost "\<lambda>h e h'. h' = fst (tunnel_step env h e)" run_inv for env
proof
  show "run_inv createTunnelHost" using start_ok by (simp add: run_inv_def createTunnelHost_def)
qed (simp add: run_inv_step)

abbreviation host_reachable :: "tunnel_env \<Rightarrow> tunnel_host \<Rightarrow> bool" where
  "host_reachable env \<equiv> reachable createTunnelHost (\<lambda>h e h'. h' = fst (tunnel_step env h e))"

lemma run_reachable: "host_reachable env h \<Longrightarrow> host_reachable env (fst (tunnel_run env h es))"
  by (induction es arbitrary: h) (auto simp: case_prod_beta intro: reach_step)

lemma trace_member:
  "host_reachable env h \<Longrightarrow> (e, outs) \<in> set (snd (tunnel_run env h es)) \<Longrightarrow> \<exists>h'. host_reachable env h' \<and> outs = snd (tunnel_step env h' e)"
  by (induction es arbitrary: h) (auto simp: case_prod_beta intro: reach_step)

section \<open>Requests to the loopback server\<close>

definition crlf :: "string \<Rightarrow> bool" where
  "crlf s \<longleftrightarrow> CHR 0x0D \<in> set s \<or> CHR 0x0A \<in> set s"

definition headers_ok :: "tunnel_env \<Rightarrow> (string \<times> string) list \<Rightarrow> bool" where
  "headers_ok env hs \<longleftrightarrow>
     map_of hs ''origin'' = Some (loopback env) \<and> map_of hs ''x-varin-relay-connection'' = Some (connectionId env) \<and>
     (\<forall>name v. map_of hs name = Some v \<longrightarrow> name \<notin> set STRIPPED_REQUEST_HEADERS \<and>
        (name = ''origin'' \<or> name = ''x-varin-relay-connection'' \<or> \<not> crlf v))"

fun confined :: "tunnel_env \<Rightarrow> effect \<Rightarrow> bool" where
  "confined env (Fetch r url meth hs body) \<longleftrightarrow>
     (\<exists>path query. isAllowedHttpPath path \<and> url = loopback env @ with_query path query) \<and> headers_ok env hs"
| "confined env (Dial r url ps hs) \<longleftrightarrow>
     (\<exists>path query. path \<in> set ALLOWED_WS_PATHS \<and> url = ''ws://127.0.0.1:'' @ dec (localPort env) @ with_query path query) \<and>
     hs = [(''x-varin-relay-connection'', connectionId env), (''origin'', loopback env)]"
| "confined env e \<longleftrightarrow> True"

lemma add_headers:
  assumes "\<forall>name v. map_of built name = Some v \<longrightarrow> name \<notin> set STRIPPED_REQUEST_HEADERS \<and> \<not> crlf v"
    and "map_of (foldl add_header built hs) name = Some v"
  shows "name \<notin> set STRIPPED_REQUEST_HEADERS \<and> \<not> crlf v"
  using assms
proof (induction hs arbitrary: built)
  case (Cons p hs)
  have "\<forall>name v. map_of (add_header built p) name = Some v \<longrightarrow> name \<notin> set STRIPPED_REQUEST_HEADERS \<and> \<not> crlf v"
    using Cons.prems(1) by (auto simp: add_header_def Let_def crlf_def list_ex_iff)
  with Cons show ?case by simp
qed simp

lemma request_headers: "headers_ok env (buildRequestHeaders env hs (loopback env))"
proof -
  have own: "''origin'' \<notin> set STRIPPED_REQUEST_HEADERS" "''x-varin-relay-connection'' \<notin> set STRIPPED_REQUEST_HEADERS"
    by (simp_all add: STRIPPED_REQUEST_HEADERS_def)
  have rest: "name \<notin> set STRIPPED_REQUEST_HEADERS \<and> \<not> crlf v" if "map_of (foldl add_header [] hs) name = Some v" for name v
    using add_headers [of "[]" hs name v] that by simp
  show ?thesis
    unfolding headers_ok_def buildRequestHeaders_def map_of_update
    using own rest by (simp split: if_splits)
qed

lemma request_confined: "isAllowedHttpPath (request_path req) \<Longrightarrow> confined env (request_effect env r req body)"
  using request_headers by (auto simp: request_effect_def)

definition all_confined :: "tunnel_env \<Rightarrow> effect list \<Rightarrow> bool" where
  "all_confined env outs \<longleftrightarrow> list_all (confined env) outs"

lemma confined_simps [simp]:
  "all_confined env []" "all_confined env (x # xs) \<longleftrightarrow> confined env x \<and> all_confined env xs"
  "all_confined env (xs @ ys) \<longleftrightarrow> all_confined env xs \<and> all_confined env ys" "all_confined env (map (Body_Enqueue r) cs)"
  "all_confined env (send frame h)" "all_confined env (send_encoded ft sid pl h)" "all_confined env (sendJson env' ft sid v h)"
  "all_confined env (sendAbort env' sid reason h)"
  by (auto simp: all_confined_def list_all_iff send_def send_encoded_def sendJson_def sendAbort_def split: sum.split)

lemma http_step_confined:
  assumes "objects h r = Some (Http s)" "host_ok h"
  shows "all_confined env (snd (http_step env r s e h))"
proof -
  have "phase s = Awaiting_Body \<Longrightarrow> isAllowedHttpPath (request_path (request s))"
    using host_ok_object(2) [OF assms(2,1)] by simp
  then show ?thesis
    using request_confined [of "request s" env r]
    by (cases e) (auto simp: body_ended_def delivery_deadline_def fetch_failed_def fetch_done_def response_chunk_def response_error_def
        response_piece_def response_end_def forwardRequest_def drop_aborting_def Let_def
        split: option.split sum.split http_phase.split list.split)
qed

lemma ws_step_confined: "all_confined env (snd (ws_step env r s e h))"
  by (cases e) (auto simp: ws_opened_def ws_message_def ws_continue_def ws_closed_def ws_error_def Let_def split: list.split sum.split)

lemma abort_confined: "all_confined env (snd (abortLocalStream sid reason h))"
  by (auto simp: abortLocalStream_def split: option.split TunnelStream.split)

lemma body_confined:
  assumes "host_ok h"
  shows "all_confined env (snd (handleHttpBody env sid pl h))"
proof (cases "current_stream h sid")
  case (Some p)
  then obtain r x where cs: "current_stream h sid = Some (r, x)" by (cases p) auto
  show ?thesis
  proof (cases x)
    case (Http s)
    have "sink s = Buffering \<Longrightarrow> isAllowedHttpPath (request_path (request s))"
      using host_ok_object(2) [OF assms, of r "Http s"] current_streamD [OF cs] Http by simp
    then show ?thesis
      using cs Http request_confined [of "request s" env r Live_Body]
      by (cases "sink s") (simp_all add: handleHttpBody_def body_enqueue_def switchToLive_def forwardRequest_def Let_def)
  qed (use cs in \<open>simp add: handleHttpBody_def\<close>)
qed (simp add: handleHttpBody_def)

lemma request_handler_confined: "all_confined env (snd (handleHttpRequest env sid pl h))"
proof -
  have "all_confined env (snd (runHttpStream env r s h))" for r s h
    by (simp add: runHttpStream_def forwardRequest_def syntheticResponse_def request_confined Let_def)
  then show ?thesis
    by (simp add: handleHttpRequest_def abort_confined Let_def case_prod_beta split: sum.split)
qed

lemma ws_open_confined: "all_confined env (snd (handleWsOpen env sid pl h))"
  by (auto simp add: handleWsOpen_def abort_confined isRelayWebSocketPathAllowed_def Let_def case_prod_beta split: sum.split option.split)

lemma frame_confined:
  assumes "host_ok h"
  shows "all_confined env (snd (handleFrame env bs h))"
proof -
  have "all_confined env (snd (handleStreamEnd sid h))" for sid
    by (simp add: handleStreamEnd_def split: option.split TunnelStream.split body_sink.split)
  moreover have "all_confined env (snd (handleWsClose env sid pl h))" for sid pl
    by (simp add: handleWsClose_def Let_def case_prod_beta split: option.split TunnelStream.split)
  moreover have "all_confined env (handleWsMessage sid isBinary message h)" for sid isBinary message h
    by (simp add: handleWsMessage_def split: option.split TunnelStream.split)
  ultimately show ?thesis
    using abort_confined [of env] body_confined [OF assms, of env] request_handler_confined [of env] ws_open_confined [of env]
    by (simp add: handleFrame_def dispatch_frame_def Let_def split: sum.split option.split prod.split)
qed

lemma closed_confined:
  assumes "closed h" "streams h = []"
  shows "all_confined env (snd (tunnel_step env h e))"
proof -
  have "all_confined env (snd (http_step env r s e h))" for r s e
    using assms(2)
    by (cases e) (simp_all add: body_ended_def delivery_deadline_def fetch_failed_def fetch_done_def response_chunk_def response_error_def
        response_piece_def response_end_def drop_aborting_def is_current_def Let_def split: sum.split http_phase.split list.split)
  then show ?thesis
    using assms ws_step_confined by (cases e) (simp_all add: handleFrame_def close_host_def split: option.split TunnelStream.split)
qed

lemma step_confined:
  assumes "run_inv h"
  shows "all_confined env (snd (tunnel_step env h e))"
proof (cases "closed h")
  case True
  with assms closed_confined show ?thesis by (simp add: run_inv_def)
next
  case False
  have "all_confined env (snd (abort_all sids h))" for sids h
  proof (induction sids arbitrary: h)
    case (Cons sid sids)
    then show ?case using abort_confined by (simp add: case_prod_beta)
  qed simp
  with False assms show ?thesis
    using frame_confined http_step_confined ws_step_confined
    by (cases e) (simp_all add: run_inv_def close_host_def case_prod_beta split: option.split TunnelStream.split)
qed


section \<open>Request bodies\<close>

text \<open>What the client sent on a stream since it opened it: the chunks of the body, and whether it has ended it.\<close>

type_synonym uploads = "nat \<Rightarrow> bytes list \<times> bool"

definition upload_frame :: "TunnelFrame \<Rightarrow> uploads \<Rightarrow> uploads" where
  "upload_frame f u =
     (let (chunks, ended) = u (streamId f)
      in if frame_type f = Some HttpRequest then u(streamId f := ([], False))
         else if frame_type f = Some HttpBody then (if ended then u else u(streamId f := (chunks @ [payload f], False)))
         else if frame_type f = Some StreamEnd then u(streamId f := (chunks, True))
         else u)"

definition upload_step :: "host_event \<Rightarrow> uploads \<Rightarrow> uploads" where
  "upload_step e u = (case frame_of e of None \<Rightarrow> u | Some f \<Rightarrow> upload_frame f u)"

definition uploads_of :: "host_event list \<Rightarrow> uploads" where
  "uploads_of es = fold upload_step es (\<lambda>sid. ([], False))"

fun enqueues :: "nat \<Rightarrow> effect list \<Rightarrow> bytes list" where
  "enqueues r [] = []"
| "enqueues r (Body_Enqueue r' pl # outs) = (if r' = r then pl # enqueues r outs else enqueues r outs)"
| "enqueues r (x # outs) = enqueues r outs"

definition same_body :: "http_stream \<Rightarrow> http_stream \<Rightarrow> bool" where
  "same_body s s' \<longleftrightarrow> sink s' = No_Sink \<or>
     sink s' = sink s \<and> buffered s' = buffered s \<and> bufferedBytes s' = bufferedBytes s \<and> bodyFrameCount s' = bodyFrameCount s \<and>
     completed s' = completed s \<and> bodyFailure s' = bodyFailure s \<and> live_open s' = live_open s \<and> noBody s' = noBody s"

definition sink_ok :: "bytes list \<times> bool \<Rightarrow> bytes list \<Rightarrow> http_stream \<Rightarrow> bool" where
  "sink_ok up enq s \<longleftrightarrow>
     (sink s = Buffering \<longrightarrow>
        buffered s = fst up \<and> completed s = snd up \<and> bodyFailure s = None \<and> bodyFrameCount s = length (buffered s) \<and>
        bufferedBytes s = length (concat (buffered s)) \<and> bufferedBytes s \<le> BODY_BUFFER_MAX_BYTES \<and> enq = []) \<and>
     (sink s = Live \<longrightarrow> enq = fst up \<and> live_open s = (\<not> snd up)) \<and> (noBody s \<longrightarrow> sink s = No_Sink)"

definition bodies_ok :: "uploads \<Rightarrow> (nat \<Rightarrow> bytes list) \<Rightarrow> tunnel_host \<Rightarrow> bool" where
  "bodies_ok u enq h \<longleftrightarrow>
     (\<forall>sid r s. is_current h sid r \<and> objects h r = Some (Http s) \<longrightarrow> sink_ok (u sid) (enq r) s) \<and>
     (\<forall>r \<ge> next_ref h. enq r = [])"

definition quiet :: "tunnel_host \<Rightarrow> tunnel_host \<times> effect list \<Rightarrow> bool" where
  "quiet h res \<longleftrightarrow>
     (\<forall>r. enqueues r (snd res) = []) \<and> next_ref h \<le> next_ref (fst res) \<and>
     (\<forall>r s'. is_current (fst res) (http_id s') r \<and> objects (fst res) r = Some (Http s') \<longrightarrow>
        is_current h (http_id s') r \<and> (\<exists>s. objects h r = Some (Http s) \<and> same_body s s'))"

lemma same_body_refl [simp]: "same_body s s"
  by (simp add: same_body_def)

lemma sink_ok_same: "sink_ok up enq s \<Longrightarrow> same_body s s' \<Longrightarrow> sink_ok up enq s'"
  by (auto simp: sink_ok_def same_body_def)

lemma quiet_bodies:
  assumes "quiet h res" "bodies_ok u enq h" "host_ok (fst res)"
  shows "bodies_ok u enq (fst res)"
  unfolding bodies_ok_def
proof (intro conjI allI impI)
  fix sid r s' assume s': "is_current (fst res) sid r \<and> objects (fst res) r = Some (Http s')"
  then have "http_id s' = sid" using current_id [OF assms(3), of sid r "Http s'"] by simp
  with s' assms(1) obtain s where "is_current h sid r" "objects h r = Some (Http s)" "same_body s s'"
    unfolding quiet_def by blast
  with assms(2) sink_ok_same show "sink_ok (u sid) (enq r) s'" unfolding bodies_ok_def by blast
next
  fix r assume "next_ref (fst res) \<le> r"
  with assms(1,2) show "enq r = []" unfolding quiet_def bodies_ok_def by auto
qed

lemma enqueues_append [simp]: "enqueues r (xs @ ys) = enqueues r xs @ enqueues r ys"
  by (induction r xs rule: enqueues.induct) auto

lemma enqueues_sends [simp]:
  "enqueues r (send frame h) = []" "enqueues r (send_encoded ft sid pl h) = []" "enqueues r (sendJson env ft sid v h) = []"
  "enqueues r (sendAbort env sid reason h) = []" "enqueues r [request_effect env r' req body] = []"
  by (auto simp: send_def send_encoded_def sendJson_def sendAbort_def request_effect_def split: sum.split)

lemma quiet_same: "(\<And>r. enqueues r outs = []) \<Longrightarrow> quiet h (h, outs)"
  by (auto simp: quiet_def)

lemma quiet_set:
  assumes "objects h r = Some (Http s)" "same_body s s' \<or> \<not> is_current h (http_id s') r" "\<And>r. enqueues r outs = []"
  shows "quiet h (set_object r (Http s') h, outs)"
  using assms by (auto simp: quiet_def split: if_splits)

lemma quiet_drop:
  assumes "objects h r = Some (Http s)" "same_body s s' \<or> http_id s' = sid" "\<And>r. enqueues r outs = []"
  shows "quiet h (host_dropStream sid (set_object r (Http s') h), outs)"
  using assms by (auto simp: quiet_def split: if_splits)

lemma quiet_ws:
  assumes "\<And>r. enqueues r outs = []"
  shows "quiet h (set_object r (Ws s') h, outs)" "quiet h (host_dropStream sid (set_object r (Ws s') h), outs)"
  using assms by (auto simp: quiet_def split: if_splits)

lemma http_step_quiet:
  assumes "objects h r = Some (Http s)"
  shows "quiet h (http_step env r s e h)"
proof -
  note set = quiet_set [OF assms] and drop = quiet_drop [OF assms]
  have idle: "quiet h (h, [])" by (rule quiet_same) simp
  have settle: "quiet h (set_object r (Http (s\<lparr>phase := p\<rparr>)) h, outs)" if "\<And>r. enqueues r outs = []" for p outs
    by (rule set) (use that in \<open>simp_all add: same_body_def\<close>)
  have abort: "quiet h (drop_aborting env (http_id s) reason (set_object r (Http s') h))" if "http_id s' = http_id s" for s' reason
    unfolding drop_aborting_def Let_def by (rule drop) (use that in simp_all)
  have "quiet h (host_dropStream (http_id s) (set_object r (Http (s\<lparr>phase := Settled\<rparr>)) h), send_encoded StreamEnd (http_id s) [] h')" for h'
    by (rule drop) simp_all
  moreover have "quiet h (set_object r (Http (s\<lparr>sink := No_Sink, phase := Fetching\<rparr>)) h, [request_effect env r (request s) body])" for body
    by (rule set) (simp_all add: same_body_def)
  ultimately show ?thesis
    using idle settle abort
    by (cases e) (simp_all add: body_ended_def delivery_deadline_def fetch_failed_def fetch_done_def response_chunk_def response_error_def
        response_piece_def response_end_def forwardRequest_def finishBody_def Let_def
        split: option.split sum.split http_phase.split list.split)
qed

lemma ws_step_quiet: "quiet h (ws_step env r s e h)"
proof -
  have idle: "quiet h (h, [])" "quiet h (h, [Throws x])" for x by (rule quiet_same; simp)+
  have "quiet h (set_object r (Ws s') h, [])" "quiet h (set_object r (Ws s') h, send frame h)"
    "quiet h (set_object r (Ws s') h, sendJson env ft sid v h)" for s' frame ft sid v
    by (rule quiet_ws(1); simp)+
  moreover have "quiet h (host_dropStream sid (set_object r (Ws s') h), sendJson env ft sid v h')"
    "quiet h (host_dropStream sid (set_object r (Ws s') h), sendAbort env sid reason h')"
    "quiet h (host_dropStream sid (set_object r (Ws s') h), Terminate r # sendAbort env sid reason h')" for s' sid ft v reason h'
    by (rule quiet_ws(2); simp)+
  ultimately show ?thesis
    using idle
    by (cases e) (simp_all add: ws_opened_def ws_message_def ws_continue_def ws_closed_def ws_error_def drop_set_object Let_def
        split: list.split sum.split)
qed

lemma abort_quiet:
  assumes "host_ok h"
  shows "quiet h (abortLocalStream sid reason h)"
proof (cases "current_stream h sid")
  case (Some p)
  then obtain r x where cs: "current_stream h sid = Some (r, x)" by (cases p) auto
  have cur: "map_of (streams h) sid = Some r" "objects h r = Some x" using current_streamD [OF cs] by (simp_all add: is_current_def)
  show ?thesis
  proof (cases x)
    case (Http s)
    have "quiet h (host_dropStream sid (set_object r (Http ((body_error reason s)\<lparr>aborted := True\<rparr>)) h),
        (if sink s = Live \<and> live_open s then [Body_Error r] else []) @ [Abort_Fetch r])"
      using current_id [OF assms, of sid r x] current_streamD [OF cs] cur Http by (intro quiet_drop) auto
    then show ?thesis using cur Http by (simp add: abortLocalStream_def drop_set_object)
  next
    case (Ws s)
    have "quiet h (host_dropStream sid (set_object r (Ws (s\<lparr>readyState := Closing\<rparr>)) h), [Terminate r])"
      by (rule quiet_ws) simp
    then show ?thesis using cur Ws by (simp add: abortLocalStream_def drop_set_object)
  qed
next
  case None
  then have "abortLocalStream sid reason h = (h, [])"
    by (auto simp: abortLocalStream_def current_stream_def split: option.splits)
  then show ?thesis by (simp add: quiet_same)
qed

lemma quiet_append: "quiet h res \<Longrightarrow> (\<And>r. enqueues r outs = []) \<Longrightarrow> quiet h (fst res, snd res @ outs)"
  by (simp add: quiet_def)

lemma ws_open_quiet:
  assumes "host_ok h"
  shows "quiet h (handleWsOpen env sid pl h)"
proof (cases "map_of (streams h) sid")
  case (Some r)
  show ?thesis
    using Some quiet_append [OF abort_quiet [OF assms]] by (simp add: handleWsOpen_def case_prod_beta)
next
  case None
  have "quiet h (set_object (next_ref h) (Ws s) (h\<lparr>streams := AList.update sid (next_ref h) (streams h), next_ref := Suc (next_ref h)\<rparr>), outs)"
    if "\<And>r. enqueues r outs = []" for s outs
    using that by (auto simp: quiet_def is_current_def split: if_splits)
  with None quiet_same [of _ h] show ?thesis
    by (simp add: handleWsOpen_def Let_def split: sum.split option.split)
qed

lemma ws_close_quiet: "quiet h (handleWsClose env sid pl h)"
proof -
  have "quiet h (host_dropStream sid (set_object r (Ws s') h), [Terminate r])"
    "quiet h (host_dropStream sid (set_object r (Ws s') h), [Socket_Close r code reason])" for s' r code reason
    by (rule quiet_ws(2); simp)+
  with quiet_same [of "[]" h] show ?thesis
    by (simp add: handleWsClose_def drop_set_object Let_def case_prod_beta split: option.split TunnelStream.split)
qed


lemma bodies_other:
  assumes "bodies_ok u enq h" "\<And>r s. is_current h sid r \<Longrightarrow> objects h r = Some (Http s) \<Longrightarrow> sink_ok up (enq r) s"
  shows "bodies_ok (u(sid := up)) enq h"
  using assms by (auto simp: bodies_ok_def)

lemma bodies_set:
  assumes "bodies_ok u enq h" "host_ok h" "is_current h sid r" "objects h r = Some x" "sink_ok up (enq r @ extra) s'" "r < next_ref h"
  shows "bodies_ok (u(sid := up)) (\<lambda>r'. if r' = r then enq r' @ extra else enq r') (set_object r (Http s') h)"
  unfolding bodies_ok_def
proof (intro conjI allI impI)
  fix sid' r' t assume t: "is_current (set_object r (Http s') h) sid' r' \<and> objects (set_object r (Http s') h) r' = Some (Http t)"
  show "sink_ok ((u(sid := up)) sid') (if r' = r then enq r' @ extra else enq r') t"
  proof (cases "r' = r")
    case True
    with t have "sid' = stream_id x" using current_id [OF assms(2), of sid' r x] assms(4) by simp
    with current_id [OF assms(2,3,4)] have "sid' = sid" by simp
    with True t assms(5) show ?thesis by simp
  next
    case False
    with t assms(3) have "sid' \<noteq> sid" by (auto simp: is_current_def)
    with False t assms(1) show ?thesis by (auto simp: bodies_ok_def)
  qed
qed (use assms(1,6) in \<open>auto simp: bodies_ok_def\<close>)

definition delivers :: "uploads \<Rightarrow> (nat \<Rightarrow> bytes list) \<Rightarrow> tunnel_host \<times> effect list \<Rightarrow> bool" where
  "delivers u enq res \<longleftrightarrow> bodies_ok u (\<lambda>r. enq r @ enqueues r (snd res)) (fst res)"

lemma quiet_delivers: "quiet h res \<Longrightarrow> bodies_ok u enq h \<Longrightarrow> host_ok (fst res) \<Longrightarrow> delivers u enq res"
proof -
  assume *: "quiet h res" "bodies_ok u enq h" "host_ok (fst res)"
  from *(1) have "\<And>r. enqueues r (snd res) = []" by (simp add: quiet_def)
  with quiet_bodies [OF *] show ?thesis by (simp add: delivers_def)
qed

lemma if_same_arg: "(\<lambda>r'. if r' = r then f r' @ [] else f r') = f"
  by auto

lemma stream_end_delivers:
  assumes "host_ok h" "bodies_ok u enq h"
  shows "delivers (u(sid := (fst (u sid), True))) enq (handleStreamEnd sid h)"
proof (cases "\<exists>r s. current_stream h sid = Some (r, Http s) \<and> sink s \<noteq> No_Sink")
  case True
  then obtain r s where cs: "current_stream h sid = Some (r, Http s)" "sink s \<noteq> No_Sink" by blast
  have cur: "is_current h sid r" "objects h r = Some (Http s)" using current_streamD [OF cs(1)] by simp_all
  have ok: "sink_ok (u sid) (enq r) s" using assms(2) cur by (auto simp: bodies_ok_def)
  have "bodies_ok (u(sid := (fst (u sid), True))) enq (set_object r (Http s') h)" if "sink_ok (fst (u sid), True) (enq r) s'" for s'
    using bodies_set [OF assms(2,1) cur, of "(fst (u sid), True)" "[]" s', unfolded if_same_arg] that host_ok_object(1) [OF assms(1) cur(2)] by simp
  moreover have "sink_ok (fst (u sid), True) (enq r) (finishBody None s)" if "sink s = Buffering"
    using ok that by (auto simp: sink_ok_def finishBody_def)
  moreover have "sink_ok (fst (u sid), True) (enq r) (s\<lparr>live_open := False\<rparr>)" if "sink s = Live"
    using ok that by (auto simp: sink_ok_def)
  ultimately show ?thesis
    using cs by (cases "sink s") (simp_all add: handleStreamEnd_def delivers_def)
next
  case False
  have "bodies_ok (u(sid := (fst (u sid), True))) enq h"
  proof (rule bodies_other [OF assms(2)])
    fix r s assume cur: "is_current h sid r" "objects h r = Some (Http s)"
    then have "current_stream h sid = Some (r, Http s)" by (simp add: current_stream_def is_current_def)
    with False have "sink s = No_Sink" by blast
    then show "sink_ok (fst (u sid), True) (enq r) s" by (simp add: sink_ok_def)
  qed
  moreover from False have "handleStreamEnd sid h = (h, [])"
    by (auto simp: handleStreamEnd_def split: option.split TunnelStream.split body_sink.split)
  ultimately show ?thesis by (simp add: delivers_def)
qed


lemma body_delivers:
  assumes "host_ok h" "bodies_ok u enq h"
  shows "delivers (if snd (u sid) then u else u(sid := (fst (u sid) @ [pl], False))) enq (handleHttpBody env sid pl h)"
proof (cases "\<exists>r s. current_stream h sid = Some (r, Http s) \<and> sink s \<noteq> No_Sink")
  case True
  then obtain r s where cs: "current_stream h sid = Some (r, Http s)" "sink s \<noteq> No_Sink" by blast
  have cur: "is_current h sid r" "objects h r = Some (Http s)" using current_streamD [OF cs(1)] by simp_all
  have ok: "sink_ok (u sid) (enq r) s" using assms(2) cur by (auto simp: bodies_ok_def)
  have nb: "\<not> noBody s" using ok cs(2) by (simp add: sink_ok_def)
  have fresh: "r < next_ref h" using host_ok_object(1) [OF assms(1) cur(2)] .
  let ?u = "u(sid := (fst (u sid) @ [pl], False))"
  show ?thesis
  proof (cases "snd (u sid)")
    case True
    then have "handleHttpBody env sid pl h = (h, [])"
      using cs nb ok by (cases "sink s") (simp_all add: handleHttpBody_def body_enqueue_def sink_ok_def)
    with True assms(2) show ?thesis by (simp add: delivers_def)
  next
    case False
    show ?thesis
    proof (cases "sink s")
      case Live
      have res: "handleHttpBody env sid pl h = (h, [Body_Enqueue r pl])"
        using cs nb ok False Live by (simp add: handleHttpBody_def body_enqueue_def sink_ok_def)
      have "bodies_ok ?u (\<lambda>r'. if r' = r then enq r' @ [pl] else enq r') (set_object r (Http s) h)"
        by (rule bodies_set [OF assms(2,1) cur]) (use ok Live fresh nb False in \<open>auto simp: sink_ok_def\<close>)
      moreover have "set_object r (Http s) h = h" using cur(2) by (simp add: set_object_def fun_upd_idem)
      moreover have "(\<lambda>r'. enq r' @ enqueues r' [Body_Enqueue r pl]) = (\<lambda>r'. if r' = r then enq r' @ [pl] else enq r')" by auto
      ultimately show ?thesis using False by (simp add: delivers_def res)
    next
      case Buffering
      let ?s = "s\<lparr>bodyFrameCount := bodyFrameCount s + 1, buffered := buffered s @ [pl], bufferedBytes := bufferedBytes s + length pl\<rparr>"
      show ?thesis
      proof (cases "bufferedBytes s + length pl > BODY_BUFFER_MAX_BYTES")
        case True
        let ?t = "?s\<lparr>sink := Live, live_open := True, buffered := [], phase := Fetching\<rparr>"
        have res: "handleHttpBody env sid pl h = (set_object r (Http ?t) h, map (Body_Enqueue r) (buffered s @ [pl]) @ [request_effect env r (request s) Live_Body])"
          using cs nb ok False Buffering True
          by (simp add: handleHttpBody_def body_enqueue_def sink_ok_def switchToLive_def forwardRequest_def Let_def)
        have all: "enqueues r' (map (Body_Enqueue r) ps) = (if r' = r then ps else [])" for r' ps by (induction ps) auto
        have "bodies_ok ?u (\<lambda>r'. if r' = r then enq r' @ (buffered s @ [pl]) else enq r') (set_object r (Http ?t) h)"
          by (rule bodies_set [OF assms(2,1) cur]) (use ok Buffering fresh nb in \<open>auto simp: sink_ok_def\<close>)
        moreover have "(\<lambda>r'. enq r' @ enqueues r' (map (Body_Enqueue r) (buffered s @ [pl]) @ [request_effect env r (request s) Live_Body])) =
            (\<lambda>r'. if r' = r then enq r' @ (buffered s @ [pl]) else enq r')"
          by (rule ext) (simp only: enqueues_append all enqueues_sends append_Nil2, simp)
        ultimately show ?thesis using False unfolding delivers_def res by simp
      next
        case small: False
        have res: "handleHttpBody env sid pl h = (set_object r (Http ?s) h, [])"
          using cs nb ok False Buffering small by (simp add: handleHttpBody_def body_enqueue_def sink_ok_def Let_def)
        have "bodies_ok ?u (\<lambda>r'. if r' = r then enq r' @ [] else enq r') (set_object r (Http ?s) h)"
          by (rule bodies_set [OF assms(2,1) cur]) (use ok Buffering fresh nb small False in \<open>auto simp: sink_ok_def\<close>)
        then show ?thesis using False unfolding if_same_arg by (simp add: delivers_def res)
      qed
    qed (use cs in simp)
  qed
next
  case False
  have "bodies_ok (if snd (u sid) then u else u(sid := (fst (u sid) @ [pl], False))) enq h"
    using assms(2) bodies_other [OF assms(2), of sid "(fst (u sid) @ [pl], False)"] False
    by (auto simp: current_stream_def is_current_def sink_ok_def split: option.splits)
  moreover from False have "handleHttpBody env sid pl h = (h, [])"
    by (auto simp: handleHttpBody_def body_enqueue_def split: option.split TunnelStream.split body_sink.split)
  ultimately show ?thesis by (simp add: delivers_def)
qed


lemma request_delivers:
  assumes "host_ok h" "bodies_ok u enq h" "host_ok (fst (handleHttpRequest env sid pl h))"
  shows "delivers (u(sid := ([], False))) enq (handleHttpRequest env sid pl h)"
proof (cases "map_of (streams h) sid")
  case (Some r)
  let ?a = "abortLocalStream sid ''duplicate stream id'' h"
  note cut = abort_local [OF assms(1), of sid "''duplicate stream id''"]
  have "bodies_ok u enq (fst ?a)" by (rule quiet_bodies [OF abort_quiet [OF assms(1)] assms(2) cut(1)])
  then have "bodies_ok (u(sid := ([], False))) enq (fst ?a)"
    by (rule bodies_other) (use cut(5) in \<open>simp add: is_current_def\<close>)
  moreover have "enqueues r (snd ?a) = []" for r using abort_quiet [OF assms(1)] by (simp add: quiet_def)
  ultimately show ?thesis using Some by (simp add: handleHttpRequest_def delivers_def case_prod_beta)
next
  case None
  have base: "bodies_ok (u(sid := ([], False))) enq h"
    by (rule bodies_other [OF assms(2)]) (use None in \<open>simp add: is_current_def\<close>)
  show ?thesis
  proof (cases "decodeJsonPayload env pl isHttpRequestPayload")
    case (Inl e)
    with None base show ?thesis by (simp add: handleHttpRequest_def delivers_def)
  next
    case (Inr v)
    define r where "r = next_ref h"
    have fresh: "\<not> is_current h sid' r" for sid' using assms(1) host_okD(2) [of h sid' r] host_ok_object(1) [OF assms(1), of r] by (auto simp: r_def)
    have new: "delivers (u(sid := ([], False))) enq (h', outs)"
      if h': "streams h' = AList.update sid r (streams h)" "next_ref h' = Suc r" "\<forall>r'. r' \<noteq> r \<longrightarrow> objects h' r' = objects h r'"
        "case objects h' r of Some (Http s) \<Rightarrow> sink_ok ([], False) [] s | _ \<Rightarrow> False" and outs: "\<And>r. enqueues r outs = []" for h' outs
      unfolding delivers_def bodies_ok_def fst_conv snd_conv
    proof (intro conjI allI impI)
      fix sid' r' s assume *: "is_current h' sid' r' \<and> objects h' r' = Some (Http s)"
      show "sink_ok ((u(sid := ([], False))) sid') (enq r' @ enqueues r' outs) s"
      proof (cases "sid' = sid")
        case True
        with * h'(1) have "r' = r" by (simp add: is_current_def)
        moreover have "enq r = []" using assms(2) by (simp add: bodies_ok_def r_def)
        ultimately show ?thesis using True * h'(4) outs by simp
      next
        case False
        with * h'(1) have "is_current h sid' r'" by (simp add: is_current_def)
        moreover from this fresh have "r' \<noteq> r" by auto
        ultimately have "sink_ok (u sid') (enq r') s" using * h'(3) assms(2) by (auto simp: bodies_ok_def)
        then show ?thesis using False outs by simp
      qed
    qed (use base outs h'(2) in \<open>simp add: bodies_ok_def r_def\<close>)
    have gone: "delivers (u(sid := ([], False))) enq (host_dropStream sid h', outs)"
      if h': "streams h' = AList.update sid r (streams h)" "next_ref h' = Suc r" "\<forall>r'. r' \<noteq> r \<longrightarrow> objects h' r' = objects h r'"
        and outs: "\<And>r. enqueues r outs = []" for h' outs
      unfolding delivers_def bodies_ok_def fst_conv snd_conv
    proof (intro conjI allI impI)
      fix sid' r' s assume *: "is_current (host_dropStream sid h') sid' r' \<and> objects (host_dropStream sid h') r' = Some (Http s)"
      then have "sid' \<noteq> sid" "is_current h' sid' r'" by simp_all
      then have "is_current h sid' r'" using h'(1) by (simp add: is_current_def)
      moreover from this fresh have "r' \<noteq> r" by auto
      ultimately have "sink_ok (u sid') (enq r') s" using * h'(3) assms(2) by (auto simp: bodies_ok_def)
      then show "sink_ok ((u(sid := ([], False))) sid') (enq r' @ enqueues r' outs) s" using \<open>sid' \<noteq> sid\<close> outs by simp
    qed (use base outs h'(2) in \<open>simp add: bodies_ok_def r_def\<close>)
    have "\<And>r. enqueues r (syntheticResponse env sid status message h') = []" for status message h'
      by (simp add: syntheticResponse_def)
    then show ?thesis
      using None Inr new gone
      by (simp add: handleHttpRequest_def runHttpStream_def forwardRequest_def r_def [symmetric] sink_ok_def set_object_def Let_def)
  qed
qed


lemma upload_other:
  assumes "frame_type f \<notin> {Some HttpRequest, Some HttpBody, Some StreamEnd}"
  shows "upload_frame f u = u"
  using assms by (simp add: upload_frame_def case_prod_beta)

lemma frame_delivers:
  assumes "host_ok h" "\<not> closed h" "bodies_ok u enq h"
  shows "delivers (upload_step (Frame bs) u) enq (handleFrame env bs h)"
proof (cases "decodeTunnelFrame bs")
  case (Inl e)
  with assms show ?thesis by (simp add: handleFrame_def upload_step_def delivers_def)
next
  case (Inr f)
  have ok: "host_ok (fst (handleFrame env bs h))" using frame_tracks [OF assms(1,2)] by (simp add: tracks_def)
  obtain ft where ft: "frame_type f = Some ft" "frameType f = type_value ft"
  proof -
    from Inr have "isTunnelFrameType (frameType f)" by (auto simp: decodeTunnelFrame_def Let_def split: if_splits)
    then obtain ft where "client_isTunnelFrameType (frameType f) = Some ft"
      by (cases "client_isTunnelFrameType (frameType f)") (auto simp: client_isTunnelFrameType_None)
    with that show thesis by (simp add: frame_type_def client_isTunnelFrameType_Some)
  qed
  have handle: "handleFrame env bs h = dispatch_frame env f h" using Inr assms(2) by (simp add: handleFrame_def)
  have step: "upload_step (Frame bs) u = upload_frame f u" using Inr by (simp add: upload_step_def)
  show ?thesis
  proof (cases "ft \<in> {HttpRequest, HttpBody, StreamEnd}")
    case True
    then show ?thesis
      using request_delivers [OF assms(1,3), of env "streamId f" "payload f"] body_delivers [OF assms(1,3), of "streamId f" "payload f" env]
        stream_end_delivers [OF assms(1,3), of "streamId f"] ok ft handle
      by (auto simp: step dispatch_frame_def upload_frame_def case_prod_beta)
  next
    case False
    have "quiet h (dispatch_frame env f h)"
    proof -
      have idle: "quiet h (h, [])" "quiet h (h, send_encoded Pong (streamId f) [] h)" by (rule quiet_same; simp)+
      have "quiet h (h\<lparr>assembler := pend\<rparr>, [])" "quiet h (h\<lparr>assembler := pend\<rparr>, [Throws x])"
        "quiet h (h\<lparr>assembler := pend\<rparr>, handleWsMessage sid b message h')" for pend x sid b message h'
        by (auto simp: quiet_def is_current_def handleWsMessage_def split: option.split TunnelStream.split)
      then show ?thesis
        using False ft(2) idle abort_quiet [OF assms(1)] ws_open_quiet [OF assms(1)] ws_close_quiet [of h]
        by (cases ft) (simp_all add: dispatch_frame_def Let_def split: prod.split sum.split option.split)
    qed
    with quiet_delivers [OF _ assms(3)] ok handle show ?thesis
      using upload_other [of f] ft(1) False by (simp add: step)
  qed
qed

lemma step_delivers:
  assumes "host_ok h" "\<not> closed h" "e \<noteq> Close" "bodies_ok u enq h"
  shows "delivers (upload_step e u) enq (tunnel_step env h e)"
proof (cases e)
  case (Frame bs)
  then show ?thesis using frame_delivers [OF assms(1,2,4)] by simp
next
  case (Http_Event r ev)
  have "quiet h (tunnel_step env h e)" using Http_Event http_step_quiet quiet_same by (auto split: option.split TunnelStream.split)
  with quiet_delivers [OF _ assms(4)] tunnel_step_tracks [OF assms(1-3)] Http_Event show ?thesis by (simp add: tracks_def upload_step_def)
next
  case (Ws_Event r ev)
  have "quiet h (tunnel_step env h e)" using Ws_Event ws_step_quiet quiet_same by (auto split: option.split TunnelStream.split)
  with quiet_delivers [OF _ assms(4)] tunnel_step_tracks [OF assms(1-3)] Ws_Event show ?thesis by (simp add: tracks_def upload_step_def)
qed (use assms(3) in simp)

lemma run_bodies:
  assumes "run_inv h" "\<not> closed h \<Longrightarrow> bodies_ok u enq h" "\<not> closed (fst (tunnel_run env h es))"
  shows "bodies_ok (fold upload_step es u) (\<lambda>r. enq r @ concat (map (enqueues r \<circ> snd) (snd (tunnel_run env h es)))) (fst (tunnel_run env h es))"
  using assms
proof (induction es arbitrary: h u enq)
  case (Cons e es)
  obtain h' outs where step: "tunnel_step env h e = (h', outs)" by fastforce
  have inv: "run_inv h'" using run_inv_step [OF Cons.prems(1), of env e] step by simp
  have still: "closed h2 \<Longrightarrow> closed (fst (tunnel_run env h2 es))" for h2
  proof (induction es arbitrary: h2)
    case (Cons e es)
    with tunnel_step_closed [of h2 env e] show ?case by (simp add: case_prod_beta)
  qed simp
  have bodies: "bodies_ok (upload_step e u) (\<lambda>r. enq r @ enqueues r outs) h'" if "\<not> closed h'"
  proof -
    have e: "e \<noteq> Close" using that step close_host_closes(1) [of h] by auto
    then have "\<not> closed h" using tunnel_step_keeps [OF e, of env h] that step by simp
    with step_delivers [OF _ this e, of u enq env] Cons.prems(1,2) step show ?thesis by (simp add: run_inv_def delivers_def)
  qed
  from Cons.IH [OF inv bodies] Cons.prems(3) step show ?case by (simp add: case_prod_beta)
qed simp


definition unbuffered :: "effect list \<Rightarrow> bool" where
  "unbuffered outs \<longleftrightarrow> list_all (\<lambda>x. case x of Fetch _ _ _ _ (Buffer _) \<Rightarrow> False | _ \<Rightarrow> True) outs"

lemma unbuffered_simps [simp]:
  "unbuffered []" "unbuffered (x # xs) \<longleftrightarrow> (case x of Fetch _ _ _ _ (Buffer _) \<Rightarrow> False | _ \<Rightarrow> True) \<and> unbuffered xs"
  "unbuffered (xs @ ys) \<longleftrightarrow> unbuffered xs \<and> unbuffered ys" "unbuffered (map (Body_Enqueue r) cs)"
  "unbuffered (send frame h)" "unbuffered (send_encoded ft sid pl h)" "unbuffered (sendJson env ft sid v h)"
  "unbuffered (sendAbort env sid reason h)"
  by (auto simp: unbuffered_def list_all_iff send_def send_encoded_def sendJson_def sendAbort_def split: sum.split)

lemma abort_unbuffered: "unbuffered (snd (abortLocalStream sid reason h))"
  by (simp add: abortLocalStream_def split: option.split TunnelStream.split)

lemma frame_unbuffered: "unbuffered (snd (handleFrame env bs h))"
proof -
  have run: "unbuffered (snd (runHttpStream env r s h))" for r s h
    by (simp add: runHttpStream_def forwardRequest_def syntheticResponse_def request_effect_def Let_def)
  have "unbuffered (snd (handleHttpRequest env sid pl h))" for sid pl h
    by (simp add: handleHttpRequest_def abort_unbuffered run Let_def case_prod_beta split: sum.split)
  moreover have "unbuffered (snd (handleHttpBody env sid pl h))" for sid pl h
    by (simp add: handleHttpBody_def body_enqueue_def switchToLive_def forwardRequest_def request_effect_def Let_def
        split: option.split TunnelStream.split body_sink.split)
  moreover have "unbuffered (snd (handleStreamEnd sid h))" for sid h
    by (simp add: handleStreamEnd_def split: option.split TunnelStream.split body_sink.split)
  moreover have "unbuffered (snd (handleWsOpen env sid pl h))" for sid pl h
    by (simp add: handleWsOpen_def abort_unbuffered Let_def case_prod_beta split: sum.split option.split)
  moreover have "unbuffered (snd (handleWsClose env sid pl h))" for sid pl h
    by (simp add: handleWsClose_def Let_def case_prod_beta split: option.split TunnelStream.split)
  moreover have "unbuffered (handleWsMessage sid isBinary message h)" for sid isBinary message h
    by (simp add: handleWsMessage_def split: option.split TunnelStream.split)
  ultimately show ?thesis
    using abort_unbuffered by (simp add: handleFrame_def dispatch_frame_def Let_def split: sum.split option.split prod.split)
qed

lemma buffered_fetch:
  assumes "\<not> unbuffered (snd (tunnel_step env h e))"
  obtains r s where "e = Http_Event r Body_Ended" "objects h r = Some (Http s)"
proof -
  have others: "unbuffered (snd (http_step env r s e' h))" if "e' \<noteq> Body_Ended" for r s e'
    using that
    by (cases e') (simp_all add: delivery_deadline_def fetch_failed_def fetch_done_def response_chunk_def response_error_def
        response_piece_def response_end_def drop_aborting_def Let_def split: sum.split http_phase.split list.split)
  have "e' = Body_Ended" if "\<not> unbuffered (snd (http_step env r s e' h))" for r s e'
    using others that by blast
  moreover have "unbuffered (snd (ws_step env r s e' h))" for r s e'
    by (cases e') (auto simp: ws_opened_def ws_message_def ws_continue_def ws_closed_def ws_error_def Let_def split: list.split sum.split)
  moreover have "unbuffered (snd (abort_all sids h))" for sids h
  proof (induction sids arbitrary: h)
    case (Cons sid sids)
    then show ?case using abort_unbuffered by (simp add: case_prod_beta)
  qed simp
  ultimately show thesis
    using assms that frame_unbuffered
    by (cases e) (auto simp: close_host_def case_prod_beta split: option.splits TunnelStream.splits if_splits)
qed

section \<open>Mixed messages\<close>

text \<open>The frames a trace sends, decoded.\<close>

fun sent_frames :: "effect list \<Rightarrow> TunnelFrame list" where
  "sent_frames [] = []"
| "sent_frames (Send_Frame bs # outs) = (case decodeTunnelFrame bs of Inl _ \<Rightarrow> sent_frames outs | Inr f \<Rightarrow> f # sent_frames outs)"
| "sent_frames (x # outs) = sent_frames outs"

lemma max_payload: "0 < MAX_TUNNEL_PAYLOAD_BYTES" "MAX_TUNNEL_PAYLOAD_BYTES \<le> DEFAULT_MAX_MESSAGE_BYTES"
  "MAX_TUNNEL_PAYLOAD_BYTES + MAX_TUNNEL_PAYLOAD_BYTES \<le> DEFAULT_MAX_MESSAGE_BYTES"
  by (simp_all add: tunnel_constants DEFAULT_MAX_MESSAGE_BYTES_def)

lemma encode_small:
  assumes "sid < 2 ^ 32" "length pl \<le> MAX_TUNNEL_PAYLOAD_BYTES"
  obtains frame where "encodeTunnelFrame (type_value ft) (JInt (int sid)) pl hasMore = Inr frame"
    "decodeTunnelFrame frame = Inr \<lparr>frameType = type_value ft, streamId = sid, payload = pl, hasMoreFragments = hasMore\<rparr>"
proof (cases "encodeTunnelFrame (type_value ft) (JInt (int sid)) pl hasMore")
  case (Inl e)
  with assms show thesis by (auto simp: encodeTunnelFrame_def MAX_STREAM_ID_def split: if_splits)
next
  case (Inr frame)
  with that decode_of_encode [of "type_value ft" "int sid" pl hasMore frame] assms(1) show thesis by (simp add: MAX_STREAM_ID_def)
qed

lemma one_chunk: "length c \<le> MAX_TUNNEL_PAYLOAD_BYTES \<Longrightarrow> chunkPayload c (int MAX_TUNNEL_PAYLOAD_BYTES) = Inr [c]"
  using max_payload(1) by (cases c) (auto simp: chunkPayload_def slice_def chunk_loop.simps)

lemma two_chunks:
  assumes "length a = MAX_TUNNEL_PAYLOAD_BYTES" "b \<noteq> []" "length b \<le> MAX_TUNNEL_PAYLOAD_BYTES"
  shows "chunkPayload (a @ b) (int MAX_TUNNEL_PAYLOAD_BYTES) = Inr [a, b]"
proof -
  have "chunk_loop (a @ b) (length a) 0 = [a, b]"
    using assms max_payload(1) by (subst chunk_loop.simps, subst chunk_loop.simps, subst chunk_loop.simps) (auto simp: slice_def)
  with assms max_payload(1) show ?thesis by (simp add: chunkPayload_def)
qed


section \<open>Properties\<close>


definition toy_env :: tunnel_env where
  "toy_env =
     \<lparr>connectionId = ''c1'', localPort = 80, json_bytes = (\<lambda>v. [123]),
      json_parse = (\<lambda>bs. Some (JObject [(''method'', JString ''post''), (''path'', JString ''/api/x''), (''query'', JString []),
        (''headers'', JObject [(''Host'', JString ''evil'')]), (''hasBody'', JBool True)])),
      dial_error = (\<lambda>url ps. None), close_throws = (\<lambda>code reason. False)\<rparr>"

definition toy_events :: "host_event list" where
  "toy_events =
     [Frame [1, 0, 0, 0, 5], Frame [2, 0, 0, 0, 5, 65], Frame [2, 0, 0, 0, 5, 66, 67], Frame [4, 0, 0, 0, 5], Http_Event 0 Body_Ended,
      Http_Event 0 (Fetch_Done 200 []), Http_Event 0 (Response_Chunk [68]), Http_Event 0 Response_Piece, Http_Event 0 Response_End]"

lemma tunnel_run_append:
  "tunnel_run env h (xs @ ys) =
    (case tunnel_run env h xs of (h', t) \<Rightarrow> case tunnel_run env h' ys of (h'', t') \<Rightarrow> (h'', t @ t'))"
  by (induction xs arbitrary: h) (auto simp: case_prod_beta)

lemma toy_decode:
  "decodeTunnelFrame [1, 0, 0, 0, 5] = Inr \<lparr>frameType = 1, streamId = 5, payload = [], hasMoreFragments = False\<rparr>"
  "decodeTunnelFrame [2, 0, 0, 0, 5, 65] = Inr \<lparr>frameType = 2, streamId = 5, payload = [65], hasMoreFragments = False\<rparr>"
  "decodeTunnelFrame [2, 0, 0, 0, 5, 66, 67] = Inr \<lparr>frameType = 2, streamId = 5, payload = [66, 67], hasMoreFragments = False\<rparr>"
  "decodeTunnelFrame [4, 0, 0, 0, 5] = Inr \<lparr>frameType = 4, streamId = 5, payload = [], hasMoreFragments = False\<rparr>"
  by (simp_all add: decodeTunnelFrame_def read_be32_def of_be32_def byte_at_def TUNNEL_FRAME_HEADER_BYTES_def TUNNEL_FRAGMENT_FLAG_def
      isTunnelFrameType_def TunnelFrameType_values_def)

lemma toy_request:
  "decodeJsonPayload toy_env [] isHttpRequestPayload = Inr (JObject [(''method'', JString ''post''), (''path'', JString ''/api/x''), (''query'', JString []),
        (''headers'', JObject [(''Host'', JString ''evil'')]), (''hasBody'', JBool True)])"
  by (simp add: decodeJsonPayload_def toy_env_def isHttpRequestPayload_def is_record_def own_prop_def)

lemma toy_headers: "buildRequestHeaders toy_env [(''Host'', ''evil'')] ''http://127.0.0.1:80'' = [(''x-varin-relay-connection'', ''c1''), (''origin'', ''http://127.0.0.1:80'')]"
proof -
  have "map ascii_lower ''Host'' = ''host''" by code_simp
  then show ?thesis by (simp add: buildRequestHeaders_def add_header_def STRIPPED_REQUEST_HEADERS_def toy_env_def Let_def del: list.map)
qed

lemma toy_loopback: "loopback toy_env = ''http://127.0.0.1:80''"
proof -
  have "dec 80 = ''80''" by code_simp
  then show ?thesis by (simp add: loopback_def toy_env_def)
qed

lemma toy_upper: "map ascii_upper ''post'' = ''POST''"
  by code_simp

definition toy_stream :: http_stream where
  "toy_stream =
     \<lparr>http_id = 5,
      request = \<lparr>hasBody = True, headers = [(''Host'', ''evil'')], request_method = ''post'', request_path = ''/api/x'', request_query = []\<rparr>,
      noBody = False, sink = Buffering, buffered = [[65], [66, 67]], bufferedBytes = 3, bodyFrameCount = 2, completed = True, bodyFailure = None,
      live_open = False, aborted = False, phase = Awaiting_Body\<rparr>"

definition toy_host :: tunnel_host where
  "toy_host = \<lparr>streams = [(5, 0)], objects = [0 \<mapsto> Http toy_stream], next_ref = 1, assembler = Map.empty, closed = False\<rparr>"

lemma toy_upload: "tunnel_run toy_env createTunnelHost (take 4 toy_events) = (toy_host, zip (take 4 toy_events) [[], [], [], []])"
  using toy_request toy_upper
  by (simp add: toy_events_def toy_host_def toy_stream_def createTunnelHost_def handleFrame_def toy_decode dispatch_frame_def
      handleHttpRequest_def runHttpStream_def handleHttpBody_def handleStreamEnd_def body_enqueue_def finishBody_def current_stream_def
      set_object_def isAllowedHttpPath_def http_request_def own_prop_def BODY_BUFFER_MAX_BYTES_def Let_def del: list.map)
    (simp add: eval_nat_numeral)

lemma toy_fetch: "tunnel_step toy_env toy_host (Http_Event 0 Body_Ended) =
    (set_object 0 (Http (toy_stream\<lparr>sink := No_Sink, phase := Fetching\<rparr>)) toy_host,
     [Fetch 0 ''http://127.0.0.1:80/api/x'' ''POST'' [(''x-varin-relay-connection'', ''c1''), (''origin'', ''http://127.0.0.1:80'')] (Buffer [65, 66, 67])])"
  using toy_upper
  by (simp add: toy_host_def toy_stream_def body_ended_def is_current_def forwardRequest_def request_effect_def toy_loopback toy_headers
      with_query_def set_object_def Let_def del: list.map)


lemma toy_run:
  "tunnel_run toy_env createTunnelHost (take 4 toy_events @ [Http_Event 0 Body_Ended, Http_Event 0 (Fetch_Failed [])]) =
    (host_dropStream 5 (set_object 0 (Http (toy_stream\<lparr>sink := No_Sink, phase := Settled\<rparr>)) toy_host),
     zip (take 4 toy_events) [[], [], [], []] @
     [(Http_Event 0 Body_Ended, [Fetch 0 ''http://127.0.0.1:80/api/x'' ''POST'' [(''x-varin-relay-connection'', ''c1''), (''origin'', ''http://127.0.0.1:80'')] (Buffer [65, 66, 67])]),
      (Http_Event 0 (Fetch_Failed []), [Send_Frame [5, 0, 0, 0, 5, 123]])])"
proof -
  have "encodeTunnelFrame 5 (JInt 5) [123] False = Inr [5, 0, 0, 0, 5, 123]"
    by (simp add: encodeTunnelFrame_def MAX_STREAM_ID_def tunnel_constants be32_def)
  then have "tunnel_step toy_env (set_object 0 (Http (toy_stream\<lparr>sink := No_Sink, phase := Fetching\<rparr>)) toy_host) (Http_Event 0 (Fetch_Failed [])) =
      (host_dropStream 5 (set_object 0 (Http (toy_stream\<lparr>sink := No_Sink, phase := Settled\<rparr>)) toy_host), [Send_Frame [5, 0, 0, 0, 5, 123]])"
    by (simp add: fetch_failed_def handler_defs toy_stream_def toy_host_def toy_env_def is_current_def set_object_def host_dropStream_def
        send_encoded_def send_def)
  then show ?thesis by (simp add: tunnel_run_append toy_upload toy_fetch del: tunnel_step.simps)
qed



text \<open>
  C10. A request body arrives whole: when a request is sent with a buffered body, the client has ended the body and it is the
  concatenation of all chunks it sent on the stream, in order, at most 512 KB, and not without a chunk if one was announced;
  a live body has been given exactly the chunks the client has sent so far.
\<close>

theorem upload_delivered:
  assumes "tunnel_run env createTunnelHost es = (h, trace)"
  shows "(\<forall>e r url meth hs b. Fetch r url meth hs (Buffer b) \<in> set (snd (tunnel_step env h e)) \<longrightarrow>
      (\<exists>s. objects h r = Some (Http s) \<and> snd (uploads_of es (http_id s)) \<and> b = concat (fst (uploads_of es (http_id s))) \<and>
        length b \<le> BODY_BUFFER_MAX_BYTES \<and> (hasBody (request s) \<longrightarrow> fst (uploads_of es (http_id s)) \<noteq> []))) \<and>
    (\<forall>sid r s. current_stream h sid = Some (r, Http s) \<and> sink s = Live \<longrightarrow>
      concat (map (enqueues r \<circ> snd) trace) = fst (uploads_of es sid))"
proof -
  have h: "h = fst (tunnel_run env createTunnelHost es)" "trace = snd (tunnel_run env createTunnelHost es)" using assms by simp_all
  have inv: "run_inv h" using tunnel.reachable_inv [OF run_reachable [OF reach_start]] h(1) by blast
  have start: "run_inv createTunnelHost" "bodies_ok (\<lambda>sid. ([], False)) (\<lambda>r. []) createTunnelHost"
    using start_ok by (simp_all add: run_inv_def createTunnelHost_def bodies_ok_def is_current_def)
  have bodies: "bodies_ok (uploads_of es) (\<lambda>r. concat (map (enqueues r \<circ> snd) trace)) h" if "\<not> closed h"
    using run_bodies [OF start(1) start(2), where es = es and env = env] that h by (simp add: uploads_of_def)
  have up: "sink_ok (uploads_of es sid) (concat (map (enqueues r \<circ> snd) trace)) s" "host_ok h"
    if "is_current h sid r" "objects h r = Some (Http s)" for sid r s
  proof -
    have "\<not> closed h" using inv that(1) by (auto simp: run_inv_def is_current_def)
    with bodies that inv show "sink_ok (uploads_of es sid) (concat (map (enqueues r \<circ> snd) trace)) s" "host_ok h"
      by (auto simp: bodies_ok_def run_inv_def)
  qed
  have "\<exists>s. objects h r = Some (Http s) \<and> snd (uploads_of es (http_id s)) \<and> b = concat (fst (uploads_of es (http_id s))) \<and>
      length b \<le> BODY_BUFFER_MAX_BYTES \<and> (hasBody (request s) \<longrightarrow> fst (uploads_of es (http_id s)) \<noteq> [])"
    if fetch: "Fetch r url meth hs (Buffer b) \<in> set (snd (tunnel_step env h e))" for e r url meth hs b
  proof -
    have "\<not> unbuffered (snd (tunnel_step env h e))" using fetch by (force simp: unbuffered_def list_all_iff)
    then obtain r' s where e: "e = Http_Event r' Body_Ended" and s: "objects h r' = Some (Http s)" by (rule buffered_fetch)
    from fetch e s have run: "phase s = Awaiting_Body" "completed s" "is_current h (http_id s) r'" "r = r'" "b = concat (buffered s)"
      "\<not> (hasBody (request s) \<and> bodyFrameCount s = 0)"
      by (auto simp: body_ended_def forwardRequest_def request_effect_def drop_aborting_def sendAbort_def sendJson_def send_encoded_def send_def
          Let_def split: if_splits option.splits sum.splits)
    note ok = up [OF run(3) s]
    have "sink s = Buffering" using host_ok_object(2) [OF ok(2) s] run(1) by simp
    with ok(1) run s show ?thesis by (auto simp: sink_ok_def)
  qed
  moreover have "concat (map (enqueues r \<circ> snd) trace) = fst (uploads_of es sid)"
    if "current_stream h sid = Some (r, Http s)" "sink s = Live" for sid r s
    using up [of sid r s] current_streamD [OF that(1)] that(2) by (simp add: sink_ok_def)
  ultimately show ?thesis by blast
qed

theorem upload_delivered_witness:
  "\<exists>s. objects toy_host 0 = Some (Http s) \<and> snd (uploads_of (take 4 toy_events) (http_id s)) \<and>
     [65, 66, 67] = concat (fst (uploads_of (take 4 toy_events) (http_id s)))"
proof -
  have "Fetch 0 ''http://127.0.0.1:80/api/x'' ''POST'' [(''x-varin-relay-connection'', ''c1''), (''origin'', ''http://127.0.0.1:80'')] (Buffer [65, 66, 67])
      \<in> set (snd (tunnel_step toy_env toy_host (Http_Event 0 Body_Ended)))"
    unfolding toy_fetch by simp
  with upload_delivered [OF toy_upload] show ?thesis by blast
qed



lemma sent_append [simp]: "sent_frames (xs @ ys) = sent_frames xs @ sent_frames ys"
  by (induction xs rule: sent_frames.induct) (auto split: sum.split)

lemma fragments_of:
  assumes "sid < 2 ^ 32" "chunkPayload bs (int MAX_TUNNEL_PAYLOAD_BYTES) = Inr cs" "cs = [c] \<or> cs = [c, d]"
  obtains frames where "encodeFragmentedMessage (type_value ft) (JInt (int sid)) bs = Inr frames"
    "map decodeTunnelFrame frames = map Inr (fragments (type_value ft) sid cs)"
proof -
  have small: "\<forall>c \<in> set cs. length c \<le> MAX_TUNNEL_PAYLOAD_BYTES" using chunkPayload_Inr(3) [OF assms(2)] by simp
  obtain f where f: "encodeTunnelFrame (type_value ft) (JInt (int sid)) c (length cs = 2) = Inr f"
    using encode_small [OF assms(1)] small assms(3) by (metis list.set_intros(1))
  show thesis
    using assms(3)
  proof
    assume cs: "cs = [c]"
    then have enc: "encodeFragmentedMessage (type_value ft) (JInt (int sid)) bs = Inr [f]"
      using assms(2) f by (simp add: encodeFragmentedMessage_def)
    with encode_fragments [of "type_value ft" "int sid" 0 cs "[f]"] cs f assms(1) show thesis by (intro that [OF enc]) (simp add: MAX_STREAM_ID_def)
  next
    assume cs: "cs = [c, d]"
    obtain g where g: "encodeTunnelFrame (type_value ft) (JInt (int sid)) d False = Inr g"
      using encode_small [OF assms(1), of d ft False] small cs by (metis list.set_intros)
    then have enc: "encodeFragmentedMessage (type_value ft) (JInt (int sid)) bs = Inr [f, g]"
      using assms(2) f cs by (simp add: encodeFragmentedMessage_def)
    with encode_fragments [of "type_value ft" "int sid" 0 cs "[f, g]"] cs f g assms(1) show thesis
      by (intro that [OF enc]) (simp add: MAX_STREAM_ID_def)
  qed
qed



text \<open>Of several \<open>set-cookie\<close> headers, which a response lists one by one, only the last reaches the client.\<close>

lemma last_cookie_wins:
  "responseHeaders [(''set-cookie'', ''a=1''), (''content-type'', ''text/html''), (''set-cookie'', ''b=2'')] =
     [(''set-cookie'', ''b=2''), (''content-type'', ''text/html'')]"
  by (simp add: responseHeaders_def STRIPPED_RESPONSE_HEADERS_def)

text \<open>The allow list looks at the path as it is written, and \<open>fetch\<close> resolves its dot segments afterwards.\<close>

lemma dot_segments_pass: "isAllowedHttpPath ''/api/../settings''"
  by (simp add: isAllowedHttpPath_def)

end
