(* ===== verification/Relay_E2ee.thy ===== *)
theory Relay_E2ee
  imports Tunnel_Codec Recovery_State
begin

text \<open>
  The end-to-end encrypted channel of the relay, \<^verbatim>\<open>src/packages/web/application-host/lib/relay/e2ee.ts\<close> (the host) and
  \<^verbatim>\<open>src/packages/ui/src/lib/relay/{crypto,handshake}.ts\<close> (the client, whose \<open>crypto.ts\<close> has the same codecs).

  WebCrypto is the record \<open>relay_crypto\<close> of its operations: whether a point is on the curve, ECDH, HKDF for the fixed
  \<open>info\<close>, and AES-GCM. A private key is its scalar as bytes, a public key the strings \<open>x\<close> and \<open>y\<close> of its JWK. A text frame
  is the value \<open>JSON.parse\<close> gives for it, \<open>None\<close> where it throws; both sides handle one frame at a time. Random values are
  arguments.
\<close>

section \<open>Cryptography\<close>

record relay_crypto =
  on_curve :: "string \<Rightarrow> string \<Rightarrow> bool"
  ecdh :: "bytes \<Rightarrow> string \<times> string \<Rightarrow> bytes option"
  hkdf :: "bytes \<Rightarrow> bytes \<Rightarrow> bytes"
  seal :: "bytes \<Rightarrow> bytes \<Rightarrow> bytes \<Rightarrow> bytes"
  unseal :: "bytes \<Rightarrow> bytes \<Rightarrow> bytes \<Rightarrow> bytes option"

definition ENCRYPTED_FRAME_VERSION :: "8 word" where
  "ENCRYPTED_FRAME_VERSION = 1"

definition ENCRYPTED_FRAME_IV_BYTES :: nat where
  "ENCRYPTED_FRAME_IV_BYTES = 12"

definition ENCRYPTED_FRAME_HEADER_BYTES :: nat where
  "ENCRYPTED_FRAME_HEADER_BYTES = 1 + ENCRYPTED_FRAME_IV_BYTES"

definition HANDSHAKE_NONCE_BYTES :: nat where
  "HANDSHAKE_NONCE_BYTES = 16"

definition SESSION_KEY_BYTES :: nat where
  "SESSION_KEY_BYTES = 32"

definition GCM_TAG_BYTES :: nat where
  "GCM_TAG_BYTES = 16"

definition IV_PREFIX_BYTES :: nat where
  "IV_PREFIX_BYTES = 4"

definition IV_COUNTER_BYTES :: nat where
  "IV_COUNTER_BYTES = 8"

datatype relay_error = RelayCryptoError string | NativeError

definition importEcdhPublicKey :: "relay_crypto \<Rightarrow> jsval \<Rightarrow> (relay_error, string \<times> string) outcome" where
  "importEcdhPublicKey c jwk =
     (case (prop_of jwk ''kty'', prop_of jwk ''crv'', prop_of jwk ''x'', prop_of jwk ''y'') of
        (JString kty, JString crv, JString x, JString y) \<Rightarrow>
          if kty \<noteq> ''EC'' \<or> crv \<noteq> ''P-256'' then Inl (RelayCryptoError ''invalid ECDH public key JWK'')
          else if on_curve c x y then Inr (x, y)
          else Inl (RelayCryptoError ''invalid ECDH public key JWK'')
      | _ \<Rightarrow> Inl (RelayCryptoError ''invalid ECDH public key JWK''))"

text \<open>
  \<open>JSON.stringify\<close> of a value; \<open>undefined\<close> properties are left out, and an \<open>undefined\<close> element is \<open>null\<close>. Of a number that
  is no integer, and of an integer of 22 or more digits, only that its text is that of a number is right.
\<close>

fun json_text :: "jsval \<Rightarrow> string option" where
  "json_text JUndefined = None"
| "json_text JNull = Some ''null''"
| "json_text (JBool b) = Some (if b then ''true'' else ''false'')"
| "json_text (JNumber (JInt n)) = Some (if n < 0 then ''-'' @ dec (nat (- n)) else dec (nat n))"
| "json_text (JNumber JNonInt) = Some ''0.5''"
| "json_text (JString s) = Some (json_string s)"
| "json_text (JArray vs) =
     Some (''['' @ join_with '','' (map (\<lambda>v. case json_text v of None \<Rightarrow> ''null'' | Some t \<Rightarrow> t) vs) @ '']'')"
| "json_text (JObject ps) =
     Some (''{'' @ join_with '','' (concat (map (\<lambda>(k, v).
        case json_text v of None \<Rightarrow> [] | Some t \<Rightarrow> [json_string k @ '':'' @ t]) ps)) @ ''}'')"

definition publicKeyJwkFingerprint :: "jsval \<Rightarrow> string" where
  "publicKeyJwkFingerprint jwk =
     the (json_text (JObject [(''crv'', prop_of jwk ''crv''), (''kty'', prop_of jwk ''kty''),
       (''x'', prop_of jwk ''x''), (''y'', prop_of jwk ''y'')]))"

record session_keys =
  clientToHost :: bytes
  hostToClient :: bytes

definition deriveSessionKeys ::
  "relay_crypto \<Rightarrow> bytes \<Rightarrow> string \<times> string \<Rightarrow> bytes \<Rightarrow> (relay_error, session_keys) outcome" where
  "deriveSessionKeys c ownPrivateKey peerPublicKey handshakeNonce =
     (if length handshakeNonce \<noteq> HANDSHAKE_NONCE_BYTES then Inl (RelayCryptoError ''invalid handshake nonce length'')
      else case ecdh c ownPrivateKey peerPublicKey of
             None \<Rightarrow> Inl NativeError
           | Some sharedSecret \<Rightarrow>
               let keyMaterial = hkdf c sharedSecret handshakeNonce
               in Inr \<lparr>clientToHost = take SESSION_KEY_BYTES keyMaterial, hostToClient = drop SESSION_KEY_BYTES keyMaterial\<rparr>)"

section \<open>Encrypted frames\<close>

text \<open>The counter is a \<open>bigint\<close>; its low bytes are written from the last to the first.\<close>

fun writeCounter :: "nat \<Rightarrow> nat \<Rightarrow> bytes" where
  "writeCounter 0 counter = []"
| "writeCounter (Suc i) counter = writeCounter i (counter div 256) @ [of_nat (counter mod 256)]"

definition readCounter :: "bytes \<Rightarrow> nat" where
  "readCounter source = foldl (\<lambda>v b. v * 256 + unat b) 0 (take IV_COUNTER_BYTES source)"

record frame_encryptor =
  enc_key :: bytes
  ivPrefix :: bytes
  enc_counter :: nat

definition createFrameEncryptor :: "bytes \<Rightarrow> bytes \<Rightarrow> frame_encryptor" where
  "createFrameEncryptor key ivp = \<lparr>enc_key = key, ivPrefix = ivp, enc_counter = 0\<rparr>"

definition encrypt :: "relay_crypto \<Rightarrow> bytes \<Rightarrow> frame_encryptor \<Rightarrow> frame_encryptor \<times> (relay_error, bytes) outcome" where
  "encrypt c plaintext e =
     (if length plaintext > MAX_PLAINTEXT_FRAME_BYTES
      then (e, Inl (RelayCryptoError ''plaintext frame exceeds maximum size''))
      else
        let e = e\<lparr>enc_counter := enc_counter e + 1\<rparr>;
            iv = ivPrefix e @ writeCounter IV_COUNTER_BYTES (enc_counter e);
            ciphertext = seal c (enc_key e) iv plaintext
        in (e, Inr (ENCRYPTED_FRAME_VERSION # iv @ ciphertext)))"

record frame_decryptor =
  dec_key :: bytes
  lastCounter :: nat

definition createFrameDecryptor :: "bytes \<Rightarrow> frame_decryptor" where
  "createFrameDecryptor key = \<lparr>dec_key = key, lastCounter = 0\<rparr>"

definition decrypt :: "relay_crypto \<Rightarrow> bytes \<Rightarrow> frame_decryptor \<Rightarrow> frame_decryptor \<times> (relay_error, bytes) outcome" where
  "decrypt c frame d =
     (if length frame < ENCRYPTED_FRAME_HEADER_BYTES + GCM_TAG_BYTES
      then (d, Inl (RelayCryptoError ''encrypted frame too short''))
      else if frame ! 0 \<noteq> ENCRYPTED_FRAME_VERSION
      then (d, Inl (RelayCryptoError ''unsupported encrypted frame version''))
      else
        let iv = drop 1 (take ENCRYPTED_FRAME_HEADER_BYTES frame);
            counter = readCounter (drop IV_PREFIX_BYTES iv)
        in if counter \<le> lastCounter d then (d, Inl (RelayCryptoError ''frame counter regression''))
           else case unseal c (dec_key d) iv (drop ENCRYPTED_FRAME_HEADER_BYTES frame) of
                  None \<Rightarrow> (d, Inl (RelayCryptoError ''frame decryption failed''))
                | Some plaintext \<Rightarrow> (d\<lparr>lastCounter := counter\<rparr>, Inr plaintext))"

section \<open>Base64url\<close>

definition BASE64URL_ALPHABET :: string where
  "BASE64URL_ALPHABET = ''ABCDEFGHIJKLMNOPQRSTUVWXYZabcdefghijklmnopqrstuvwxyz0123456789-_''"

definition base64_char :: "nat \<Rightarrow> char" where
  "base64_char n = BASE64URL_ALPHABET ! n"

text \<open>The loop takes three bytes at a time; the last group has one, two or three.\<close>

fun base64_groups :: "nat list \<Rightarrow> string" where
  "base64_groups [] = []"
| "base64_groups [b0] = [base64_char (b0 div 4), base64_char (b0 mod 4 * 16)]"
| "base64_groups [b0, b1] =
     [base64_char (b0 div 4), base64_char (b0 mod 4 * 16 + b1 div 16), base64_char (b1 mod 16 * 4)]"
| "base64_groups (b0 # b1 # b2 # rest) =
     [base64_char (b0 div 4), base64_char (b0 mod 4 * 16 + b1 div 16), base64_char (b1 mod 16 * 4 + b2 div 64),
      base64_char (b2 mod 64)] @ base64_groups rest"

definition bytesToBase64Url :: "bytes \<Rightarrow> string" where
  "bytesToBase64Url bs = base64_groups (map unat bs)"

fun index_of :: "char \<Rightarrow> string \<Rightarrow> nat" where
  "index_of c [] = 0"
| "index_of c (d # s) = (if c = d then 0 else Suc (index_of c s))"

text \<open>\<open>buffer\<close> is a 32 bit integer; the bits kept above those that count are never read.\<close>

fun base64_loop :: "nat \<Rightarrow> nat \<Rightarrow> string \<Rightarrow> bytes" where
  "base64_loop buffer bits [] = []"
| "base64_loop buffer bits (c # s) =
     (let buffer = (buffer * 64 + index_of c BASE64URL_ALPHABET) mod 2 ^ 32;
          bits = bits + 6
      in if bits \<ge> 8 then of_nat (buffer div 2 ^ (bits - 8) mod 256) # base64_loop buffer (bits - 8) s
         else base64_loop buffer bits s)"

definition base64UrlToBytes :: "string \<Rightarrow> (relay_error, bytes) outcome" where
  "base64UrlToBytes s =
     (if \<not> list_all (\<lambda>c. c \<in> set BASE64URL_ALPHABET) s \<or> length s mod 4 = 1
      then Inl (RelayCryptoError ''invalid base64url input'')
      else Inr (base64_loop 0 0 s))"

section \<open>The handshake\<close>

datatype HandshakeMessage = Hello jsval string bool | Ready bool

definition parseHandshakeMessage :: "jsval option \<Rightarrow> HandshakeMessage option" where
  "parseHandshakeMessage raw =
     (case raw of
        None \<Rightarrow> None
      | Some v \<Rightarrow>
          if \<not> is_object v \<or> is_array v then None
          else if prop_of v ''v'' \<noteq> JNumber (JInt 1) then None
          else
            let batch = (prop_of v ''batch'' = JBool True)
            in if prop_of v ''t'' = JString ''ready'' then Some (Ready batch)
               else (case (prop_of v ''t'', prop_of v ''nonce'') of
                       (JString t, JString nonce) \<Rightarrow>
                         if t = ''hello'' \<and> is_object (prop_of v ''clientPubJwk'')
                         then Some (Hello (prop_of v ''clientPubJwk'') nonce batch) else None
                     | _ \<Rightarrow> None))"

record RelayFrameChannel =
  encryptor :: frame_encryptor
  decryptor :: frame_decryptor

datatype HandshakeAction =
    Fail nat string
  | Ignore
  | Send_Text jsval
  | Established RelayFrameChannel bool "jsval option"

definition failClosed :: "string \<Rightarrow> HandshakeAction" where
  "failClosed reason = Fail 1011 reason"

definition ready_value :: "bool \<Rightarrow> jsval" where
  "ready_value batch =
     JObject ([(''t'', JString ''ready''), (''v'', JNumber (JInt 1))] @ (if batch then [(''batch'', JBool True)] else []))"

record host_handshake =
  host_private :: bytes
  host_batch :: bool
  host_established :: bool
  acceptedClientKeyFingerprint :: "string option"
  readyText :: "jsval option"
  negotiatedBatch :: bool

definition createHostHandshake :: "bytes \<Rightarrow> bool \<Rightarrow> host_handshake" where
  "createHostHandshake hostEncPrivateKey localBatch =
     \<lparr>host_private = hostEncPrivateKey, host_batch = localBatch, host_established = False,
      acceptedClientKeyFingerprint = None, readyText = None, negotiatedBatch = False\<rparr>"

definition host_handleText ::
  "relay_crypto \<Rightarrow> bytes \<Rightarrow> jsval option \<Rightarrow> host_handshake \<Rightarrow> host_handshake \<times> HandshakeAction" where
  "host_handleText c ivp raw s =
     (case parseHandshakeMessage raw of
        Some (Hello jwk nonceText batch) \<Rightarrow>
          let fingerprint = publicKeyJwkFingerprint jwk
          in (case acceptedClientKeyFingerprint s of
                Some accepted \<Rightarrow>
                  (case readyText s of
                     Some ready \<Rightarrow>
                       if fingerprint = accepted then (s, Send_Text ready) else (s, Fail 1008 ''rekey mismatch'')
                   | None \<Rightarrow> (s, Fail 1008 ''rekey mismatch''))
              | None \<Rightarrow>
                  (case obind (importEcdhPublicKey c jwk) (\<lambda>pub. obind (base64UrlToBytes nonceText) (\<lambda>nonce. Inr (pub, nonce))) of
                     Inl _ \<Rightarrow> (s, failClosed ''malformed hello'')
                   | Inr (clientPublicKey, nonce) \<Rightarrow>
                       (case deriveSessionKeys c (host_private s) clientPublicKey nonce of
                          Inl _ \<Rightarrow> (s, failClosed ''key derivation failed'')
                        | Inr keys \<Rightarrow>
                            let negotiated = (host_batch s \<and> batch);
                                ready = ready_value negotiated
                            in (s\<lparr>acceptedClientKeyFingerprint := Some fingerprint, negotiatedBatch := negotiated,
                                  readyText := Some ready, host_established := True\<rparr>,
                                Established
                                  \<lparr>encryptor = createFrameEncryptor (hostToClient keys) ivp,
                                   decryptor = createFrameDecryptor (clientToHost keys)\<rparr>
                                  negotiated (Some ready)))))
      | _ \<Rightarrow> if host_established s then (s, failClosed ''plaintext frame on established channel'') else (s, Ignore))"

record client_handshake =
  client_private :: bytes
  host_public :: "string \<times> string"
  client_nonce :: bytes
  client_batch :: bool
  helloText :: jsval
  client_established :: bool

definition hello_value :: "string \<times> string \<Rightarrow> bytes \<Rightarrow> bool \<Rightarrow> jsval" where
  "hello_value pub nonce localBatch =
     JObject ([(''t'', JString ''hello''), (''v'', JNumber (JInt 1)),
       (''clientPubJwk'', JObject [(''kty'', JString ''EC''), (''crv'', JString ''P-256''),
          (''x'', JString (fst pub)), (''y'', JString (snd pub))]),
       (''nonce'', JString (bytesToBase64Url nonce))] @ (if localBatch then [(''batch'', JBool True)] else []))"

text \<open>The ephemeral key pair and the nonce are drawn; the host's key comes from the pairing offer.\<close>

definition createClientHandshake ::
  "relay_crypto \<Rightarrow> jsval \<Rightarrow> bytes \<times> string \<times> string \<Rightarrow> bytes \<Rightarrow> bool \<Rightarrow> (relay_error, client_handshake) outcome" where
  "createClientHandshake c hostEncPubJwk keyPair nonce localBatch =
     obind (importEcdhPublicKey c hostEncPubJwk) (\<lambda>hostPublicKey.
       Inr \<lparr>client_private = fst keyPair, host_public = hostPublicKey, client_nonce = nonce, client_batch = localBatch,
            helloText = hello_value (snd keyPair) nonce localBatch, client_established = False\<rparr>)"

text \<open>Key derivation may throw, and \<open>handleText\<close> with it.\<close>

definition client_handleText ::
  "relay_crypto \<Rightarrow> bytes \<Rightarrow> jsval option \<Rightarrow> client_handshake \<Rightarrow>
     client_handshake \<times> (relay_error, HandshakeAction) outcome" where
  "client_handleText c ivp raw s =
     (if client_established s then
        (case parseHandshakeMessage raw of
           Some (Ready _) \<Rightarrow> (s, Inr Ignore)
         | _ \<Rightarrow> (s, Inr (failClosed ''plaintext frame on established channel'')))
      else
        (case parseHandshakeMessage raw of
           Some (Ready batch) \<Rightarrow>
             (case deriveSessionKeys c (client_private s) (host_public s) (client_nonce s) of
                Inl e \<Rightarrow> (s, Inl e)
              | Inr keys \<Rightarrow>
                  (s\<lparr>client_established := True\<rparr>,
                   Inr (Established
                     \<lparr>encryptor = createFrameEncryptor (clientToHost keys) ivp,
                      decryptor = createFrameDecryptor (hostToClient keys)\<rparr>
                     (client_batch s \<and> batch) None)))
         | _ \<Rightarrow> (s, Inr Ignore)))"

section \<open>Counters\<close>

lemma length_writeCounter [simp]: "length (writeCounter n counter) = n"
  by (induction n arbitrary: counter) auto

lemma read_written:
  "foldl (\<lambda>v b. v * 256 + unat b) v (writeCounter n counter) = v * 256 ^ n + counter mod 256 ^ n"
proof (induction n arbitrary: counter)
  case (Suc n)
  have "unat (of_nat (counter mod 256) :: 8 word) = counter mod 256" by (simp add: unat_of_nat)
  moreover have "counter mod 256 ^ Suc n = counter div 256 mod 256 ^ n * 256 + counter mod 256"
    by (simp add: mod_mult2_eq mult.commute)
  ultimately show ?case by (simp add: Suc.IH)
qed simp

lemma readCounter_written: "counter < 2 ^ 64 \<Longrightarrow> readCounter (writeCounter IV_COUNTER_BYTES counter) = counter"
  by (simp add: readCounter_def read_written IV_COUNTER_BYTES_def)

section \<open>A channel and its frames\<close>

fun encrypt_all :: "relay_crypto \<Rightarrow> frame_encryptor \<Rightarrow> bytes list \<Rightarrow> (relay_error, bytes) outcome list" where
  "encrypt_all c e [] = []"
| "encrypt_all c e (p # ps) = (case encrypt c p e of (e, r) \<Rightarrow> r # encrypt_all c e ps)"

fun decrypt_all :: "relay_crypto \<Rightarrow> frame_decryptor \<Rightarrow> bytes list \<Rightarrow> (relay_error, bytes) outcome list" where
  "decrypt_all c d [] = []"
| "decrypt_all c d (f # fs) = (case decrypt c f d of (d, r) \<Rightarrow> r # decrypt_all c d fs)"

definition accepted :: "(relay_error, bytes) outcome list \<Rightarrow> bytes list" where
  "accepted rs = List.map_filter (\<lambda>r. case r of Inl _ \<Rightarrow> None | Inr p \<Rightarrow> Some p) rs"

lemma accepted_simps [simp]:
  "accepted [] = []" "accepted (Inl e # rs) = accepted rs" "accepted (Inr p # rs) = p # accepted rs"
  by (simp_all add: accepted_def map_filter_def)

definition frame_iv :: "bytes \<Rightarrow> nat \<Rightarrow> bytes" where
  "frame_iv pre n = pre @ writeCounter IV_COUNTER_BYTES n"

definition sealed_frame :: "relay_crypto \<Rightarrow> bytes \<Rightarrow> bytes \<Rightarrow> nat \<Rightarrow> bytes \<Rightarrow> bytes" where
  "sealed_frame c k pre n p = ENCRYPTED_FRAME_VERSION # frame_iv pre n @ seal c k (frame_iv pre n) p"

lemma encrypt_all_frames:
  "\<forall>p \<in> set ps. length p \<le> MAX_PLAINTEXT_FRAME_BYTES \<Longrightarrow>
     encrypt_all c e ps = map (\<lambda>(n, p). Inr (sealed_frame c (enc_key e) (ivPrefix e) n p)) (zip [Suc (enc_counter e)..<Suc (enc_counter e + length ps)] ps)"
proof (induction ps arbitrary: e)
  case (Cons p ps)
  then show ?case
    by (simp add: encrypt_def sealed_frame_def frame_iv_def Let_def upt_conv_Cons del: upt_Suc)
qed simp

definition aead_ok :: "relay_crypto \<Rightarrow> bool" where
  "aead_ok c \<longleftrightarrow> (\<forall>k iv p. length (seal c k iv p) = length p + GCM_TAG_BYTES \<and> unseal c k iv (seal c k iv p) = Some p)"

lemma decrypt_sealed_cases:
  assumes "length (seal c (dec_key d) (frame_iv pre n) p) = length p + GCM_TAG_BYTES"
    "unseal c (dec_key d) (frame_iv pre n) (seal c (dec_key d) (frame_iv pre n) p) = Some p"
    and "length pre = IV_PREFIX_BYTES" "n < 2 ^ 64"
  shows "decrypt c (sealed_frame c (dec_key d) pre n p) d =
    (if n \<le> lastCounter d then (d, Inl (RelayCryptoError ''frame counter regression'')) else (d\<lparr>lastCounter := n\<rparr>, Inr p))"
proof -
  have len: "length (frame_iv pre n) = ENCRYPTED_FRAME_IV_BYTES"
    using assms(3) by (simp add: frame_iv_def IV_PREFIX_BYTES_def IV_COUNTER_BYTES_def ENCRYPTED_FRAME_IV_BYTES_def)
  have iv: "drop 1 (take ENCRYPTED_FRAME_HEADER_BYTES (sealed_frame c (dec_key d) pre n p)) = frame_iv pre n"
    "drop ENCRYPTED_FRAME_HEADER_BYTES (sealed_frame c (dec_key d) pre n p) = seal c (dec_key d) (frame_iv pre n) p"
    using len by (simp_all add: sealed_frame_def ENCRYPTED_FRAME_HEADER_BYTES_def)
  have counter: "readCounter (drop IV_PREFIX_BYTES (frame_iv pre n)) = n"
    using assms(3,4) by (simp add: frame_iv_def readCounter_written)
  have "length (sealed_frame c (dec_key d) pre n p) = Suc (ENCRYPTED_FRAME_IV_BYTES + (length p + GCM_TAG_BYTES))"
    using assms(1) len by (simp add: sealed_frame_def)
  then show ?thesis
    unfolding decrypt_def iv Let_def counter using assms(2)
    by (simp add: ENCRYPTED_FRAME_HEADER_BYTES_def) (simp add: sealed_frame_def)
qed

lemma decrypt_sealed:
  assumes "aead_ok c" "length pre = IV_PREFIX_BYTES" "n < 2 ^ 64" "lastCounter d < n"
  shows "decrypt c (sealed_frame c (dec_key d) pre n p) d = (d\<lparr>lastCounter := n\<rparr>, Inr p)"
  using assms by (simp add: decrypt_sealed_cases aead_ok_def)

lemma decrypt_subsequence:
  assumes "aead_ok c" "length pre = IV_PREFIX_BYTES"
  shows "lastCounter d \<le> n \<Longrightarrow> n + length ps < 2 ^ 64 \<Longrightarrow>
    decrypt_all c d (nths (map (\<lambda>(i, p). sealed_frame c (dec_key d) pre i p) (zip [Suc n..<Suc (n + length ps)] ps)) S)
      = map Inr (nths ps S)"
proof (induction ps arbitrary: d n S)
  case (Cons p ps)
  have step: "decrypt c (sealed_frame c (dec_key d) pre (Suc n) p) d = (d\<lparr>lastCounter := Suc n\<rparr>, Inr p)"
    using decrypt_sealed [OF assms, of "Suc n" d p] Cons.prems by simp
  show ?case
    using Cons.IH [of "d\<lparr>lastCounter := Suc n\<rparr>" "Suc n" "{j. Suc j \<in> S}"] Cons.IH [of d "Suc n" "{j. Suc j \<in> S}"] Cons.prems step
    by (simp add: upt_conv_Cons nths_Cons del: upt_Suc)
qed simp

text \<open>A ciphertext opens only under an IV and to the plaintext for which the sender sealed one.\<close>

definition authentic :: "relay_crypto \<Rightarrow> bytes \<Rightarrow> bytes \<Rightarrow> bytes list \<Rightarrow> bool" where
  "authentic c k pre ps \<longleftrightarrow>
     (\<forall>iv ciphertext p. unseal c k iv ciphertext = Some p \<longrightarrow>
        (\<exists>i < length ps. iv = frame_iv pre (Suc i) \<and> p = ps ! i))"

lemma decrypt_authentic:
  assumes "authentic c (dec_key d) pre ps" "length pre = IV_PREFIX_BYTES" "length ps < 2 ^ 64"
    and "decrypt c f d = (d', r)"
  shows "(\<exists>e. r = Inl e \<and> d' = d) \<or>
    (\<exists>i < length ps. lastCounter d \<le> i \<and> r = Inr (ps ! i) \<and> d' = d\<lparr>lastCounter := Suc i\<rparr>)"
proof -
  define iv where "iv = drop 1 (take ENCRYPTED_FRAME_HEADER_BYTES f)"
  define n where "n = readCounter (drop IV_PREFIX_BYTES iv)"
  show ?thesis
  proof (cases "unseal c (dec_key d) iv (drop ENCRYPTED_FRAME_HEADER_BYTES f)")
    case None
    with assms(4) show ?thesis
      unfolding decrypt_def Let_def iv_def [symmetric] by (auto split: if_splits)
  next
    case (Some p)
    then obtain i where i: "i < length ps" "iv = frame_iv pre (Suc i)" "p = ps ! i"
      using assms(1) unfolding authentic_def by blast
    have n: "n = Suc i"
      unfolding n_def i(2) using assms(2,3) i(1) by (simp add: frame_iv_def readCounter_written)
    with assms(4) Some i show ?thesis
      unfolding decrypt_def Let_def iv_def [symmetric] n_def [symmetric] by (auto split: if_splits)
  qed
qed

lemma accepted_subseq:
  assumes "length pre = IV_PREFIX_BYTES" "length ps < 2 ^ 64"
  shows "authentic c (dec_key d) pre ps \<Longrightarrow> subseq (accepted (decrypt_all c d fs)) (drop (lastCounter d) ps)"
proof (induction fs arbitrary: d)
  case (Cons f fs)
  obtain d' r where step: "decrypt c f d = (d', r)" by fastforce
  from decrypt_authentic [OF Cons.prems assms step] show ?case
  proof (elim disjE exE conjE)
    fix i assume i: "i < length ps" "lastCounter d \<le> i" "r = Inr (ps ! i)" "d' = d\<lparr>lastCounter := Suc i\<rparr>"
    have "drop (lastCounter d) ps = take (i - lastCounter d) (drop (lastCounter d) ps) @ ps ! i # drop (Suc i) ps"
      using i(1,2) id_take_nth_drop [of "i - lastCounter d" "drop (lastCounter d) ps"] by simp
    moreover have "subseq (accepted (decrypt_all c d' fs)) (drop (Suc i) ps)"
      using Cons.IH [of d'] Cons.prems i(4) by simp
    ultimately show ?thesis
      using step i(3) by (metis (no_types, lifting) accepted_simps(3) decrypt_all.simps(2) prod.case subseq_Cons2 list_emb_append2)
  qed (use Cons step in simp)
qed simp

section \<open>Base64url round trip\<close>

lemma alphabet_facts: "length BASE64URL_ALPHABET = 64" "distinct BASE64URL_ALPHABET"
  by code_simp+

lemma index_of_nth: "distinct s \<Longrightarrow> n < length s \<Longrightarrow> index_of (s ! n) s = n"
proof (induction s arbitrary: n)
  case (Cons c s)
  then show ?case by (cases n) (auto simp: nth_mem)
qed simp

lemma index_base64 [simp]: "n < 64 \<Longrightarrow> index_of (base64_char n) BASE64URL_ALPHABET = n"
  using index_of_nth [of BASE64URL_ALPHABET n] alphabet_facts by (simp add: base64_char_def)

lemma base64_in_alphabet: "n < 64 \<Longrightarrow> base64_char n \<in> set BASE64URL_ALPHABET"
  using alphabet_facts(1) by (simp add: base64_char_def)

text \<open>One character: only the low bits of the buffer count.\<close>

lemma base64_step:
  assumes "buffer mod 2 ^ bits = r" "n < 64" "bits < 8"
  shows "base64_loop buffer bits (base64_char n # s) =
    (if bits < 2 then base64_loop ((buffer * 64 + n) mod 2 ^ 32) (bits + 6) s
     else of_nat ((r * 64 + n) div 2 ^ (bits - 2) mod 256) # base64_loop ((buffer * 64 + n) mod 2 ^ 32) (bits - 2) s)"
    and "(buffer * 64 + n) mod 2 ^ 32 mod 2 ^ (bits + 6) = r * 64 + n"
proof -
  let ?b = "(buffer * 64 + n) mod 2 ^ 32"
  have "?b mod 2 ^ (bits + 6) = (buffer * 64 + n) mod 2 ^ (bits + 6)"
    using assms(3) by (intro mod_mod_cancel le_imp_power_dvd) simp
  also have "\<dots> = r * 64 + n"
  proof -
    have pow: "2 ^ (bits + 6) = 2 ^ bits * (64 :: nat)" by (simp add: power_add)
    have buf: "buffer = buffer div 2 ^ bits * 2 ^ bits + r"
      using assms(1) div_mult_mod_eq [of buffer "2 ^ bits"] by simp
    have "buffer * 64 + n = (r * 64 + n) + buffer div 2 ^ bits * (2 ^ bits * 64)"
      by (subst buf) (simp add: algebra_simps)
    moreover have "r * 64 + n < 2 ^ bits * 64"
    proof -
      have "r < 2 ^ bits" using assms(1) by auto
      then have "r + 1 \<le> 2 ^ bits" by simp
      then have "(r + 1) * 64 \<le> 2 ^ bits * 64" by (rule mult_le_mono1)
      with assms(2) show ?thesis by simp
    qed
    ultimately show ?thesis unfolding pow by (simp only: mod_mult_self1 mod_less)
  qed
  finally show low: "?b mod 2 ^ (bits + 6) = r * 64 + n" .
  show "base64_loop buffer bits (base64_char n # s) =
    (if bits < 2 then base64_loop ?b (bits + 6) s
     else of_nat ((r * 64 + n) div 2 ^ (bits - 2) mod 256) # base64_loop ?b (bits - 2) s)"
  proof (cases "bits < 2")
    case False
    have "?b div 2 ^ (bits - 2) mod 2 ^ 8 = ?b mod 2 ^ (bits + 6) div 2 ^ (bits - 2)"
    proof -
      have "bits + 6 = (bits - 2) + 8" using False by simp
      then have "?b mod 2 ^ (bits + 6) = 2 ^ (bits - 2) * (?b div 2 ^ (bits - 2) mod 2 ^ 8) + ?b mod 2 ^ (bits - 2)"
        by (simp only: power_add mod_mult2_eq)
      then show ?thesis by simp
    qed
    then show ?thesis using False low assms(2) by simp
  qed (use assms(2) in simp)
qed

declare base64_loop.simps(2) [simp del]

text \<open>The positions inside a group: \<open>r\<close> are the bits that wait for the next character.\<close>

lemma base64_first:
  assumes "b0 < 256"
  shows "\<exists>buffer'. base64_loop buffer 0 (base64_char (b0 div 4) # s) = base64_loop buffer' 6 s \<and> buffer' mod 2 ^ 6 = b0 div 4"
  using base64_step(1) [of buffer 0 0 "b0 div 4" s] base64_step(2) [of buffer 0 0 "b0 div 4"] assms by (intro exI [of _ "(buffer * 64 + b0 div 4) mod 2 ^ 32"]) auto

lemma base64_second:
  assumes "buffer mod 2 ^ 6 = b0 div 4" "b0 < 256" "x < 16"
  shows "\<exists>buffer'. base64_loop buffer 6 (base64_char (b0 mod 4 * 16 + x) # s) = of_nat b0 # base64_loop buffer' 4 s \<and>
    buffer' mod 2 ^ 4 = x"
proof -
  let ?b = "(buffer * 64 + (b0 mod 4 * 16 + x)) mod 2 ^ 32"
  have n: "b0 mod 4 * 16 + x < 64" using assms(3) by linarith
  have val: "b0 div 4 * 64 + (b0 mod 4 * 16 + x) = b0 * 16 + x" by presburger
  have "(b0 * 16 + x) div 2 ^ 4 mod 256 = b0" using assms(2,3) by simp
  moreover have "?b mod 2 ^ 4 = x"
  proof -
    have "?b mod 2 ^ 4 = ?b mod 2 ^ (6 + 6) mod 2 ^ 4" by (simp add: mod_mod_cancel)
    also have "\<dots> = x" using base64_step(2) [OF assms(1) n] assms(3) by (simp only: val) simp
    finally show ?thesis .
  qed
  ultimately show ?thesis using base64_step(1) [OF assms(1) n, of s] by (intro exI [of _ ?b]) (simp add: val)
qed

lemma base64_third:
  assumes "buffer mod 2 ^ 4 = b1 div 16" "b1 < 256" "x < 4"
  shows "\<exists>buffer'. base64_loop buffer 4 (base64_char (b1 mod 16 * 4 + x) # s) = of_nat b1 # base64_loop buffer' 2 s \<and>
    buffer' mod 2 ^ 2 = x"
proof -
  let ?b = "(buffer * 64 + (b1 mod 16 * 4 + x)) mod 2 ^ 32"
  have n: "b1 mod 16 * 4 + x < 64" using assms(3) by linarith
  have val: "b1 div 16 * 64 + (b1 mod 16 * 4 + x) = b1 * 4 + x" by presburger
  have "(b1 * 4 + x) div 2 ^ 2 mod 256 = b1" using assms(2,3) by simp
  moreover have "?b mod 2 ^ 2 = x"
  proof -
    have "?b mod 2 ^ 2 = ?b mod 2 ^ (4 + 6) mod 2 ^ 2" by (simp add: mod_mod_cancel)
    also have "\<dots> = x" using base64_step(2) [OF assms(1) n] assms(3) by (simp only: val) simp
    finally show ?thesis .
  qed
  ultimately show ?thesis using base64_step(1) [OF assms(1) n, of s] by (intro exI [of _ ?b]) (simp add: val)
qed

lemma base64_fourth:
  assumes "buffer mod 2 ^ 2 = b2 div 64" "b2 < 256"
  shows "\<exists>buffer'. base64_loop buffer 2 (base64_char (b2 mod 64) # s) = of_nat b2 # base64_loop buffer' 0 s"
proof -
  have "b2 div 64 * 64 + b2 mod 64 = b2" by simp
  then show ?thesis using base64_step(1) [OF assms(1), of "b2 mod 64" s] assms(2)
    by (intro exI [of _ "(buffer * 64 + b2 mod 64) mod 2 ^ 32"]) simp
qed

lemma base64_loop_groups:
  "list_all (\<lambda>b. b < 256) bs \<Longrightarrow> base64_loop buffer 0 (base64_groups bs) = map of_nat bs"
proof (induction bs arbitrary: buffer rule: base64_groups.induct)
  case (2 b0)
  obtain u where "base64_loop buffer 0 (base64_groups [b0]) = base64_loop u 6 [base64_char (b0 mod 4 * 16 + 0)]"
    "u mod 2 ^ 6 = b0 div 4" using base64_first [of b0 buffer "[base64_char (b0 mod 4 * 16 + 0)]"] 2 by auto
  then show ?case using base64_second [of u b0 0 "[]"] 2 by auto
next
  case (3 b0 b1)
  obtain u where u: "base64_loop buffer 0 (base64_groups [b0, b1]) =
      base64_loop u 6 [base64_char (b0 mod 4 * 16 + b1 div 16), base64_char (b1 mod 16 * 4 + 0)]"
    "u mod 2 ^ 6 = b0 div 4"
    using base64_first [of b0 buffer "[base64_char (b0 mod 4 * 16 + b1 div 16), base64_char (b1 mod 16 * 4 + 0)]"] 3 by auto
  have "b1 div 16 < 16" using 3 by auto
  then obtain v where "base64_loop u 6 [base64_char (b0 mod 4 * 16 + b1 div 16), base64_char (b1 mod 16 * 4 + 0)] =
      of_nat b0 # base64_loop v 4 [base64_char (b1 mod 16 * 4 + 0)]" "v mod 2 ^ 4 = b1 div 16"
    using base64_second [OF u(2), of "b1 div 16"] 3 by auto
  then show ?case using u base64_third [of v b1 0 "[]"] 3 by auto
next
  case (4 b0 b1 b2 rest)
  let ?s = "base64_groups rest"
  have bounds: "b1 div 16 < 16" "b2 div 64 < 4" "b0 < 256" "b1 < 256" "b2 < 256" using 4 by auto
  obtain u where u: "base64_loop buffer 0 (base64_groups (b0 # b1 # b2 # rest)) =
      base64_loop u 6 (base64_char (b0 mod 4 * 16 + b1 div 16) # base64_char (b1 mod 16 * 4 + b2 div 64) # base64_char (b2 mod 64) # ?s)"
    "u mod 2 ^ 6 = b0 div 4"
    using base64_first [OF bounds(3)] by (simp only: base64_groups.simps append.simps) blast
  obtain v where v: "base64_loop u 6 (base64_char (b0 mod 4 * 16 + b1 div 16) # base64_char (b1 mod 16 * 4 + b2 div 64) # base64_char (b2 mod 64) # ?s) =
      of_nat b0 # base64_loop v 4 (base64_char (b1 mod 16 * 4 + b2 div 64) # base64_char (b2 mod 64) # ?s)" "v mod 2 ^ 4 = b1 div 16"
    using base64_second [OF u(2) bounds(3,1)] by blast
  obtain w where w: "base64_loop v 4 (base64_char (b1 mod 16 * 4 + b2 div 64) # base64_char (b2 mod 64) # ?s) =
      of_nat b1 # base64_loop w 2 (base64_char (b2 mod 64) # ?s)" "w mod 2 ^ 2 = b2 div 64"
    using base64_third [OF v(2) bounds(4,2)] by blast
  show ?case
    using u(1) v(1) w(1) base64_fourth [OF w(2) bounds(5), of ?s] 4 by auto
qed simp

lemma base64_groups_ok:
  "list_all (\<lambda>b. b < 256) bs \<Longrightarrow> list_all (\<lambda>c. c \<in> set BASE64URL_ALPHABET) (base64_groups bs)"
  by (induction bs rule: base64_groups.induct) (auto intro!: base64_in_alphabet)

lemma base64_groups_length: "length (base64_groups bs) mod 4 \<noteq> 1"
  by (induction bs rule: base64_groups.induct) auto

lemma unat_lt256: "unat (b :: 8 word) < 256"
  using unsigned_less [of b] by simp

lemma base64_roundtrip: "base64UrlToBytes (bytesToBase64Url bs) = Inr bs"
proof -
  have "list_all (\<lambda>b. b < 256) (map unat bs)" by (auto simp: list_all_iff intro: unat_lt256)
  then show ?thesis
    using base64_loop_groups base64_groups_ok base64_groups_length [of "map unat bs"]
    by (simp add: base64UrlToBytes_def bytesToBase64Url_def comp_def)
qed

section \<open>Fingerprints\<close>

definition jwk_point :: "jsval \<Rightarrow> jsval list" where
  "jwk_point jwk = map (prop_of jwk) [''crv'', ''kty'', ''x'', ''y'']"

lemma key_texts:
  "json_string ''crv'' = [CHR 0x22] @ ''crv'' @ [CHR 0x22]" "json_string ''kty'' = [CHR 0x22] @ ''kty'' @ [CHR 0x22]"
  "json_string ''x'' = [CHR 0x22] @ ''x'' @ [CHR 0x22]" "json_string ''y'' = [CHR 0x22] @ ''y'' @ [CHR 0x22]"
  by code_simp+

lemma dec_first: "hd (dec n) \<noteq> CHR 0x22"
  using dec_digits [of n] hd_in_set [of "dec n"] by (fastforce simp: is_digit_def)

lemma json_text_first:
  assumes "json_text v = Some t" "t @ rest = json_string s @ rest'"
  shows "v = JString s \<and> rest = rest'"
proof (cases v)
  case (JString u)
  with assms show ?thesis by (auto dest: json_string_prefix_code)
next
  case (JNumber n)
  then have "t \<noteq> [] \<and> hd t \<noteq> CHR 0x22" using assms(1) dec_first by (cases n) (auto split: if_splits)
  with assms(2) show ?thesis by (cases t) (auto simp: json_string_def)
qed (use assms in \<open>auto simp: json_string_def split: if_splits\<close>)

fun json_fields :: "(string \<times> jsval) list \<Rightarrow> string list" where
  "json_fields [] = []"
| "json_fields ((k, v) # ps) =
     (case json_text v of None \<Rightarrow> json_fields ps | Some t \<Rightarrow> (json_string k @ '':'' @ t) # json_fields ps)"

lemma json_text_object: "json_text (JObject ps) = Some (''{'' @ join_with '','' (json_fields ps) @ ''}'')"
proof -
  have "concat (map (\<lambda>(k, v). case json_text v of None \<Rightarrow> [] | Some t \<Rightarrow> [json_string k @ '':'' @ t]) ps) = json_fields ps"
    by (induction ps) (auto split: option.split)
  then show ?thesis by simp
qed

text \<open>A field with a string value in front is recognised.\<close>

definition after :: "string list \<Rightarrow> string" where
  "after fs = (if fs = [] then [] else '','' @ join_with '','' fs)"

lemma join_after: "join_with '','' (f # fs) = f @ after fs" "after [] = []" "after (f # fs) = CHR '','' # f @ after fs"
  by (simp_all add: after_def join_with_Cons)

lemma fingerprint_point:
  assumes "jwk_point jwk = map JString [crv, kty, x, y]"
  shows "publicKeyJwkFingerprint jwk' = publicKeyJwkFingerprint jwk \<longleftrightarrow> jwk_point jwk' = jwk_point jwk"
proof
  let ?v = "prop_of jwk'"
  note vals = assms [unfolded jwk_point_def, simplified]
  assume eq: "publicKeyJwkFingerprint jwk' = publicKeyJwkFingerprint jwk"

  have body: "join_with '','' (json_fields [(''crv'', ?v ''crv''), (''kty'', ?v ''kty''), (''x'', ?v ''x''), (''y'', ?v ''y'')]) =
      [CHR 0x22] @ ''crv'' @ [CHR 0x22] @ '':'' @ json_string crv @ '','' @ [CHR 0x22] @ ''kty'' @ [CHR 0x22] @ '':'' @ json_string kty
      @ '','' @ [CHR 0x22] @ ''x'' @ [CHR 0x22] @ '':'' @ json_string x @ '','' @ [CHR 0x22] @ ''y'' @ [CHR 0x22] @ '':'' @ json_string y"
    using eq vals by (simp add: publicKeyJwkFingerprint_def json_text_object key_texts del: json_text.simps(8))
  obtain t1 where t1: "json_text (?v ''crv'') = Some t1"
    using body by (cases "json_text (?v ''crv'')")
      (auto simp: key_texts join_after split: option.splits if_splits)
  let ?fields = "json_fields [(''kty'', ?v ''kty''), (''x'', ?v ''x''), (''y'', ?v ''y'')]"
  have "t1 @ after ?fields = json_string crv @ '','' @ [CHR 0x22] @ ''kty'' @ [CHR 0x22] @ '':'' @ json_string kty
      @ '','' @ [CHR 0x22] @ ''x'' @ [CHR 0x22] @ '':'' @ json_string x @ '','' @ [CHR 0x22] @ ''y'' @ [CHR 0x22] @ '':'' @ json_string y"
    using body by (simp add: t1 key_texts join_after)
  from json_text_first [OF t1 this]
  have 1: "?v ''crv'' = JString crv" and body1: "after ?fields =
      '','' @ [CHR 0x22] @ ''kty'' @ [CHR 0x22] @ '':'' @ json_string kty
      @ '','' @ [CHR 0x22] @ ''x'' @ [CHR 0x22] @ '':'' @ json_string x @ '','' @ [CHR 0x22] @ ''y'' @ [CHR 0x22] @ '':'' @ json_string y"
    by blast+
  obtain t2 where t2: "json_text (?v ''kty'') = Some t2"
    using body1 by (cases "json_text (?v ''kty'')")
      (auto simp: key_texts join_after split: option.splits if_splits)
  let ?fields = "json_fields [(''x'', ?v ''x''), (''y'', ?v ''y'')]"
  have "t2 @ after ?fields = json_string kty @ '','' @ [CHR 0x22] @ ''x'' @ [CHR 0x22] @ '':'' @ json_string x @ '','' @ [CHR 0x22] @ ''y'' @ [CHR 0x22] @ '':'' @ json_string y"
    using body1 by (simp add: t2 key_texts join_after)
  from json_text_first [OF t2 this]
  have 2: "?v ''kty'' = JString kty" and body2: "after ?fields =
      '','' @ [CHR 0x22] @ ''x'' @ [CHR 0x22] @ '':'' @ json_string x @ '','' @ [CHR 0x22] @ ''y'' @ [CHR 0x22] @ '':'' @ json_string y"
    by blast+
  obtain t3 where t3: "json_text (?v ''x'') = Some t3"
    using body2 by (cases "json_text (?v ''x'')")
      (auto simp: key_texts join_after split: option.splits if_splits)
  let ?fields = "json_fields [(''y'', ?v ''y'')]"
  have "t3 @ after ?fields = json_string x @ '','' @ [CHR 0x22] @ ''y'' @ [CHR 0x22] @ '':'' @ json_string y"
    using body2 by (simp add: t3 key_texts join_after)
  from json_text_first [OF t3 this]
  have 3: "?v ''x'' = JString x" and body3: "after ?fields =
      '','' @ [CHR 0x22] @ ''y'' @ [CHR 0x22] @ '':'' @ json_string y"
    by blast+
  obtain t4 where t4: "json_text (?v ''y'') = Some t4"
    using body3 by (cases "json_text (?v ''y'')") (auto simp: after_def)
  have 4: "?v ''y'' = JString y"
  proof -
    have "t4 @ [] = json_string y @ []" using body3 by (simp add: t4 key_texts after_def)
    from json_text_first [OF t4 this] show ?thesis by blast
  qed
  show "jwk_point jwk' = jwk_point jwk"
    unfolding assms using 1 2 3 4 by (simp add: jwk_point_def)
next
  assume "jwk_point jwk' = jwk_point jwk"
  then show "publicKeyJwkFingerprint jwk' = publicKeyJwkFingerprint jwk"
    by (simp add: jwk_point_def publicKeyJwkFingerprint_def)
qed

section \<open>The host never rekeys\<close>

fun host_run :: "relay_crypto \<Rightarrow> host_handshake \<Rightarrow> (bytes \<times> jsval option) list \<Rightarrow> HandshakeAction list" where
  "host_run c s [] = []"
| "host_run c s ((ivp, raw) # ms) = (case host_handleText c ivp raw s of (s, a) \<Rightarrow> a # host_run c s ms)"

text \<open>What an established handshake answers.\<close>

definition settled_answer :: "jsval list \<Rightarrow> jsval \<Rightarrow> jsval option \<Rightarrow> HandshakeAction" where
  "settled_answer point ready raw =
     (case parseHandshakeMessage raw of
        Some (Hello jwk _ _) \<Rightarrow> if jwk_point jwk = point then Send_Text ready else Fail 1008 ''rekey mismatch''
      | _ \<Rightarrow> Fail 1011 ''plaintext frame on established channel'')"

definition settled :: "jsval \<Rightarrow> jsval \<Rightarrow> host_handshake \<Rightarrow> bool" where
  "settled jwk ready s \<longleftrightarrow> host_established s \<and> readyText s = Some ready \<and>
     acceptedClientKeyFingerprint s = Some (publicKeyJwkFingerprint jwk) \<and> (\<exists>texts. jwk_point jwk = map JString texts \<and> length texts = 4)"

lemma settled_step:
  assumes "settled jwk ready s"
  shows "host_handleText c ivp raw s = (s, settled_answer (jwk_point jwk) ready raw)"
proof -
  obtain crv kty x y where p: "jwk_point jwk = map JString [crv, kty, x, y]"
    using assms by (auto simp: settled_def length_Suc_conv numeral_eq_Suc)
  show ?thesis
    using assms fingerprint_point [OF p]
    by (auto simp: settled_def host_handleText_def settled_answer_def failClosed_def Let_def
        split: option.split HandshakeMessage.split)
qed

lemma settled_run:
  "settled jwk ready s \<Longrightarrow> host_run c s ms = map (\<lambda>(ivp, raw). settled_answer (jwk_point jwk) ready raw) ms"
  by (induction ms) (auto simp: settled_step)

lemma import_point:
  assumes "importEcdhPublicKey c jwk = Inr pub"
  shows "jwk_point jwk = map JString [''P-256'', ''EC'', fst pub, snd pub] \<and> on_curve c (fst pub) (snd pub)"
  using assms by (auto simp: importEcdhPublicKey_def jwk_point_def split: jsval.splits if_splits)

lemma established_settles:
  assumes "host_handleText c ivp raw s = (s', Established ch batch reply)"
  shows "\<exists>jwk nonce b ready. parseHandshakeMessage raw = Some (Hello jwk nonce b) \<and> settled jwk ready s' \<and>
    reply = Some ready \<and> acceptedClientKeyFingerprint s = None"
proof -
  obtain jwk nonceText b where m: "parseHandshakeMessage raw = Some (Hello jwk nonceText b)"
    using assms by (cases "parseHandshakeMessage raw") (auto simp: host_handleText_def failClosed_def split: HandshakeMessage.splits if_splits)
  with assms have none: "acceptedClientKeyFingerprint s = None"
    by (auto simp: host_handleText_def Let_def split: option.splits if_splits)
  with assms m obtain pub nonce keys where k: "importEcdhPublicKey c jwk = Inr pub" "base64UrlToBytes nonceText = Inr nonce"
    "deriveSessionKeys c (host_private s) pub nonce = Inr keys"
    by (auto simp: host_handleText_def Let_def failClosed_def obind_Inr_iff split: sum.splits)
  have "\<exists>texts. jwk_point jwk = map JString texts \<and> length texts = 4"
    using import_point [OF k(1)] by (intro exI [of _ "[''P-256'', ''EC'', fst pub, snd pub]"]) simp
  with assms m none k show ?thesis
    by (auto simp: host_handleText_def Let_def settled_def)
qed

lemma host_run_settles:
  assumes "i < j" "j < length ms" "host_run c s ms ! i = Established ch batch reply"
  shows "\<exists>jwk nonce flag ready. parseHandshakeMessage (snd (ms ! i)) = Some (Hello jwk nonce flag) \<and> reply = Some ready \<and>
    host_run c s ms ! j = settled_answer (jwk_point jwk) ready (snd (ms ! j))"
  using assms
proof (induction ms arbitrary: s i j)
  case (Cons m ms)
  obtain ivp raw where m: "m = (ivp, raw)" by (cases m)
  obtain s' a where step: "host_handleText c ivp raw s = (s', a)" by fastforce
  obtain j' where j: "j = Suc j'" using Cons.prems(1) by (cases j) auto
  show ?case
  proof (cases i)
    case 0
    with Cons.prems(3) step m have "a = Established ch batch reply" by simp
    with established_settles step obtain jwk nonce b ready where
      k: "parseHandshakeMessage raw = Some (Hello jwk nonce b)" "settled jwk ready s'" "reply = Some ready" by metis
    have "host_run c s' ms ! j' = settled_answer (jwk_point jwk) ready (snd (ms ! j'))"
      using settled_run [OF k(2), of c ms] Cons.prems(2) j by (simp add: case_prod_beta)
    with k 0 m j step show ?thesis by simp
  next
    case (Suc i')
    with Cons.IH [of i' j' s'] Cons.prems m step j show ?thesis by simp
  qed
qed simp

section \<open>Both sides agree\<close>

lemma parse_hello: "parseHandshakeMessage (Some (hello_value pub nonce b)) =
    Some (Hello (JObject [(''kty'', JString ''EC''), (''crv'', JString ''P-256''), (''x'', JString (fst pub)), (''y'', JString (snd pub))])
      (bytesToBase64Url nonce) b)"
  by (simp add: parseHandshakeMessage_def hello_value_def own_prop_def)

lemma parse_ready: "parseHandshakeMessage (Some (ready_value b)) = Some (Ready b)"
  by (simp add: parseHandshakeMessage_def ready_value_def own_prop_def)

lemma import_own: "on_curve c (fst pub) (snd pub) \<Longrightarrow> importEcdhPublicKey c
    (JObject [(''kty'', JString ''EC''), (''crv'', JString ''P-256''), (''x'', JString (fst pub)), (''y'', JString (snd pub))]) = Inr pub"
  by (simp add: importEcdhPublicKey_def own_prop_def)

lemma handshake_channels:
  assumes "createClientHandshake c hostJwk (cpriv, cpub) nonce cbatch = Inr cl" "importEcdhPublicKey c hostJwk = Inr hpub"
    and "on_curve c (fst cpub) (snd cpub)" "ecdh c hpriv cpub = Some secret" "ecdh c cpriv hpub = Some secret"
    and "length nonce = HANDSHAKE_NONCE_BYTES"
  shows "\<exists>h (keys :: session_keys). host_handleText c hiv (Some (helloText cl)) (createHostHandshake hpriv hbatch) =
      (h, Established \<lparr>encryptor = createFrameEncryptor (hostToClient keys) hiv, decryptor = createFrameDecryptor (clientToHost keys)\<rparr>
         (hbatch \<and> cbatch) (Some (ready_value (hbatch \<and> cbatch)))) \<and>
    client_handleText c civ (Some (ready_value (hbatch \<and> cbatch))) cl =
      (cl\<lparr>client_established := True\<rparr>,
       Inr (Established \<lparr>encryptor = createFrameEncryptor (clientToHost keys) civ, decryptor = createFrameDecryptor (hostToClient keys)\<rparr>
         (hbatch \<and> cbatch) None))"
proof -
  let ?keys = "\<lparr>clientToHost = take SESSION_KEY_BYTES (hkdf c secret nonce), hostToClient = drop SESSION_KEY_BYTES (hkdf c secret nonce)\<rparr>"
  have cl: "cl = \<lparr>client_private = cpriv, host_public = hpub, client_nonce = nonce, client_batch = cbatch,
      helloText = hello_value cpub nonce cbatch, client_established = False\<rparr>"
    using assms(1,2) by (simp add: createClientHandshake_def)
  have keys: "deriveSessionKeys c hpriv cpub nonce = Inr ?keys" "deriveSessionKeys c cpriv hpub nonce = Inr ?keys"
    using assms(4-6) by (simp_all add: deriveSessionKeys_def Let_def)
  obtain h where "host_handleText c hiv (Some (helloText cl)) (createHostHandshake hpriv hbatch) =
      (h, Established \<lparr>encryptor = createFrameEncryptor (hostToClient ?keys) hiv, decryptor = createFrameDecryptor (clientToHost ?keys)\<rparr>
      (hbatch \<and> cbatch) (Some (ready_value (hbatch \<and> cbatch))))"
    using keys(1)
    by (simp add: host_handleText_def cl parse_hello createHostHandshake_def import_own [OF assms(3)] base64_roundtrip Let_def)
  moreover have "client_handleText c civ (Some (ready_value (hbatch \<and> cbatch))) cl =
      (cl\<lparr>client_established := True\<rparr>, Inr (Established \<lparr>encryptor = createFrameEncryptor (clientToHost ?keys) civ,
        decryptor = createFrameDecryptor (hostToClient ?keys)\<rparr> (hbatch \<and> cbatch) None))"
    using keys(2) by (auto simp: client_handleText_def cl parse_ready)
  ultimately show ?thesis by blast
qed

section \<open>Properties\<close>

text \<open>
  C9. The handshake agrees: when the two Diffie-Hellman computations agree, the host answers the client's hello with an
  established channel, its reply establishes the client, each side encrypts under the key the other decrypts with, both
  counters are zero, and batching is on exactly if both asked for it.
\<close>

theorem handshake_agreement:
  assumes "createClientHandshake c hostJwk (cpriv, cpub) nonce cbatch = Inr cl" "importEcdhPublicKey c hostJwk = Inr hpub"
    and "on_curve c (fst cpub) (snd cpub)" "ecdh c hpriv cpub = Some secret" "ecdh c cpriv hpub = Some secret"
    and "length nonce = HANDSHAKE_NONCE_BYTES"
    and "host_handleText c hiv (Some (helloText cl)) (createHostHandshake hpriv hbatch) = (h, action)"
  shows "\<exists>ch reply ch'. action = Established ch (hbatch \<and> cbatch) (Some reply) \<and>
    client_handleText c civ (Some reply) cl = (cl\<lparr>client_established := True\<rparr>, Inr (Established ch' (hbatch \<and> cbatch) None)) \<and>
    enc_key (encryptor ch) = dec_key (decryptor ch') \<and> enc_key (encryptor ch') = dec_key (decryptor ch) \<and>
    enc_counter (encryptor ch) = 0 \<and> lastCounter (decryptor ch') = 0 \<and>
    enc_counter (encryptor ch') = 0 \<and> lastCounter (decryptor ch) = 0"
proof -
  let ?ch = "\<lambda>keys. \<lparr>encryptor = createFrameEncryptor (hostToClient keys) hiv, decryptor = createFrameDecryptor (clientToHost keys)\<rparr>"
  let ?ch' = "\<lambda>keys. \<lparr>encryptor = createFrameEncryptor (clientToHost keys) civ, decryptor = createFrameDecryptor (hostToClient keys)\<rparr>"
  obtain keys :: session_keys where "action = Established (?ch keys) (hbatch \<and> cbatch) (Some (ready_value (hbatch \<and> cbatch)))"
    and "client_handleText c civ (Some (ready_value (hbatch \<and> cbatch))) cl =
      (cl\<lparr>client_established := True\<rparr>, Inr (Established (?ch' keys) (hbatch \<and> cbatch) None))"
    using handshake_channels [OF assms(1-6), of hiv hbatch civ] assms(7) by fastforce
  then show ?thesis
    by - (rule exI [of _ "?ch keys"], rule exI [of _ "ready_value (hbatch \<and> cbatch)"], rule exI [of _ "?ch' keys"],
        simp add: createFrameEncryptor_def createFrameDecryptor_def)
qed

text \<open>A Diffie-Hellman of two parties and a key derivation that repeats its inputs.\<close>

definition toy_crypto :: relay_crypto where
  "toy_crypto =
     \<lparr>on_curve = (\<lambda>x y. x \<noteq> []), ecdh = (\<lambda>priv pub. Some [7]), hkdf = (\<lambda>s n. replicate 16 0 @ n @ n @ replicate 16 (hd s)),
      seal = (\<lambda>k iv p. p @ replicate 16 0), unseal = (\<lambda>k iv ct. Some (take (length ct - 16) ct))\<rparr>"

theorem handshake_agreement_witness:
  "\<exists>cl ch reply. createClientHandshake toy_crypto
       (JObject [(''kty'', JString ''EC''), (''crv'', JString ''P-256''), (''x'', JString ''hx''), (''y'', JString ''hy'')])
       ([1], (''cx'', ''cy'')) (replicate 16 5) True = Inr cl \<and>
     snd (host_handleText toy_crypto [1, 2, 3, 4] (Some (helloText cl)) (createHostHandshake [2] True)) = Established ch True (Some reply)"
proof -
  let ?host = "JObject [(''kty'', JString ''EC''), (''crv'', JString ''P-256''), (''x'', JString ''hx''), (''y'', JString ''hy'')]"
  have host: "importEcdhPublicKey toy_crypto ?host = Inr (''hx'', ''hy'')"
    by (simp add: importEcdhPublicKey_def own_prop_def toy_crypto_def)
  then obtain cl where cl: "createClientHandshake toy_crypto ?host ([1], (''cx'', ''cy'')) (replicate 16 5) True = Inr cl"
    by (simp add: createClientHandshake_def)
  obtain h action where run: "host_handleText toy_crypto [1, 2, 3, 4] (Some (helloText cl)) (createHostHandshake [2] True) = (h, action)"
    by fastforce
  have "on_curve toy_crypto (fst (''cx'', ''cy'')) (snd (''cx'', ''cy''))" "ecdh toy_crypto [2] (''cx'', ''cy'') = Some [7]"
    "ecdh toy_crypto [1] (''hx'', ''hy'') = Some [7]" "length (replicate 16 (5 :: 8 word)) = HANDSHAKE_NONCE_BYTES"
    by (simp_all add: toy_crypto_def HANDSHAKE_NONCE_BYTES_def)
  from handshake_agreement [OF cl host this run, of "[1, 2, 3, 4]"] obtain ch reply where
    "action = Established ch True (Some reply)" by auto
  with cl run show ?thesis by auto
qed

text \<open>
  C12. The host never changes its key: after the message that established the channel, every later hello with the same
  public key is answered with the same ready text, one with another key closes with 1008, and any other text with 1011.
\<close>

theorem host_never_rekeys:
  assumes "i < j" "j < length ms" "host_run c (createHostHandshake hpriv hbatch) ms ! i = Established ch batch reply"
  shows "\<exists>jwk nonce flag ready. parseHandshakeMessage (snd (ms ! i)) = Some (Hello jwk nonce flag) \<and> reply = Some ready \<and>
    host_run c (createHostHandshake hpriv hbatch) ms ! j =
      (case parseHandshakeMessage (snd (ms ! j)) of
         Some (Hello jwk' _ _) \<Rightarrow> if jwk_point jwk' = jwk_point jwk then Send_Text ready else Fail 1008 ''rekey mismatch''
       | _ \<Rightarrow> Fail 1011 ''plaintext frame on established channel'')"
  using host_run_settles [OF assms] unfolding settled_answer_def .

theorem host_never_rekeys_witness:
  "\<exists>ch batch reply. host_run toy_crypto (createHostHandshake [2] True)
      [([1], Some (hello_value (''cx'', ''cy'') (replicate 16 5) True)), ([1], Some (hello_value (''dx'', ''cy'') (replicate 16 5) True))] =
    [Established ch batch reply, Fail 1008 ''rekey mismatch'']"
proof -
  let ?ms = "[([1], Some (hello_value (''cx'', ''cy'') (replicate 16 5) True)), ([1 :: 8 word], Some (hello_value (''dx'', ''cy'') (replicate 16 5) True))]"
  have pub: "importEcdhPublicKey toy_crypto (JObject [(''kty'', JString ''EC''), (''crv'', JString ''P-256''), (''x'', JString ''cx''), (''y'', JString ''cy'')])
      = Inr (''cx'', ''cy'')"
    by (simp add: importEcdhPublicKey_def own_prop_def toy_crypto_def)
  have "ecdh toy_crypto [2] (''cx'', ''cy'') = Some [7]" by (simp add: toy_crypto_def)
  with pub obtain ch batch reply where first: "host_run toy_crypto (createHostHandshake [2] True) ?ms ! 0 = Established ch batch reply"
    by (simp add: host_handleText_def parse_hello base64_roundtrip createHostHandshake_def deriveSessionKeys_def
        HANDSHAKE_NONCE_BYTES_def case_prod_beta Let_def)
  have "length (host_run toy_crypto (createHostHandshake [2] True) ?ms) = 2" by (simp add: case_prod_beta)
  moreover have "host_run toy_crypto (createHostHandshake [2] True) ?ms ! 1 = Fail 1008 ''rekey mismatch''"
    using host_never_rekeys [of 0 1 ?ms, OF _ _ first] by (auto simp: parse_hello jwk_point_def own_prop_def)
  ultimately show ?thesis using first by (auto simp: length_Suc_conv numeral_2_eq_2)
qed


definition one_message :: relay_crypto where
  "one_message = toy_crypto\<lparr>unseal := \<lambda>k iv ct. if iv = frame_iv [1, 2, 3, 4] 1 \<and> ct = 9 # replicate 16 0 then Some [9] else None\<rparr>"


text \<open>
  A relay that withholds frames is not noticed: any subsequence of the frames of a sender, the whole of them included,
  is accepted without an error and gives exactly the plaintexts of that subsequence.
\<close>

theorem channel_accepts_subsequences:
  assumes "aead_ok c" "length pre = IV_PREFIX_BYTES" "length ps < 2 ^ 64 - 1" "\<forall>p \<in> set ps. length p \<le> MAX_PLAINTEXT_FRAME_BYTES"
    and "encrypt_all c (createFrameEncryptor k pre) ps = map Inr fs"
  shows "decrypt_all c (createFrameDecryptor k) (nths fs S) = map Inr (nths ps S)"
proof -
  have "map Inr fs = map (Inr :: bytes \<Rightarrow> (relay_error, bytes) outcome) (map (\<lambda>(i, p). sealed_frame c k pre i p) (zip [Suc 0..<Suc (length ps)] ps))"
    using encrypt_all_frames [OF assms(4), of c "createFrameEncryptor k pre"] unfolding assms(5)
    by (simp add: createFrameEncryptor_def comp_def case_prod_beta del: upt_Suc)
  then have "fs = map (\<lambda>(i, p). sealed_frame c k pre i p) (zip [Suc 0..<Suc (length ps)] ps)"
    by (simp only: inj_map_eq_map [OF inj_Inr])
  then show ?thesis
    using decrypt_subsequence [OF assms(1,2), of "createFrameDecryptor k" 0 ps S] assms(3)
    by (simp add: createFrameDecryptor_def del: upt_Suc)
qed

theorem channel_accepts_subsequences_witness:
  "decrypt_all toy_crypto (createFrameDecryptor [0])
     (nths [sealed_frame toy_crypto [0] [1, 2, 3, 4] 1 [9], sealed_frame toy_crypto [0] [1, 2, 3, 4] 2 [8]] {1}) = map Inr (nths [[9], [8]] {1})"
proof (rule channel_accepts_subsequences [where pre = "[1, 2, 3, 4]"])
  show "aead_ok toy_crypto" by (simp add: aead_ok_def toy_crypto_def GCM_TAG_BYTES_def)
  show "encrypt_all toy_crypto (createFrameEncryptor [0] [1, 2, 3, 4]) [[9], [8]] =
      map Inr [sealed_frame toy_crypto [0] [1, 2, 3, 4] 1 [9], sealed_frame toy_crypto [0] [1, 2, 3, 4] 2 [8]]"
    using encrypt_all_frames [of "[[9], [8]]" toy_crypto "createFrameEncryptor [0] [1, 2, 3, 4]"]
    by (simp add: createFrameEncryptor_def MAX_PLAINTEXT_FRAME_BYTES_def upt_rec numeral_2_eq_2)
qed (simp_all add: IV_PREFIX_BYTES_def MAX_PLAINTEXT_FRAME_BYTES_def)

end
