(* ===== verification/Relay_Host.thy ===== *)
theory Relay_Host
  imports Relay_E2ee Frame_Batcher
begin

text \<open>
  The relay host client, \<^verbatim>\<open>src/packages/web/application-host/lib/relay/host-client.ts\<close>: the control socket with its
  reconnects, and per connected client a data socket that runs the handshake, decrypts and splits frames for the tunnel
  host, and batches and encrypts the frames the tunnel sends.

  Sockets are objects with a reference; \<open>dataSockets\<close> maps connection ids to them. One step is one callback: an event of a
  socket, a timer, or the tunnel sending a frame; a message of a data socket is one step because \<open>processing\<close> handles them
  one after the other, and its WebCrypto operations end before another callback. The tunnel is not part of this machine:
  \<open>Dispatch\<close> is its \<open>handleFrame\<close>, and a \<open>Binary\<close> event says at which frame it rejects, if it does; \<open>Outbound\<close> is its
  \<open>sendFrame\<close>. URLs, signatures, status callbacks and the log are left out.
\<close>

section \<open>State\<close>

datatype RelayHostState = Connected | Connecting_State | Disabled | Reconnecting

record relay_env =
  crypto :: relay_crypto
  hostEncPrivateKey :: bytes
  localBatch :: bool
  batch_options :: batcher_options
  data_dial_error :: "string \<Rightarrow> bool"
  control_dial_error :: "string option"

datatype socket_state = S_Connecting | S_Open | S_Closing | S_Closed

record data_socket =
  ds_id :: string
  ds_state :: socket_state
  open_timer :: bool
  lastActivityAt :: int
  handshake :: host_handshake
  channel :: "RelayFrameChannel option"
  batchNegotiated :: bool
  ds_batcher :: "batcher option"
  has_tunnel :: bool
  sendChain :: "bytes list"

record control_socket =
  cs_state :: socket_state
  lastAliveAt :: int

record relay_host =
  stopped :: bool
  host_state :: RelayHostState
  lastError :: "string option"
  controlSocket :: "nat option"
  reconnectTimer :: bool
  consecutiveFailures :: nat
  dataSockets :: "(string \<times> nat) list"
  entries :: "nat \<rightharpoonup> data_socket"
  controls :: "nat \<rightharpoonup> control_socket"
  next_socket :: nat

datatype relay_effect =
    Dial_Control nat
  | Dial_Data string nat
  | Text_Out nat jsval
  | Binary_Out nat bytes
  | Dispatch nat bytes
  | Close_Tunnel nat
  | Close_Socket nat nat string
  | Terminate_Socket nat
  | Ping_Socket nat
  | Schedule nat

definition BACKOFF_BASE_MS :: nat where
  "BACKOFF_BASE_MS = 1000"

definition BACKOFF_CAP_MS :: nat where
  "BACKOFF_CAP_MS = 30000"

definition DATA_SOCKET_IDLE_TIMEOUT_MS :: int where
  "DATA_SOCKET_IDLE_TIMEOUT_MS = 90000"

definition CONTROL_PING_INTERVAL_MS :: int where
  "CONTROL_PING_INTERVAL_MS = 30000"

definition CONTROL_PONG_GRACE_MS :: int where
  "CONTROL_PONG_GRACE_MS = 10000"

definition relay_start :: relay_host where
  "relay_start =
     \<lparr>stopped = False, host_state = Connecting_State, lastError = None, controlSocket = None, reconnectTimer = False,
      consecutiveFailures = 0, dataSockets = [], entries = Map.empty, controls = Map.empty, next_socket = 0\<rparr>"

definition put_entry :: "nat \<Rightarrow> data_socket \<Rightarrow> relay_host \<Rightarrow> relay_host" where
  "put_entry r e h = h\<lparr>entries := (entries h)(r \<mapsto> e)\<rparr>"

section \<open>Data sockets\<close>

text \<open>\<open>teardownDataSocket\<close> finds the entry by the connection id. Without a close code the socket is terminated.\<close>

definition teardownDataSocket :: "string \<Rightarrow> (nat \<times> string) option \<Rightarrow> relay_host \<Rightarrow> relay_host \<times> relay_effect list" where
  "teardownDataSocket connectionId close h =
     (case map_of (dataSockets h) connectionId of
        None \<Rightarrow> (h, [])
      | Some r \<Rightarrow>
          (case entries h r of
             None \<Rightarrow> (h, [])
           | Some e \<Rightarrow>
               (put_entry r
                  (e\<lparr>open_timer := False, ds_batcher := map_option batcher_dispose (ds_batcher e),
                     ds_state := (if ds_state e = S_Open \<or> ds_state e = S_Connecting then S_Closing else ds_state e)\<rparr>)
                  (h\<lparr>dataSockets := AList.delete connectionId (dataSockets h)\<rparr>),
                (if has_tunnel e then [Close_Tunnel r] else []) @
                (if ds_state e = S_Open \<or> ds_state e = S_Connecting
                 then (case close of Some (code, reason) \<Rightarrow> [Close_Socket r code reason] | None \<Rightarrow> [Terminate_Socket r])
                 else []))))"

definition openDataSocket :: "relay_env \<Rightarrow> int \<Rightarrow> string \<Rightarrow> relay_host \<Rightarrow> relay_host \<times> relay_effect list" where
  "openDataSocket env now connectionId h =
     (if stopped h \<or> map_of (dataSockets h) connectionId \<noteq> None then (h, [])
      else if data_dial_error env connectionId then (h, [])
      else
        let r = next_socket h;
            e = \<lparr>ds_id = connectionId, ds_state = S_Connecting, open_timer = True, lastActivityAt = now,
                 handshake = createHostHandshake (hostEncPrivateKey env) (localBatch env), channel = None,
                 batchNegotiated = False, ds_batcher = None, has_tunnel = False, sendChain = []\<rparr>
        in (put_entry r e (h\<lparr>dataSockets := AList.update connectionId r (dataSockets h), next_socket := Suc r\<rparr>),
            [Dial_Data connectionId r]))"

definition is_entry :: "relay_host \<Rightarrow> nat \<Rightarrow> data_socket \<Rightarrow> bool" where
  "is_entry h r e \<longleftrightarrow> map_of (dataSockets h) (ds_id e) = Some r"

definition failChannel :: "data_socket \<Rightarrow> nat \<Rightarrow> string \<Rightarrow> relay_host \<Rightarrow> relay_host \<times> relay_effect list" where
  "failChannel e closeCode reason h = teardownDataSocket (ds_id e) (Some (closeCode, reason)) h"

definition handle_text ::
  "relay_env \<Rightarrow> bytes \<Rightarrow> jsval option \<Rightarrow> nat \<Rightarrow> data_socket \<Rightarrow> relay_host \<Rightarrow> relay_host \<times> relay_effect list" where
  "handle_text env ivp raw r e h =
     (case host_handleText (crypto env) ivp raw (handshake e) of
        (hs, action) \<Rightarrow>
          let e = e\<lparr>handshake := hs\<rparr>
          in (case action of
                Send_Text v \<Rightarrow> (put_entry r e h, [Text_Out r v])
              | Established ch batch reply \<Rightarrow>
                  (put_entry r
                     (e\<lparr>channel := Some ch, batchNegotiated := batch,
                        ds_batcher := (if batch then Some createOutboundFrameBatcher else None), has_tunnel := True\<rparr>) h,
                   case reply of None \<Rightarrow> [] | Some v \<Rightarrow> [Text_Out r v])
              | Fail code reason \<Rightarrow> failChannel e code reason (put_entry r e h)
              | Ignore \<Rightarrow> (put_entry r e h, [])))"

text \<open>\<open>rejected\<close> is the number of the frame at which \<open>handleFrame\<close> rejects; the frames after it are not dispatched.\<close>

definition handle_binary ::
  "relay_env \<Rightarrow> bytes \<Rightarrow> nat option \<Rightarrow> nat \<Rightarrow> data_socket \<Rightarrow> relay_host \<Rightarrow> relay_host \<times> relay_effect list" where
  "handle_binary env bs rejected r e h =
     (case channel e of
        None \<Rightarrow> failChannel e 1011 ''binary frame before handshake'' h
      | Some ch \<Rightarrow>
          if \<not> has_tunnel e then failChannel e 1011 ''binary frame before handshake'' h
          else
            (case decrypt (crypto env) bs (decryptor ch) of
               (d, Inl _) \<Rightarrow> failChannel e 1011 ''frame decryption failed'' h
             | (d, Inr plaintext) \<Rightarrow>
                 let h = put_entry r (e\<lparr>channel := Some (ch\<lparr>decryptor := d\<rparr>)\<rparr>) h
                 in if batchNegotiated e
                    then (case decodeFrameBatch plaintext of
                            Inl _ \<Rightarrow> (h, [])
                          | Inr frames \<Rightarrow>
                              (h, map (Dispatch r) (case rejected of None \<Rightarrow> frames | Some n \<Rightarrow> take (Suc n) frames)))
                    else (h, [Dispatch r plaintext])))"

text \<open>\<open>sendEncryptedPlaintext\<close> appends to the chain; one link of the chain runs at a time.\<close>

definition sendEncryptedPlaintext :: "bytes list \<Rightarrow> data_socket \<Rightarrow> data_socket" where
  "sendEncryptedPlaintext plaintexts e = e\<lparr>sendChain := sendChain e @ plaintexts\<rparr>"

definition send_link :: "relay_env \<Rightarrow> nat \<Rightarrow> data_socket \<Rightarrow> relay_host \<Rightarrow> relay_host \<times> relay_effect list" where
  "send_link env r e h =
     (case sendChain e of
        [] \<Rightarrow> (h, [])
      | plaintext # rest \<Rightarrow>
          let e = e\<lparr>sendChain := rest\<rparr>
          in (case channel e of
                None \<Rightarrow> (put_entry r e h, [])
              | Some ch \<Rightarrow>
                  if \<not> is_entry h r e \<or> ds_state e \<noteq> S_Open then (put_entry r e h, [])
                  else (case encrypt (crypto env) plaintext (encryptor ch) of
                          (enc, Inl _) \<Rightarrow> (put_entry r (e\<lparr>channel := Some (ch\<lparr>encryptor := enc\<rparr>)\<rparr>) h, [])
                        | (enc, Inr bs) \<Rightarrow>
                            (put_entry r (e\<lparr>channel := Some (ch\<lparr>encryptor := enc\<rparr>)\<rparr>) h, [Binary_Out r bs]))))"

definition send_frame :: "relay_env \<Rightarrow> int \<Rightarrow> int \<Rightarrow> int \<Rightarrow> bytes \<Rightarrow> nat \<Rightarrow> data_socket \<Rightarrow> relay_host \<Rightarrow> relay_host" where
  "send_frame env at now1 now2 frame r e h =
     (if \<not> is_entry h r e \<or> ds_state e \<noteq> S_Open then h
      else case ds_batcher e of
             None \<Rightarrow> put_entry r (sendEncryptedPlaintext [frame] e) h
           | Some b \<Rightarrow>
               (case enqueue (batch_options env) at now1 now2 frame b of
                  (b, plaintexts, err) \<Rightarrow> put_entry r (sendEncryptedPlaintext plaintexts (e\<lparr>ds_batcher := Some b\<rparr>)) h))"

definition batch_timer :: "int \<Rightarrow> nat \<Rightarrow> data_socket \<Rightarrow> relay_host \<Rightarrow> relay_host" where
  "batch_timer now r e h =
     (case ds_batcher e of
        None \<Rightarrow> h
      | Some b \<Rightarrow>
          if \<not> timer b then h
          else case flush now b of (b, plaintexts, err) \<Rightarrow> put_entry r (sendEncryptedPlaintext plaintexts (e\<lparr>ds_batcher := Some b\<rparr>)) h)"

datatype data_event =
    Data_Opened
  | Open_Timeout
  | Text bytes "jsval option" int
  | Binary bytes "nat option" int
  | Outbound int int int bytes
  | Batch_Timer int
  | Send_Link
  | Data_Closed

definition data_step :: "relay_env \<Rightarrow> nat \<Rightarrow> data_socket \<Rightarrow> data_event \<Rightarrow> relay_host \<Rightarrow> relay_host \<times> relay_effect list" where
  "data_step env r e ev h =
     (case ev of
        Data_Opened \<Rightarrow>
          if ds_state e \<noteq> S_Connecting then (h, []) else (put_entry r (e\<lparr>ds_state := S_Open, open_timer := False\<rparr>) h, [])
      | Open_Timeout \<Rightarrow> if open_timer e then teardownDataSocket (ds_id e) None h else (h, [])
      | Text ivp raw now \<Rightarrow> if is_entry h r e then handle_text env ivp raw r (e\<lparr>lastActivityAt := now\<rparr>) h else (h, [])
      | Binary bs rejected now \<Rightarrow> if is_entry h r e then handle_binary env bs rejected r (e\<lparr>lastActivityAt := now\<rparr>) h else (h, [])
      | Outbound at now1 now2 frame \<Rightarrow> (send_frame env at now1 now2 frame r e h, [])
      | Batch_Timer now \<Rightarrow> (batch_timer now r e h, [])
      | Send_Link \<Rightarrow> send_link env r e h
      | Data_Closed \<Rightarrow>
          if ds_state e = S_Closed then (h, [])
          else teardownDataSocket (ds_id e) None (put_entry r (e\<lparr>ds_state := S_Closed\<rparr>) h))"

section \<open>The control socket\<close>

fun all_effects :: "('a \<Rightarrow> relay_host \<Rightarrow> relay_host \<times> relay_effect list) \<Rightarrow> 'a list \<Rightarrow> relay_host \<Rightarrow> relay_host \<times> relay_effect list" where
  "all_effects f [] h = (h, [])"
| "all_effects f (x # xs) h = (case f x h of (h, es) \<Rightarrow> (case all_effects f xs h of (h, es') \<Rightarrow> (h, es @ es')))"

fun first_occurrences :: "'a list \<Rightarrow> 'a list" where
  "first_occurrences [] = []"
| "first_occurrences (x # xs) = x # filter (\<lambda>y. y \<noteq> x) (first_occurrences xs)"

fun connection_ids :: "jsval list \<Rightarrow> string list" where
  "connection_ids [] = []"
| "connection_ids (JString s # vs) = (if length s > 0 then s # connection_ids vs else connection_ids vs)"
| "connection_ids (v # vs) = connection_ids vs"

definition sync_sockets :: "relay_env \<Rightarrow> int \<Rightarrow> string list \<Rightarrow> relay_host \<Rightarrow> relay_host \<times> relay_effect list" where
  "sync_sockets env now wanted h =
     (case all_effects (\<lambda>connectionId. teardownDataSocket connectionId None)
             (filter (\<lambda>connectionId. connectionId \<notin> set wanted) (map fst (dataSockets h))) h of
        (h, es) \<Rightarrow> (case all_effects (openDataSocket env now) wanted h of (h, es') \<Rightarrow> (h, es @ es')))"

fun array_ids :: "jsval \<Rightarrow> string list" where
  "array_ids (JArray vs) = connection_ids vs"
| "array_ids v = []"

definition handleControlMessage :: "relay_env \<Rightarrow> int \<Rightarrow> jsval option \<Rightarrow> relay_host \<Rightarrow> relay_host \<times> relay_effect list" where
  "handleControlMessage env now raw h =
     (case raw of
        None \<Rightarrow> (h, [])
      | Some v \<Rightarrow>
          if \<not> is_object v \<or> is_array v then (h, [])
          else if prop_of v ''type'' = JString ''sync'' \<and> is_array (prop_of v ''connectionIds'')
          then sync_sockets env now (first_occurrences (array_ids (prop_of v ''connectionIds'')))
                 (h\<lparr>consecutiveFailures := 0, host_state := Connected, lastError := None\<rparr>)
          else (case prop_of v ''connectionId'' of
                  JString connectionId \<Rightarrow>
                    if prop_of v ''type'' = JString ''connected'' then openDataSocket env now connectionId h
                    else if prop_of v ''type'' = JString ''disconnected'' then teardownDataSocket connectionId None h
                    else (h, [])
                | _ \<Rightarrow> (h, [])))"

definition scheduleReconnect :: "relay_host \<Rightarrow> relay_host \<times> relay_effect list" where
  "scheduleReconnect h =
     (if stopped h \<or> reconnectTimer h then (h, [])
      else (h\<lparr>consecutiveFailures := consecutiveFailures h + 1, host_state := Reconnecting, reconnectTimer := True\<rparr>,
            [Schedule (min (BACKOFF_BASE_MS * 2 ^ consecutiveFailures h) BACKOFF_CAP_MS)]))"

definition connectControl :: "relay_env \<Rightarrow> int \<Rightarrow> relay_host \<Rightarrow> relay_host \<times> relay_effect list" where
  "connectControl env now h =
     (if stopped h then (h, [])
      else
        let h = h\<lparr>host_state := (if consecutiveFailures h = 0 then Connecting_State else Reconnecting)\<rparr>
        in (case control_dial_error env of
              Some e \<Rightarrow> scheduleReconnect (h\<lparr>lastError := Some e\<rparr>)
            | None \<Rightarrow>
                let r = next_socket h
                in (h\<lparr>controlSocket := Some r, controls := (controls h)(r \<mapsto> \<lparr>cs_state = S_Connecting, lastAliveAt = now\<rparr>),
                      next_socket := Suc r\<rparr>, [Dial_Control r])))"

definition reconnect_fires :: "relay_env \<Rightarrow> int \<Rightarrow> relay_host \<Rightarrow> relay_host \<times> relay_effect list" where
  "reconnect_fires env now h =
     (if \<not> reconnectTimer h then (h, []) else connectControl env now (h\<lparr>reconnectTimer := False\<rparr>))"

definition put_control :: "nat \<Rightarrow> control_socket \<Rightarrow> relay_host \<Rightarrow> relay_host" where
  "put_control r cs h = h\<lparr>controls := (controls h)(r \<mapsto> cs)\<rparr>"

definition ping_tick :: "int \<Rightarrow> nat \<Rightarrow> control_socket \<Rightarrow> relay_host \<Rightarrow> relay_host \<times> relay_effect list" where
  "ping_tick now r cs h =
     (if controlSocket h \<noteq> Some r \<or> cs_state cs \<noteq> S_Open then (h, [])
      else if now - lastAliveAt cs > CONTROL_PING_INTERVAL_MS + CONTROL_PONG_GRACE_MS
      then (put_control r (cs\<lparr>cs_state := S_Closing\<rparr>) h, [Terminate_Socket r])
      else (h, [Ping_Socket r]))"

definition control_closed :: "nat \<Rightarrow> string \<Rightarrow> nat \<Rightarrow> control_socket \<Rightarrow> relay_host \<Rightarrow> relay_host \<times> relay_effect list" where
  "control_closed code reason r cs h =
     (let h = put_control r (cs\<lparr>cs_state := S_Closed\<rparr>) h
      in if controlSocket h \<noteq> Some r then (h, [])
         else
           let h = h\<lparr>controlSocket := None\<rparr>;
               h = (if lastError h \<in> {None, Some []} \<and> code \<noteq> 0 \<and> code \<noteq> 1000
                    then h\<lparr>lastError := Some (''control socket closed ('' @ dec code @
                             (if reason \<noteq> [] then '': '' @ reason else []) @ '')'')\<rparr>
                    else h)
           in scheduleReconnect h)"

datatype control_event =
    Control_Opened int
  | Pong_Received int
  | Control_Message "jsval option" int
  | Control_Error string
  | Ping_Tick int
  | Control_Closed nat string

definition control_step :: "relay_env \<Rightarrow> nat \<Rightarrow> control_socket \<Rightarrow> control_event \<Rightarrow> relay_host \<Rightarrow> relay_host \<times> relay_effect list" where
  "control_step env r cs ev h =
     (case ev of
        Control_Opened now \<Rightarrow>
          if cs_state cs \<noteq> S_Connecting then (h, [])
          else (put_control r (cs\<lparr>cs_state := S_Open, lastAliveAt := (if controlSocket h = Some r then now else lastAliveAt cs)\<rparr>) h, [])
      | Pong_Received now \<Rightarrow> (put_control r (cs\<lparr>lastAliveAt := now\<rparr>) h, [])
      | Control_Message raw now \<Rightarrow>
          if controlSocket h \<noteq> Some r then (h, [])
          else handleControlMessage env now raw (put_control r (cs\<lparr>lastAliveAt := now\<rparr>) h)
      | Control_Error message \<Rightarrow> if controlSocket h \<noteq> Some r then (h, []) else (h\<lparr>lastError := Some message\<rparr>, [])
      | Ping_Tick now \<Rightarrow> ping_tick now r cs h
      | Control_Closed code reason \<Rightarrow> if cs_state cs = S_Closed then (h, []) else control_closed code reason r cs h)"

definition idle_sweep :: "int \<Rightarrow> relay_host \<Rightarrow> relay_host \<times> relay_effect list" where
  "idle_sweep now h =
     all_effects (\<lambda>connectionId. teardownDataSocket connectionId (Some (1001, ''client idle timeout'')))
       (map fst (filter (\<lambda>(connectionId, r). case entries h r of
          None \<Rightarrow> False | Some e \<Rightarrow> now - lastActivityAt e > DATA_SOCKET_IDLE_TIMEOUT_MS) (dataSockets h))) h"

definition stop :: "relay_host \<Rightarrow> relay_host \<times> relay_effect list" where
  "stop h =
     (if stopped h then (h, [])
      else
        let h = h\<lparr>stopped := True, reconnectTimer := False\<rparr>
        in (case all_effects (\<lambda>connectionId. teardownDataSocket connectionId (Some (1001, ''host stopping'')))
                   (map fst (dataSockets h)) h of
              (h, es) \<Rightarrow>
                (h\<lparr>controlSocket := None, host_state := Disabled\<rparr>,
                 es @ (case controlSocket h of None \<Rightarrow> [] | Some r \<Rightarrow> [Close_Socket r 1001 ''host stopping'']))))"

definition startRelayHost :: "relay_env \<Rightarrow> int \<Rightarrow> relay_host \<times> relay_effect list" where
  "startRelayHost env now = connectControl env now relay_start"

datatype relay_event =
    Data nat data_event
  | Control nat control_event
  | Reconnect_Fires int
  | Idle_Sweep int
  | Stop

fun relay_step :: "relay_env \<Rightarrow> relay_host \<Rightarrow> relay_event \<Rightarrow> relay_host \<times> relay_effect list" where
  "relay_step env h (Data r ev) = (case entries h r of None \<Rightarrow> (h, []) | Some e \<Rightarrow> data_step env r e ev h)"
| "relay_step env h (Control r ev) = (case controls h r of None \<Rightarrow> (h, []) | Some cs \<Rightarrow> control_step env r cs ev h)"
| "relay_step env h (Reconnect_Fires now) = reconnect_fires env now h"
| "relay_step env h (Idle_Sweep now) = (if stopped h then (h, []) else idle_sweep now h)"
| "relay_step env h Stop = stop h"

fun relay_run :: "relay_env \<Rightarrow> relay_host \<Rightarrow> relay_event list \<Rightarrow> relay_host \<times> relay_effect list" where
  "relay_run env h [] = (h, [])"
| "relay_run env h (e # es) =
     (case relay_step env h e of (h, outs) \<Rightarrow> (case relay_run env h es of (h, outs') \<Rightarrow> (h, outs @ outs')))"

end
