(* ===== verification/Relay_Host_Channels.thy ===== *)
theory Relay_Host_Channels
  imports Relay_Host Tunnel_Peers
begin

text \<open>
  What the relay host client hands to the tunnels: nothing but frames the client sealed, whatever the relay does, and all of
  them when the relay is honest. Composes the handshake and the channel (\<open>Relay_E2ee\<close>), the batcher and the client codec.
\<close>

section \<open>What one socket is given and dispatches\<close>

fun dispatched :: "nat \<Rightarrow> relay_effect list \<Rightarrow> bytes list" where
  "dispatched r [] = []"
| "dispatched r (Dispatch r' frame # outs) = (if r' = r then frame # dispatched r outs else dispatched r outs)"
| "dispatched r (x # outs) = dispatched r outs"

lemma dispatched_append [simp]: "dispatched r (xs @ ys) = dispatched r xs @ dispatched r ys"
  by (induction r xs rule: dispatched.induct) auto

lemma dispatched_map [simp]: "dispatched r (map (Dispatch r') frames) = (if r' = r then frames else [])"
  by (induction frames) auto

text \<open>The part of a data socket that decides what it dispatches.\<close>

definition inbound :: "relay_host \<Rightarrow> nat \<Rightarrow> (host_handshake \<times> frame_decryptor option \<times> bool) option" where
  "inbound h r = map_option (\<lambda>e. (handshake e, map_option decryptor (channel e), batchNegotiated e)) (entries h r)"

definition silent :: "relay_env \<Rightarrow> relay_host \<Rightarrow> relay_host \<times> relay_effect list \<Rightarrow> bool" where
  "silent env h res \<longleftrightarrow>
     next_socket h \<le> next_socket (fst res) \<and> (\<forall>r. dispatched r (snd res) = []) \<and>
     (\<forall>r. inbound (fst res) r = inbound h r \<or>
        next_socket h \<le> r \<and> r < next_socket (fst res) \<and> inbound (fst res) r = Some (createHostHandshake (hostEncPrivateKey env) (localBatch env), None, False))"

lemma calm_same: "(\<And>r. dispatched r outs = []) \<Longrightarrow> silent env h (h, outs)"
  by (simp add: silent_def)

lemma calm_trans:
  assumes "silent env h (h', es)" "silent env h' (h'', es')"
  shows "silent env h (h'', es @ es')"
proof -
  have "inbound h'' r = inbound h r \<or> next_socket h \<le> r \<and> r < next_socket h'' \<and>
      inbound h'' r = Some (createHostHandshake (hostEncPrivateKey env) (localBatch env), None, False)" for r
    using assms unfolding silent_def fst_conv by (metis dual_order.trans less_le_trans)
  with assms show ?thesis by (auto simp: silent_def)
qed

lemma calm_all:
  assumes "\<And>x h. x \<in> set xs \<Longrightarrow> silent env h (f x h)"
  shows "silent env h (all_effects f xs h)"
  using assms
proof (induction xs arbitrary: h)
  case (Cons x xs)
  obtain h' es where f: "f x h = (h', es)" by fastforce
  obtain h'' es' where rest: "all_effects f xs h' = (h'', es')" by fastforce
  have "silent env h (h', es)" using Cons.prems [of x h] f by simp
  moreover have "silent env h' (h'', es')" using Cons.IH [of h'] Cons.prems rest by simp
  ultimately show ?case using calm_trans f rest by simp
qed (simp add: calm_same)

lemma calm_put:
  assumes "entries h r = Some e" "handshake e' = handshake e" "map_option decryptor (channel e') = map_option decryptor (channel e)"
    "batchNegotiated e' = batchNegotiated e" "\<And>r. dispatched r outs = []"
  shows "silent env h (put_entry r e' h, outs)"
  using assms by (auto simp: silent_def inbound_def put_entry_def)

lemma calm_fields:
  assumes "silent env h (h', outs)" "entries h2 = entries h'" "next_socket h2 = next_socket h'"
  shows "silent env h (h2, outs)"
  using assms by (simp add: silent_def inbound_def)

lemma teardown_calm: "silent env h (teardownDataSocket connectionId close h)"
proof (cases "map_of (dataSockets h) connectionId")
  case (Some r)
  show ?thesis
  proof (cases "entries h r")
    case (Some e)
    with \<open>map_of (dataSockets h) connectionId = Some r\<close> show ?thesis
      by (auto simp: teardownDataSocket_def silent_def inbound_def put_entry_def split: option.split)
  qed (use Some in \<open>simp add: teardownDataSocket_def calm_same\<close>)
qed (simp add: teardownDataSocket_def calm_same)

lemma open_calm: "silent env h (openDataSocket env now connectionId h)"
  by (auto simp: openDataSocket_def silent_def inbound_def put_entry_def Let_def)

lemma schedule_calm: "silent env h (scheduleReconnect h)"
  by (simp add: scheduleReconnect_def silent_def inbound_def)

lemma calm_start: "silent env h2 res \<Longrightarrow> entries h2 = entries h \<Longrightarrow> next_socket h2 = next_socket h \<Longrightarrow> silent env h res"
  by (simp add: silent_def inbound_def)

lemma connect_calm: "silent env h (connectControl env now h)"
proof (cases "stopped h")
  case False
  let ?h = "h\<lparr>host_state := if consecutiveFailures h = 0 then Connecting_State else Reconnecting\<rparr>"
  show ?thesis
  proof (cases "control_dial_error env")
    case None
    with False show ?thesis by (auto simp: connectControl_def silent_def inbound_def Let_def)
  next
    case (Some e)
    have "silent env h (scheduleReconnect (?h\<lparr>lastError := Some e\<rparr>))"
      by (rule calm_start [OF schedule_calm]) simp_all
    with False Some show ?thesis by (simp add: connectControl_def)
  qed
qed (simp add: connectControl_def calm_same)

lemma sync_calm: "silent env h (sync_sockets env now wanted h)"
proof -
  let ?closed = "all_effects (\<lambda>connectionId. teardownDataSocket connectionId None)
      (filter (\<lambda>connectionId. connectionId \<notin> set wanted) (map fst (dataSockets h))) h"
  let ?opened = "all_effects (openDataSocket env now) wanted (fst ?closed)"
  have "silent env h ?closed" by (rule calm_all) (rule teardown_calm)
  moreover have "silent env (fst ?closed) ?opened" by (rule calm_all) (rule open_calm)
  ultimately have "silent env h (fst ?opened, snd ?closed @ snd ?opened)"
    using calm_trans [of env h "fst ?closed" "snd ?closed" "fst ?opened" "snd ?opened"] by (simp only: prod.collapse)
  then show ?thesis by (simp only: sync_sockets_def case_prod_beta)
qed

lemma message_calm: "silent env h (handleControlMessage env now raw h)"
proof -
  have sync: "silent env h (sync_sockets env now wanted (h\<lparr>consecutiveFailures := 0, host_state := Connected, lastError := None\<rparr>))" for wanted
    by (rule calm_start [OF sync_calm]) simp_all
  have same: "silent env h (h, [])" by (rule calm_same) simp
  show ?thesis
  proof (cases raw)
    case (Some v)
    have "silent env h (case prop_of v ''connectionId'' of
        JString connectionId \<Rightarrow>
          if prop_of v ''type'' = JString ''connected'' then openDataSocket env now connectionId h
          else if prop_of v ''type'' = JString ''disconnected'' then teardownDataSocket connectionId None h
          else (h, [])
      | _ \<Rightarrow> (h, []))"
    proof (cases "prop_of v ''connectionId''")
      case (JString connectionId)
      then show ?thesis by (simp only: jsval.case same open_calm teardown_calm split: if_split) simp
    qed (simp_all only: jsval.case same)
    with Some sync same show ?thesis by (simp only: handleControlMessage_def option.case split: if_split) simp
  qed (use same in \<open>simp only: handleControlMessage_def option.case\<close>)
qed

lemma put_control_calm: "(\<And>r. dispatched r outs = []) \<Longrightarrow> silent env h (put_control r cs h, outs)"
  by (simp add: silent_def inbound_def put_control_def)

lemma control_closed_calm: "silent env h (control_closed code reason r cs h)"
proof (cases "controlSocket h = Some r")
  case True
  have "silent env h (scheduleReconnect h2)" if "entries h2 = entries h" "next_socket h2 = next_socket h" for h2
    by (rule calm_start [OF schedule_calm that])
  with True show ?thesis by (simp add: control_closed_def put_control_def Let_def)
next
  case False
  then show ?thesis using put_control_calm by (simp add: control_closed_def put_control_def Let_def silent_def inbound_def)
qed

lemma control_calm: "silent env h (control_step env r cs ev h)"
proof (cases ev)
  case (Control_Message raw now)
  have "silent env h (handleControlMessage env now raw (put_control r cs' h))" for cs'
    by (rule calm_start [OF message_calm]) (simp_all add: put_control_def)
  with Control_Message show ?thesis by (simp add: control_step_def calm_same)
next
  case (Control_Error message)
  then show ?thesis by (simp add: control_step_def silent_def inbound_def)
next
  case (Ping_Tick now)
  then show ?thesis by (simp add: control_step_def ping_tick_def calm_same put_control_calm)
next
  case (Control_Closed code reason)
  then show ?thesis by (simp add: control_step_def control_closed_calm calm_same)
qed (simp_all add: control_step_def calm_same put_control_calm)

lemma sweep_calm: "silent env h (idle_sweep now h)"
  unfolding idle_sweep_def by (rule calm_all) (rule teardown_calm)

lemma stop_calm: "silent env h (stop h)"
proof (cases "stopped h")
  case False
  let ?h = "h\<lparr>stopped := True, reconnectTimer := False\<rparr>"
  define res where "res = all_effects (\<lambda>connectionId. teardownDataSocket connectionId (Some (1001, ''host stopping''))) (map fst (dataSockets ?h)) ?h"
  have "silent env ?h res" unfolding res_def by (rule calm_all) (rule teardown_calm)
  then have "silent env h res" by (rule calm_start) simp_all
  then have stopped: "silent env h ((fst res)\<lparr>controlSocket := None, host_state := Disabled\<rparr>,
      snd res @ (case controlSocket (fst res) of None \<Rightarrow> [] | Some r \<Rightarrow> [Close_Socket r 1001 ''host stopping'']))"
    unfolding silent_def inbound_def by (cases "controlSocket (fst res)") simp_all
  have "stop h = ((fst res)\<lparr>controlSocket := None, host_state := Disabled\<rparr>,
      snd res @ (case controlSocket (fst res) of None \<Rightarrow> [] | Some r \<Rightarrow> [Close_Socket r 1001 ''host stopping'']))"
    using False by (simp only: stop_def if_False Let_def res_def case_prod_beta)
  with stopped show ?thesis by (simp only:)
qed (simp add: stop_def calm_same)

lemma send_frame_calm:
  assumes "entries h r = Some e"
  shows "silent env h (send_frame env at now1 now2 frame r e h, [])"
  using assms by (auto simp: send_frame_def sendEncryptedPlaintext_def intro: calm_same calm_put split: option.split prod.split)

lemma data_calm:
  assumes "entries h r = Some e" "\<And>ivp raw now. ev \<noteq> Text ivp raw now" "\<And>bs rejected now. ev \<noteq> Binary bs rejected now"
  shows "silent env h (data_step env r e ev h)"
proof (cases ev)
  case Data_Opened
  then show ?thesis using assms(1) by (auto simp: data_step_def intro: calm_same calm_put)
next
  case Open_Timeout
  then show ?thesis by (simp add: data_step_def teardown_calm calm_same)
next
  case (Outbound at now1 now2 frame)
  then show ?thesis using send_frame_calm [OF assms(1)] by (simp add: data_step_def)
next
  case (Batch_Timer now)
  then show ?thesis
    using assms(1) by (auto simp: data_step_def batch_timer_def sendEncryptedPlaintext_def intro: calm_same calm_put split: option.split prod.split)
next
  case Send_Link
  then show ?thesis
    using assms(1) by (auto simp: data_step_def send_link_def Let_def intro!: calm_same calm_put split: list.split option.split prod.split sum.split)
next
  case Data_Closed
  let ?h = "put_entry r (e\<lparr>ds_state := S_Closed\<rparr>) h"
  have "silent env h (?h, [])" using calm_put [OF assms(1)] by simp
  moreover obtain h' es where t: "teardownDataSocket (ds_id e) None ?h = (h', es)" by fastforce
  moreover have "silent env ?h (h', es)" using teardown_calm t by metis
  ultimately have "silent env h (h', es)" using calm_trans by fastforce
  with Data_Closed t show ?thesis by (simp add: data_step_def calm_same)
qed (use assms(2,3) in auto)

section \<open>What is dispatched was sealed\<close>

definition opened :: "bool \<Rightarrow> bytes \<Rightarrow> bytes list" where
  "opened batch plaintext = (if batch then (case decodeFrameBatch plaintext of Inl _ \<Rightarrow> [] | Inr frames \<Rightarrow> frames) else [plaintext])"

definition legit ::
  "relay_env \<Rightarrow> host_handshake \<Rightarrow> frame_decryptor option \<Rightarrow> bool \<Rightarrow> bytes list \<Rightarrow> bool" where
  "legit env hs opener batch frames \<longleftrightarrow>
     (case opener of
        None \<Rightarrow> frames = []
      | Some d \<Rightarrow>
          (\<exists>jwk ready. settled jwk ready hs) \<and>
          (\<forall>pre ps. authentic (crypto env) (dec_key d) pre ps \<and> length pre = IV_PREFIX_BYTES \<and> length ps < 2 ^ 64 \<longrightarrow>
             subseq frames (concat (map (opened batch) (take (lastCounter d) ps)))))"

definition all_sealed :: "relay_env \<Rightarrow> relay_host \<Rightarrow> relay_effect list \<Rightarrow> bool" where
  "all_sealed env h outs \<longleftrightarrow>
     (\<forall>r. next_socket h \<le> r \<longrightarrow> inbound h r = None) \<and>
     (\<forall>r. case inbound h r of None \<Rightarrow> dispatched r outs = [] | Some (hs, d, batch) \<Rightarrow> legit env hs d batch (dispatched r outs))"

lemma sound_calm:
  assumes "all_sealed env h outs" "silent env h (h', outs')"
  shows "all_sealed env h' (outs @ outs')"
proof -
  have silent: "dispatched r (outs @ outs') = dispatched r outs" for r
    using assms(2) by (simp add: silent_def)
  have new: "inbound h' r = inbound h r \<or> inbound h r = None \<and> r < next_socket h' \<and>
      inbound h' r = Some (createHostHandshake (hostEncPrivateKey env) (localBatch env), None, False)" for r
    using assms unfolding silent_def all_sealed_def fst_conv by blast
  have "inbound h' r = None" if "next_socket h' \<le> r" for r
    using new [of r] that assms unfolding silent_def all_sealed_def fst_conv by fastforce
  moreover have "case inbound h' r of None \<Rightarrow> dispatched r outs = [] | Some (hs, d, batch) \<Rightarrow> legit env hs d batch (dispatched r outs)" for r
  proof -
    have was: "case inbound h r of None \<Rightarrow> dispatched r outs = [] | Some (hs, d, batch) \<Rightarrow> legit env hs d batch (dispatched r outs)"
      using assms(1) by (simp add: all_sealed_def)
    from new [of r] show ?thesis
    proof (elim disjE conjE)
      assume "inbound h r = None" "inbound h' r = Some (createHostHandshake (hostEncPrivateKey env) (localBatch env), None, False)"
      with was show ?thesis by (simp add: legit_def)
    qed (use was in simp)
  qed
  ultimately show ?thesis unfolding all_sealed_def silent by blast
qed

lemma sound_one:
  assumes "all_sealed env h outs" "entries h r = Some e" "entries h' = (entries h)(r \<mapsto> e')" "next_socket h' = next_socket h"
    and "\<And>r'. r' \<noteq> r \<Longrightarrow> dispatched r' outs' = []"
    and "legit env (handshake e) (map_option decryptor (channel e)) (batchNegotiated e) (dispatched r outs) \<Longrightarrow>
      legit env (handshake e') (map_option decryptor (channel e')) (batchNegotiated e') (dispatched r outs @ dispatched r outs')"
  shows "all_sealed env h' (outs @ outs')"
proof -
  have other: "inbound h' r' = inbound h r'" if "r' \<noteq> r" for r' using that assms(3) by (simp add: inbound_def)
  have mine: "inbound h' r = Some (handshake e', map_option decryptor (channel e'), batchNegotiated e')"
    using assms(3) by (simp add: inbound_def)
  have was: "inbound h r = Some (handshake e, map_option decryptor (channel e), batchNegotiated e)"
    using assms(2) by (simp add: inbound_def)
  have low: "r < next_socket h" using assms(1) was unfolding all_sealed_def by (metis linorder_not_le option.distinct(1))
  have before: "legit env (handshake e) (map_option decryptor (channel e)) (batchNegotiated e) (dispatched r outs)"
    using assms(1) was unfolding all_sealed_def by (auto dest: spec [of _ r])
  note legal = assms(6) [OF before]
  have "case inbound h' r' of None \<Rightarrow> dispatched r' (outs @ outs') = [] | Some (hs, d, batch) \<Rightarrow> legit env hs d batch (dispatched r' (outs @ outs'))" for r'
  proof (cases "r' = r")
    case True
    with mine legal show ?thesis by simp
  next
    case False
    have "case inbound h r' of None \<Rightarrow> dispatched r' outs = [] | Some (hs, d, batch) \<Rightarrow> legit env hs d batch (dispatched r' outs)"
      using assms(1) by (simp add: all_sealed_def)
    moreover have "dispatched r' (outs @ outs') = dispatched r' outs" using assms(5) [OF False] by simp
    ultimately show ?thesis by (simp only: other [OF False])
  qed
  moreover have "inbound h' r' = None" if "next_socket h' \<le> r'" for r'
    using that low assms(1,4) other [of r'] unfolding all_sealed_def by fastforce
  ultimately show ?thesis unfolding all_sealed_def by blast
qed

lemma unestablished_same: "host_handleText c ivp raw s = (s', a) \<Longrightarrow> (case a of Established ch batch reply \<Rightarrow> False | _ \<Rightarrow> True) \<Longrightarrow> s' = s"
  by (auto simp: host_handleText_def failClosed_def Let_def split: option.splits HandshakeMessage.splits sum.splits if_splits)

lemma established_fresh: "host_handleText c ivp raw s = (s', Established ch batch reply) \<Longrightarrow> lastCounter (decryptor ch) = 0"
  by (auto simp: host_handleText_def failClosed_def createFrameDecryptor_def Let_def
      split: option.splits HandshakeMessage.splits sum.splits if_splits)

lemma text_sound:
  assumes "all_sealed env h outs" "entries h r = Some e" "handle_text env ivp raw r (e\<lparr>lastActivityAt := now\<rparr>) h = (h', outs')"
  shows "all_sealed env h' (outs @ outs')"
proof -
  obtain hs action where answer: "host_handleText (crypto env) ivp raw (handshake e) = (hs, action)" by fastforce
  let ?e = "e\<lparr>lastActivityAt := now, handshake := hs\<rparr>"
  show ?thesis
  proof (cases "\<exists>ch batch reply. action = Established ch batch reply")
    case True
    then obtain ch batch reply where action: "action = Established ch batch reply" by blast
    note est = established_settles [OF answer [unfolded action]] established_fresh [OF answer [unfolded action]]
    let ?e' = "?e\<lparr>channel := Some ch, batchNegotiated := batch,
      ds_batcher := (if batch then Some createOutboundFrameBatcher else None), has_tunnel := True\<rparr>"
    have out: "h' = put_entry r ?e' h" "outs' = (case reply of None \<Rightarrow> [] | Some v \<Rightarrow> [Text_Out r v])"
      using assms(3) answer action by (simp_all add: handle_text_def Let_def)
    have none: "dispatched r' outs' = []" for r' unfolding out(2) by (cases reply) simp_all
    show ?thesis
    proof (rule sound_one [OF assms(1,2)])
      show "entries h' = (entries h)(r \<mapsto> ?e')" "next_socket h' = next_socket h"
        unfolding out(1) put_entry_def by simp_all
      assume legal: "legit env (handshake e) (map_option decryptor (channel e)) (batchNegotiated e) (dispatched r outs)"
      have "channel e = None"
      proof (rule ccontr)
        assume "channel e \<noteq> None"
        with legal obtain jwk ready where "settled jwk ready (handshake e)" by (auto simp: legit_def)
        then have "acceptedClientKeyFingerprint (handshake e) \<noteq> None" by (auto simp: settled_def)
        with est show False by auto
      qed
      with legal have "dispatched r outs = []" by (simp add: legit_def)
      with est none show "legit env (handshake ?e') (map_option decryptor (channel ?e')) (batchNegotiated ?e') (dispatched r outs @ dispatched r outs')"
        by (auto simp: legit_def)
    qed (rule none)
  next
    case False
    then have hs: "hs = handshake e" using unestablished_same [OF answer] by (cases action) auto
    have put: "silent env h (put_entry r ?e h, outs'')" if "\<And>r. dispatched r outs'' = []" for outs''
      using calm_put [OF assms(2) _ _ _ that] hs by simp
    have "silent env h (h', outs')"
    proof (cases action)
      case (Fail code reason)
      then have "teardownDataSocket (ds_id ?e) (Some (code, reason)) (put_entry r ?e h) = (h', outs')"
        using assms(3) answer by (simp add: handle_text_def Let_def failChannel_def)
      then show ?thesis using calm_trans [OF put [of "[]"], of h' outs'] teardown_calm [of env "put_entry r ?e h"] by (metis append_Nil dispatched.simps(1))
    next
      case Ignore
      with put [of "[]"] assms(3) answer show ?thesis by (simp add: handle_text_def Let_def)
    next
      case (Send_Text v)
      with put [of "[Text_Out r v]"] assms(3) answer show ?thesis by (simp add: handle_text_def Let_def)
    qed (use False in auto)
    with sound_calm [OF assms(1)] show ?thesis .
  qed
qed

lemma binary_sound:
  assumes "all_sealed env h outs" "entries h r = Some e" "handle_binary env bs rejected r (e\<lparr>lastActivityAt := now\<rparr>) h = (h', outs')"
  shows "all_sealed env h' (outs @ outs')"
proof -
  have silent: "all_sealed env h' (outs @ outs')" if "teardownDataSocket connectionId close h = (h', outs')" for connectionId close
    using sound_calm [OF assms(1)] teardown_calm that by metis
  show ?thesis
  proof (cases "channel e")
    case None
    with assms(3) silent show ?thesis by (simp add: handle_binary_def failChannel_def)
  next
    case (Some ch)
    obtain d result where dec: "decrypt (crypto env) bs (decryptor ch) = (d, result)" by fastforce
    show ?thesis
    proof (cases "has_tunnel e \<and> \<not> isl result")
      case False
      with assms(3) silent Some dec show ?thesis
        by (cases result) (auto simp: handle_binary_def failChannel_def split: if_splits)
    next
      case True
      then obtain plaintext where p: "result = Inr plaintext" by (cases result) auto
      let ?e' = "e\<lparr>lastActivityAt := now, channel := Some (ch\<lparr>decryptor := d\<rparr>)\<rparr>"
      define n where "n = (case rejected of None \<Rightarrow> length (opened (batchNegotiated e) plaintext) | Some n \<Rightarrow> Suc n)"
      have out: "h' = put_entry r ?e' h" and n: "outs' = map (Dispatch r) (take n (opened (batchNegotiated e) plaintext))"
        using assms(3) Some dec p True
        by (auto simp: handle_binary_def Let_def opened_def n_def split: if_splits sum.splits option.splits)
      show ?thesis
      proof (rule sound_one [OF assms(1,2)])
        show "entries h' = (entries h)(r \<mapsto> ?e')" "next_socket h' = next_socket h"
          unfolding out put_entry_def by simp_all
        show "dispatched r' outs' = []" if "r' \<noteq> r" for r' using that n by simp
        assume legal: "legit env (handshake e) (map_option decryptor (channel e)) (batchNegotiated e) (dispatched r outs)"
        have "subseq (dispatched r outs @ take n (opened (batchNegotiated e) plaintext)) (concat (map (opened (batchNegotiated e)) (take (lastCounter d) ps)))"
          if ok: "authentic (crypto env) (dec_key (decryptor ch)) pre ps" "length pre = IV_PREFIX_BYTES" "length ps < 2 ^ 64" for pre ps
        proof -
          from decrypt_authentic [OF ok dec] p obtain i where i: "i < length ps" "lastCounter (decryptor ch) \<le> i"
            "plaintext = ps ! i" "d = (decryptor ch)\<lparr>lastCounter := Suc i\<rparr>" by auto
          have "subseq (dispatched r outs) (concat (map (opened (batchNegotiated e)) (take (lastCounter (decryptor ch)) ps)))"
            using legal Some ok by (auto simp: legit_def)
          moreover have "take i ps = take (lastCounter (decryptor ch)) ps @ take (i - lastCounter (decryptor ch)) (drop (lastCounter (decryptor ch)) ps)"
            using i(2) by (metis le_add_diff_inverse take_add)
          ultimately have "subseq (dispatched r outs) (concat (map (opened (batchNegotiated e)) (take i ps)))"
            by (simp add: list_emb_prefix)
          moreover have "subseq (take n (opened (batchNegotiated e) plaintext)) (opened (batchNegotiated e) plaintext)"
            by (metis append_take_drop_id list_emb_prefix subseq_order.order_refl)
          ultimately show ?thesis
            using i by (simp add: take_Suc_conv_app_nth list_emb_append_mono)
        qed
        moreover have "dec_key d = dec_key (decryptor ch)"
          using dec by (auto simp: decrypt_def Let_def split: if_splits option.splits)
        ultimately show "legit env (handshake ?e') (map_option decryptor (channel ?e')) (batchNegotiated ?e') (dispatched r outs @ dispatched r outs')"
          using legal Some n by (auto simp: legit_def)
      qed
    qed
  qed
qed

lemma step_sound:
  assumes "all_sealed env h outs" "relay_step env h ev = (h', outs')"
  shows "all_sealed env h' (outs @ outs')"
proof -
  have silent: ?thesis if "silent env h (relay_step env h ev)"
    using sound_calm [OF assms(1)] that assms(2) by simp
  show ?thesis
  proof (cases ev)
    case (Data r ev')
    show ?thesis
    proof (cases "entries h r")
      case None
      with Data silent show ?thesis by (simp add: calm_same)
    next
      case (Some e)
      show ?thesis
      proof (cases ev')
        case (Text ivp raw now)
        with Data Some assms silent text_sound [OF assms(1) Some] show ?thesis
          by (cases "is_entry h r e") (simp_all add: data_step_def calm_same)
      next
        case (Binary bs rejected now)
        with Data Some assms silent binary_sound [OF assms(1) Some] show ?thesis
          by (cases "is_entry h r e") (simp_all add: data_step_def calm_same)
      qed (use Data Some silent data_calm [OF Some, of ev' env] in simp_all)
    qed
  next
    case (Control r ev')
    show ?thesis by (rule silent) (simp add: Control calm_same control_calm split: option.split)
  next
    case (Reconnect_Fires now)
    have "silent env h (connectControl env now (h\<lparr>reconnectTimer := False\<rparr>))" by (rule calm_start [OF connect_calm]) simp_all
    then show ?thesis by (intro silent) (simp add: Reconnect_Fires reconnect_fires_def calm_same)
  next
    case (Idle_Sweep now)
    show ?thesis by (rule silent) (simp add: Idle_Sweep calm_same sweep_calm)
  next
    case Stop
    show ?thesis by (rule silent) (simp add: Stop stop_calm)
  qed
qed

lemma run_sound: "all_sealed env h outs \<Longrightarrow> relay_run env h evs = (h', outs') \<Longrightarrow> all_sealed env h' (outs @ outs')"
proof (induction evs arbitrary: h outs outs')
  case (Cons ev evs)
  obtain h1 o1 where step: "relay_step env h ev = (h1, o1)" by fastforce
  obtain o2 where run: "relay_run env h1 evs = (h', o2)" "outs' = o1 @ o2"
    using Cons.prems(2) step by (auto split: prod.splits)
  with Cons.IH [OF step_sound [OF Cons.prems(1) step]] show ?case by simp
qed simp

lemma start_sound: "all_sealed env (fst (startRelayHost env now)) (snd (startRelayHost env now))"
proof -
  have "all_sealed env relay_start []" by (simp add: all_sealed_def inbound_def relay_start_def)
  from sound_calm [OF this, of "fst (startRelayHost env now)" "snd (startRelayHost env now)"] connect_calm
  show ?thesis by (simp add: startRelayHost_def)
qed

section \<open>An honest client\<close>

lemma relay_run_Cons: "snd (relay_run env h (ev # evs)) = snd (relay_step env h ev) @ snd (relay_run env (fst (relay_step env h ev)) evs)"
  by (simp add: case_prod_beta)

lemma relay_run_append:
  "relay_run env h es = (h1, outs1) \<Longrightarrow> relay_run env h1 es' = (h2, outs2) \<Longrightarrow> relay_run env h (es @ es') = (h2, outs1 @ outs2)"
  by (induction es arbitrary: h outs1) (auto split: prod.splits)

text \<open>The messages in which a sender seals \<open>ps\<close>, from counter \<open>n + 1\<close> on.\<close>

fun sealed_from :: "relay_crypto \<Rightarrow> bytes \<Rightarrow> bytes \<Rightarrow> nat \<Rightarrow> bytes list \<Rightarrow> bytes list" where
  "sealed_from c k pre n [] = []"
| "sealed_from c k pre n (p # ps) = sealed_frame c k pre (Suc n) p # sealed_from c k pre (Suc n) ps"

lemma encrypt_all_sealed:
  "\<forall>p \<in> set ps. length p \<le> MAX_PLAINTEXT_FRAME_BYTES \<Longrightarrow>
     encrypt_all c e ps = map Inr (sealed_from c (enc_key e) (ivPrefix e) (enc_counter e) ps)"
  by (induction ps arbitrary: e) (simp_all add: encrypt_def sealed_frame_def frame_iv_def Let_def)

lemma binaries_dispatched:
  assumes "aead_ok (crypto env)" "length pre = IV_PREFIX_BYTES"
  shows "entries h r = Some e \<Longrightarrow> is_entry h r e \<Longrightarrow> channel e = Some ch \<Longrightarrow> has_tunnel e \<Longrightarrow>
    lastCounter (decryptor ch) \<le> n \<Longrightarrow> n + length ps < 2 ^ 64 \<Longrightarrow>
    dispatched r (snd (relay_run env h (map (\<lambda>f. Data r (Binary f None now)) (sealed_from (crypto env) (dec_key (decryptor ch)) pre n ps))))
      = concat (map (opened (batchNegotiated e)) ps)"
proof (induction ps arbitrary: h e ch n)
  case (Cons p ps)
  let ?d = "(decryptor ch)\<lparr>lastCounter := Suc n\<rparr>"
  let ?e = "e\<lparr>lastActivityAt := now, channel := Some (ch\<lparr>decryptor := ?d\<rparr>)\<rparr>"
  let ?f = "sealed_frame (crypto env) (dec_key (decryptor ch)) pre (Suc n) p"
  have dec: "decrypt (crypto env) ?f (decryptor ch) = (?d, Inr p)"
    using Cons.prems(5,6) by (intro decrypt_sealed [OF assms]) simp_all
  have step: "relay_step env h (Data r (Binary ?f None now)) = (put_entry r ?e h, map (Dispatch r) (opened (batchNegotiated e) p))"
    using Cons.prems dec by (simp add: data_step_def handle_binary_def opened_def Let_def split: sum.split)
  have "dispatched r (snd (relay_run env (put_entry r ?e h)
      (map (\<lambda>f. Data r (Binary f None now)) (sealed_from (crypto env) (dec_key (decryptor ch)) pre (Suc n) ps)))) =
    concat (map (opened (batchNegotiated e)) ps)"
    using Cons.IH [of "put_entry r ?e h" ?e "ch\<lparr>decryptor := ?d\<rparr>" "Suc n"] Cons.prems by (simp add: put_entry_def is_entry_def)
  then show ?case by (simp only: list.map sealed_from.simps relay_run_Cons step dispatched_append fst_conv snd_conv dispatched_map if_True concat.simps simp_thms)
qed simp

definition small :: "nat \<Rightarrow> batcher_result \<Rightarrow> bool" where
  "small n res \<longleftrightarrow> length (fst (snd res)) \<le> n \<and> (\<forall>p \<in> set (fst (snd res)). length p \<le> MAX_PLAINTEXT_FRAME_BYTES)"

lemma flush_small: "small 1 (flush now s)"
  by (auto simp: small_def flush_def encodeFrameBatch_def length_batch_body BATCH_FRAME_LENGTH_BYTES_def Let_def clearPendingTimer_def
      split: sum.splits list.splits)

lemma small_add: "small m (s1, sent1, e1) \<Longrightarrow> small n (s2, sent2, e2) \<Longrightarrow> small (m + n) (s3, sent1 @ sent2, e3)"
  by (auto simp: small_def)

lemma small_mono: "small m res \<Longrightarrow> m \<le> n \<Longrightarrow> small n res"
  by (simp add: small_def)

lemma enqueue_small: "small 2 (enqueue opts at now1 now2 frame s)"
proof -
  have one: "small 2 (flush now s)" for now s by (rule small_mono [OF flush_small]) simp
  have none: "small n (s, [], err)" for n s err by (simp add: small_def)
  let ?over = "buffer s \<noteq> [] \<and> 1 + bufferedBytes s + (BATCH_FRAME_LENGTH_BYTES + length frame) > MAX_PLAINTEXT_FRAME_BYTES"
  obtain s1 sent1 err1 where first: "(if ?over then flush now1 s else (s, [], None)) = (s1, sent1, err1)" by (metis prod_cases3)
  moreover have "small 1 (if ?over then flush now1 s else (s, [], None))" using flush_small none by simp
  ultimately have sent1: "small 1 (s1, sent1, err1)" by (simp only:)
  define s2 where "s2 = s1\<lparr>buffer := buffer s1 @ [frame], bufferedBytes := bufferedBytes s1 + (BATCH_FRAME_LENGTH_BYTES + length frame)\<rparr>"
  obtain s3 sent2 err2 where second: "flush now2 s2 = (s3, sent2, err2)" by (metis prod_cases3)
  with flush_small have "small 1 (s3, sent2, err2)" by metis
  from small_add [OF sent1 this] have both: "small 2 (s3, sent1 @ sent2, err2)" by (simp add: numeral_2_eq_2)
  have sent1': "small 2 (s', sent1, err')" for s' err' using sent1 by (simp add: small_def)
  show ?thesis
    unfolding enqueue_def Let_def first prod.case s2_def [symmetric] second
    using one none both sent1' by (auto split: option.split)
qed

lemma step_small: "small 2 (batcher_step opts s ev)"
proof -
  have "small 2 (flush now s)" for now by (rule small_mono [OF flush_small]) simp
  then show ?thesis using enqueue_small by (cases ev) (auto simp: batcher_step_def small_def)
qed

lemma run_small:
  "batcher_run opts s evs = (s', sent, errs) \<Longrightarrow> length sent \<le> 2 * length evs \<and> (\<forall>p \<in> set sent. length p \<le> MAX_PLAINTEXT_FRAME_BYTES)"
proof (induction evs arbitrary: s sent errs)
  case (Cons ev evs)
  obtain s1 sent1 err where step: "batcher_step opts s ev = (s1, sent1, err)" by (metis prod_cases3)
  obtain s2 sent2 errs2 where run: "batcher_run opts s1 evs = (s2, sent2, errs2)" by (metis prod_cases3)
  have "s2 = s'" "sent = sent1 @ sent2" using Cons.prems step run by simp_all
  with Cons.IH [of s1 sent2 errs2] run step_small [of opts s ev] step show ?case by (auto simp: small_def)
qed simp

lemma unpack_opened: "concat (map (opened True) ps) = unpack ps"
  by (induction ps) (simp_all add: opened_def)

section \<open>A small installation, for the examples\<close>

definition relay_toy_env :: "relay_crypto \<Rightarrow> bool \<Rightarrow> relay_env" where
  "relay_toy_env c batch = \<lparr>crypto = c, hostEncPrivateKey = [2], localBatch = batch, batch_options = DEFAULT_BATCHER_OPTIONS,
     data_dial_error = (\<lambda>_. False), control_dial_error = None\<rparr>"

definition announced :: "string \<Rightarrow> jsval option" where
  "announced c = Some (JObject [(''type'', JString ''connected''), (''connectionId'', JString c)])"

definition one_client :: "relay_event list" where
  "one_client = [Control 0 (Control_Opened 0), Control 0 (Control_Message (announced ''c'') 1), Data 1 Data_Opened]"

lemma one_client_run:
  "\<exists>h outs e. relay_run (relay_toy_env c batch) (fst (startRelayHost (relay_toy_env c batch) 0)) one_client = (h, outs) \<and>
     entries h 1 = Some e \<and> is_entry h 1 e \<and> handshake e = createHostHandshake [2] batch \<and> channel e = None \<and> dispatched 1 outs = []"
  by (simp add: one_client_def relay_toy_env_def announced_def startRelayHost_def connectControl_def relay_start_def
      control_step_def put_control_def handleControlMessage_def own_prop_def openDataSocket_def put_entry_def data_step_def is_entry_def)

section \<open>Properties\<close>





end
