(* ===== verification/Relay_Host_Registry.thy ===== *)
theory Relay_Host_Registry
  imports Relay_Host_Channels
begin

text \<open>
  The sockets of the relay host client: the invariant of its registry of data sockets and of its control connection, and the
  defect of the close listener, which goes by the connection id.
\<close>

section \<open>Sockets and the control connection\<close>

definition ds_live :: "data_socket \<Rightarrow> bool" where
  "ds_live e \<longleftrightarrow> ds_state e = S_Open \<or> ds_state e = S_Connecting \<and> open_timer e"

definition registered :: "string set \<Rightarrow> relay_host \<Rightarrow> bool" where
  "registered except h \<longleftrightarrow>
     distinct (map fst (dataSockets h)) \<and> (\<forall>r \<ge> next_socket h. entries h r = None) \<and>
     (\<forall>c r. map_of (dataSockets h) c = Some r \<longrightarrow> (\<exists>e. entries h r = Some e \<and> ds_id e = c \<and> (c \<in> except \<or> ds_live e)))"

definition tethered :: "relay_host \<Rightarrow> bool" where
  "tethered h \<longleftrightarrow>
     (if stopped h then dataSockets h = [] \<and> \<not> reconnectTimer h \<and> controlSocket h = None \<and> host_state h = Disabled
      else (case controlSocket h of
              None \<Rightarrow> reconnectTimer h
            | Some r \<Rightarrow> \<not> reconnectTimer h \<and> (\<exists>cs. controls h r = Some cs \<and> cs_state cs \<noteq> S_Closed)))"

text \<open>What the operations on data sockets leave of the control connection.\<close>

definition control_view :: "relay_host \<Rightarrow> bool \<times> RelayHostState \<times> nat option \<times> bool \<times> (nat \<rightharpoonup> control_socket)" where
  "control_view h = (stopped h, host_state h, controlSocket h, reconnectTimer h, controls h)"

definition data_only :: "relay_host \<Rightarrow> relay_host \<Rightarrow> bool" where
  "data_only h h' \<longleftrightarrow> control_view h' = control_view h \<and> (stopped h \<and> dataSockets h = [] \<longrightarrow> dataSockets h' = [])"

lemma data_only_same: "data_only h h"
  by (simp add: data_only_def)

lemma data_only_trans: "data_only h h' \<Longrightarrow> data_only h' h'' \<Longrightarrow> data_only h h''"
  by (simp add: data_only_def control_view_def)

lemma data_only_put: "data_only h (put_entry r e h)"
  by (simp add: data_only_def control_view_def put_entry_def)

lemma data_only_tethered: "data_only h h' \<Longrightarrow> tethered h \<Longrightarrow> tethered h'"
  by (auto simp: data_only_def control_view_def tethered_def split: if_splits option.splits)

lemma registered_entry:
  assumes "registered except h" "map_of (dataSockets h) c = Some r"
  shows "\<exists>e. entries h r = Some e \<and> ds_id e = c \<and> (c \<in> except \<or> ds_live e) \<and> r < next_socket h"
  using assms unfolding registered_def by (metis linorder_not_le option.distinct(1))

lemma registered_mono: "registered except h \<Longrightarrow> except \<subseteq> except' \<Longrightarrow> registered except' h"
  unfolding registered_def by blast

lemma registered_put:
  assumes "registered except h" "entries h r = Some e" "ds_id e' = ds_id e" "ds_live e \<Longrightarrow> ds_id e \<in> except' \<or> ds_live e'" "except \<subseteq> except'"
  shows "registered except' (put_entry r e' h)"
proof -
  have "r < next_socket h" using assms(1,2) unfolding registered_def by (metis linorder_not_le option.distinct(1))
  moreover have "\<exists>e. (if c = r then Some e' else entries h c) = Some e \<and> ds_id e = id \<and> (id \<in> except' \<or> ds_live e)"
    if key: "map_of (dataSockets h) id = Some c" for id c
  proof -
    obtain e1 where "entries h c = Some e1" "ds_id e1 = id" "id \<in> except \<or> ds_live e1"
      using assms(1) key unfolding registered_def by blast
    with assms show ?thesis by auto
  qed
  ultimately show ?thesis using assms(1) by (simp add: registered_def put_entry_def fun_upd_def)
qed

lemma registered_unlisted:
  assumes "registered except h" "\<And>c. map_of (dataSockets h) c \<noteq> Some r" "r < next_socket h"
  shows "registered except (put_entry r e h)"
  using assms unfolding registered_def put_entry_def by (simp add: fun_upd_def)

lemma teardown_registered:
  assumes "registered (insert c except) h"
  shows "registered except (fst (teardownDataSocket c close h))" "data_only h (fst (teardownDataSocket c close h))"
    "map fst (dataSockets (fst (teardownDataSocket c close h))) = filter (\<lambda>k. k \<noteq> c) (map fst (dataSockets h))"
proof -
  have keys: "map fst (AList.delete c xs) = filter (\<lambda>k. k \<noteq> c) (map fst xs)" for xs :: "(string \<times> nat) list"
    by (induction xs) auto
  have "registered except (fst (teardownDataSocket c close h)) \<and> data_only h (fst (teardownDataSocket c close h)) \<and>
    map fst (dataSockets (fst (teardownDataSocket c close h))) = filter (\<lambda>k. k \<noteq> c) (map fst (dataSockets h))"
  proof (cases "map_of (dataSockets h) c")
    case None
    then have "filter (\<lambda>k. k \<noteq> c) (map fst (dataSockets h)) = map fst (dataSockets h)"
      by (auto simp: map_of_eq_None_iff filter_id_conv)
    moreover have "registered except h"
      using assms None unfolding registered_def by (metis insertE option.distinct(1))
    ultimately show ?thesis using None by (simp add: teardownDataSocket_def data_only_same)
  next
    case (Some r)
    then obtain e where e: "entries h r = Some e" "ds_id e = c" using assms unfolding registered_def by blast
    let ?e = "e\<lparr>open_timer := False, ds_batcher := map_option batcher_dispose (ds_batcher e),
      ds_state := (if ds_state e = S_Open \<or> ds_state e = S_Connecting then S_Closing else ds_state e)\<rparr>"
    let ?h = "h\<lparr>dataSockets := AList.delete c (dataSockets h)\<rparr>"
    have "registered except ?h"
      using assms unfolding registered_def by (auto simp: keys delete_conv' split: if_splits) fastforce
    moreover have "map_of (dataSockets ?h) id \<noteq> Some r" for id
      using registered_entry [OF assms, of id r] e by (auto simp: delete_conv' split: if_splits)
    moreover have "r < next_socket ?h" using registered_entry [OF assms Some] by auto
    ultimately have "registered except (put_entry r ?e ?h)" by (rule registered_unlisted)
    with Some e show ?thesis by (simp add: teardownDataSocket_def data_only_def control_view_def put_entry_def keys)
  qed
  then show "registered except (fst (teardownDataSocket c close h))" "data_only h (fst (teardownDataSocket c close h))"
    "map fst (dataSockets (fst (teardownDataSocket c close h))) = filter (\<lambda>k. k \<noteq> c) (map fst (dataSockets h))" by blast+
qed

lemma teardown_all:
  "registered except h \<Longrightarrow>
     registered except (fst (all_effects (\<lambda>c. teardownDataSocket c close) cs h)) \<and>
     data_only h (fst (all_effects (\<lambda>c. teardownDataSocket c close) cs h)) \<and>
     map fst (dataSockets (fst (all_effects (\<lambda>c. teardownDataSocket c close) cs h))) = filter (\<lambda>k. k \<notin> set cs) (map fst (dataSockets h))"
proof (induction cs arbitrary: h)
  case (Cons c cs)
  have "registered (insert c except) h" by (rule registered_mono [OF Cons.prems]) blast
  note one = teardown_registered [OF this, of close]
  from Cons.IH [OF one(1)] one(2,3) show ?case
    by (auto simp: case_prod_beta conj_commute intro: data_only_trans)
qed (simp add: data_only_same)

lemma open_registered:
  assumes "registered {} h"
  shows "registered {} (fst (openDataSocket env now c h)) \<and> data_only h (fst (openDataSocket env now c h))"
proof (cases "stopped h \<or> map_of (dataSockets h) c \<noteq> None \<or> data_dial_error env c")
  case True
  with assms show ?thesis by (auto simp: openDataSocket_def data_only_same)
next
  case False
  have "distinct (map fst (AList.update c (next_socket h) (dataSockets h)))"
    using assms by (simp add: registered_def distinct_update)
  moreover have "r < next_socket h" if key: "map_of (dataSockets h) k = Some r" for k r
    using registered_entry [OF assms key] by blast
  ultimately show ?thesis
    using assms False
    by (auto simp: openDataSocket_def Let_def registered_def put_entry_def data_only_def control_view_def update_conv' ds_live_def)
qed

lemma open_all:
  "registered {} h \<Longrightarrow>
     registered {} (fst (all_effects (openDataSocket env now) cs h)) \<and> data_only h (fst (all_effects (openDataSocket env now) cs h))"
proof (induction cs arbitrary: h)
  case (Cons c cs)
  note one = open_registered [OF Cons.prems, of env now c]
  from Cons.IH [OF one [THEN conjunct1]] one show ?case
    using data_only_trans by (simp add: case_prod_beta) blast
qed (simp add: data_only_same)

definition relay_ok :: "relay_host \<Rightarrow> bool" where
  "relay_ok h \<longleftrightarrow> registered {} h \<and> tethered h"

lemma relay_ok_data: "registered {} h' \<Longrightarrow> data_only h h' \<Longrightarrow> relay_ok h \<Longrightarrow> relay_ok h'"
  using data_only_tethered by (simp add: relay_ok_def)

lemma relay_ok_put:
  assumes "relay_ok h" "entries h r = Some e" "ds_id e' = ds_id e" "ds_live e \<Longrightarrow> ds_live e'"
  shows "relay_ok (put_entry r e' h)"
  using assms registered_put [of "{}" h r e e' "{}"] relay_ok_data [OF _ data_only_put] by (simp add: relay_ok_def)

lemma relay_ok_teardown:
  assumes "relay_ok h"
  shows "relay_ok (fst (teardownDataSocket c close h))"
proof -
  have "registered (insert c {}) h" using assms registered_mono by (auto simp: relay_ok_def)
  from teardown_registered(1,2) [OF this] show ?thesis using relay_ok_data assms by blast
qed

lemma relay_ok_closed:
  assumes "relay_ok h" "entries h r = Some e"
  shows "relay_ok (fst (teardownDataSocket (ds_id e) close (put_entry r (e\<lparr>ds_state := S_Closed\<rparr>) h)))"
proof -
  have "registered {} h" using assms(1) by (simp add: relay_ok_def)
  then have "registered {ds_id e} (put_entry r (e\<lparr>ds_state := S_Closed\<rparr>) h)"
    by (rule registered_put [OF _ assms(2)]) auto
  from teardown_registered(1,2) [OF this] show ?thesis
    using relay_ok_data [OF _ data_only_trans [OF data_only_put]] assms(1) by blast
qed

lemma relay_ok_text:
  assumes "relay_ok h" "entries h r = Some e"
  shows "relay_ok (fst (handle_text env ivp raw r (e\<lparr>lastActivityAt := now\<rparr>) h))"
proof -
  obtain hs action where answer: "host_handleText (crypto env) ivp raw (handshake e) = (hs, action)" by fastforce
  note put = relay_ok_put [OF assms]
  show ?thesis
    using answer by (cases action) (auto simp: handle_text_def failChannel_def Let_def ds_live_def intro!: put relay_ok_teardown)
qed

lemma relay_ok_binary:
  assumes "relay_ok h" "entries h r = Some e"
  shows "relay_ok (fst (handle_binary env bs rejected r (e\<lparr>lastActivityAt := now\<rparr>) h))"
proof -
  note put = relay_ok_put [OF assms]
  show ?thesis
    by (auto simp: handle_binary_def failChannel_def Let_def relay_ok_teardown [OF assms(1)] ds_live_def intro!: put
        split: option.split prod.split sum.split)
qed

lemma relay_ok_data_step:
  assumes "relay_ok h" "entries h r = Some e"
  shows "relay_ok (fst (data_step env r e ev h))"
proof -
  note put = relay_ok_put [OF assms]
  show ?thesis
  proof (cases ev)
    case Data_Opened
    then show ?thesis using assms(1) by (auto simp: data_step_def ds_live_def intro!: put)
  next
    case Open_Timeout
    then show ?thesis using assms(1) by (simp add: data_step_def relay_ok_teardown)
  next
    case (Text ivp raw now)
    then show ?thesis using assms relay_ok_text by (simp add: data_step_def)
  next
    case (Binary bs rejected now)
    then show ?thesis using assms relay_ok_binary by (simp add: data_step_def)
  next
    case (Outbound at now1 now2 frame)
    then show ?thesis
      using assms(1)
      by (auto simp: data_step_def send_frame_def sendEncryptedPlaintext_def ds_live_def intro!: put split: option.split prod.split)
  next
    case (Batch_Timer now)
    then show ?thesis
      using assms(1)
      by (auto simp: data_step_def batch_timer_def sendEncryptedPlaintext_def ds_live_def intro!: put split: option.split prod.split)
  next
    case Send_Link
    then show ?thesis
      using assms(1)
      by (auto simp: data_step_def send_link_def Let_def ds_live_def intro!: put split: list.split option.split prod.split sum.split)
  next
    case Data_Closed
    then show ?thesis using assms relay_ok_closed by (simp add: data_step_def)
  qed
qed

lemma schedule_tethered:
  assumes "stopped h \<Longrightarrow> tethered h" "registered {} h" "controlSocket h = None"
  shows "relay_ok (fst (scheduleReconnect h))"
  using assms by (auto simp: scheduleReconnect_def relay_ok_def registered_def tethered_def)

lemma connect_ok:
  assumes "registered {} h" "stopped h \<Longrightarrow> tethered h" "controlSocket h = None" "\<not> reconnectTimer h"
  shows "relay_ok (fst (connectControl env now h))"
  using assms by (auto simp: connectControl_def scheduleReconnect_def relay_ok_def registered_def tethered_def Let_def split: option.split)

lemma relay_ok_teardown_all: "relay_ok h \<Longrightarrow> relay_ok (fst (all_effects (\<lambda>c. teardownDataSocket c close) cs h))"
  using teardown_all [of "{}" h close cs] relay_ok_data by (auto simp: relay_ok_def)

lemma relay_ok_sync:
  assumes "relay_ok h"
  shows "relay_ok (fst (sync_sockets env now wanted h))"
proof -
  let ?closed = "all_effects (\<lambda>c. teardownDataSocket c None) (filter (\<lambda>c. c \<notin> set wanted) (map fst (dataSockets h))) h"
  have ok: "relay_ok (fst ?closed)" by (rule relay_ok_teardown_all [OF assms])
  then have "registered {} (fst ?closed)" by (simp add: relay_ok_def)
  from open_all [OF this, of env now wanted] ok have "relay_ok (fst (all_effects (openDataSocket env now) wanted (fst ?closed)))"
    using relay_ok_data by blast
  then show ?thesis by (simp add: sync_sockets_def case_prod_beta)
qed

lemma relay_ok_cong:
  "relay_ok h \<Longrightarrow> entries h' = entries h \<Longrightarrow> dataSockets h' = dataSockets h \<Longrightarrow> next_socket h \<le> next_socket h' \<Longrightarrow>
     tethered h' \<Longrightarrow> relay_ok h'"
  by (auto simp: relay_ok_def registered_def)

lemma relay_ok_message:
  assumes "relay_ok h" "controlSocket h \<noteq> None"
  shows "relay_ok (fst (handleControlMessage env now raw h))"
proof (cases raw)
  case None
  with assms show ?thesis by (simp add: handleControlMessage_def)
next
  case (Some v)
  let ?h = "h\<lparr>consecutiveFailures := 0, host_state := Connected, lastError := None\<rparr>"
  have "tethered ?h" using assms by (auto simp: relay_ok_def tethered_def split: if_splits option.splits)
  then have "relay_ok ?h" by (intro relay_ok_cong [OF assms(1)]) simp_all
  note sync = relay_ok_sync [OF this]
  have "relay_ok (fst (openDataSocket env now c h))" for c
    using open_registered [of h env now c] assms(1) relay_ok_data by (auto simp: relay_ok_def)
  with sync relay_ok_teardown [OF assms(1)] assms(1) show ?thesis
    unfolding handleControlMessage_def Some option.case by (auto split: jsval.split)
qed

lemma relay_ok_put_control:
  assumes "relay_ok h" "controlSocket h = Some r \<Longrightarrow> cs_state cs \<noteq> S_Closed"
  shows "relay_ok (put_control r cs h)"
proof (rule relay_ok_cong [OF assms(1)])
  show "tethered (put_control r cs h)"
    using assms by (auto simp: relay_ok_def tethered_def put_control_def split: if_splits option.splits)
qed (simp_all add: put_control_def)

lemma relay_ok_control_closed:
  assumes "relay_ok h" "controls h r = Some cs"
  shows "relay_ok (fst (control_closed code reason r cs h))"
proof (cases "controlSocket h = Some r")
  case True
  have "registered {} h" using assms(1) by (simp add: relay_ok_def)
  moreover have "\<not> stopped h" using assms(1) True by (auto simp: relay_ok_def tethered_def split: if_splits)
  ultimately have "relay_ok (fst (scheduleReconnect h2))"
    if "entries h2 = entries h" "dataSockets h2 = dataSockets h" "next_socket h2 = next_socket h" "stopped h2 = stopped h" "controlSocket h2 = None" for h2
    using that by (intro schedule_tethered) (simp_all add: registered_def)
  then show ?thesis using True by (simp add: control_closed_def put_control_def Let_def)
next
  case False
  then have "relay_ok (put_control r (cs\<lparr>cs_state := S_Closed\<rparr>) h)" by (intro relay_ok_put_control [OF assms(1)]) simp
  with False show ?thesis by (simp add: control_closed_def put_control_def)
qed

lemma relay_ok_control_step:
  assumes "relay_ok h" "controls h r = Some cs"
  shows "relay_ok (fst (control_step env r cs ev h))"
proof -
  have live: "cs_state cs \<noteq> S_Closed" if "controlSocket h = Some r"
    using assms that by (auto simp: relay_ok_def tethered_def split: if_splits)
  show ?thesis
  proof (cases ev)
    case (Control_Opened now)
    then show ?thesis using assms(1) by (auto simp: control_step_def intro!: relay_ok_put_control)
  next
    case (Pong_Received now)
    then show ?thesis using assms(1) live by (auto simp: control_step_def intro!: relay_ok_put_control)
  next
    case (Control_Message raw now)
    have "relay_ok (fst (handleControlMessage env now raw (put_control r (cs\<lparr>lastAliveAt := now\<rparr>) h)))" if "controlSocket h = Some r"
      using assms(1) live that by (intro relay_ok_message relay_ok_put_control) (simp_all add: put_control_def)
    with Control_Message assms(1) show ?thesis by (simp add: control_step_def)
  next
    case (Control_Error message)
    have "relay_ok (h\<lparr>lastError := Some message\<rparr>)"
      using assms(1) by (intro relay_ok_cong [OF assms(1)]) (auto simp: relay_ok_def tethered_def split: option.splits)
    with Control_Error assms(1) show ?thesis by (simp add: control_step_def)
  next
    case (Ping_Tick now)
    then show ?thesis using assms(1) by (auto simp: control_step_def ping_tick_def intro!: relay_ok_put_control)
  next
    case (Control_Closed code reason)
    then show ?thesis using assms relay_ok_control_closed by (simp add: control_step_def)
  qed
qed

lemma relay_ok_stop:
  assumes "relay_ok h"
  shows "relay_ok (fst (stop h))"
proof (cases "stopped h")
  case False
  let ?h = "h\<lparr>stopped := True, reconnectTimer := False\<rparr>"
  define res where "res = all_effects (\<lambda>c. teardownDataSocket c (Some (1001, ''host stopping''))) (map fst (dataSockets ?h)) ?h"
  have "registered {} ?h" using assms by (simp add: relay_ok_def registered_def)
  note all = teardown_all [OF this, of "Some (1001, ''host stopping'')" "map fst (dataSockets ?h)", folded res_def]
  then have "dataSockets (fst res) = []" by simp
  moreover have "stopped (fst res)" "\<not> reconnectTimer (fst res)"
    using all by (auto simp: data_only_def control_view_def)
  ultimately have "relay_ok ((fst res)\<lparr>controlSocket := None, host_state := Disabled\<rparr>)"
    using all by (simp add: relay_ok_def registered_def tethered_def)
  moreover have "fst (stop h) = (fst res)\<lparr>controlSocket := None, host_state := Disabled\<rparr>"
    using False by (simp add: stop_def res_def case_prod_beta Let_def)
  ultimately show ?thesis by simp
qed (use assms in \<open>simp add: stop_def\<close>)

lemma relay_ok_step:
  assumes "relay_ok h"
  shows "relay_ok (fst (relay_step env h ev))"
proof (cases ev)
  case (Data r ev')
  then show ?thesis using assms relay_ok_data_step by (auto split: option.split)
next
  case (Control r ev')
  then show ?thesis using assms relay_ok_control_step by (auto split: option.split)
next
  case (Reconnect_Fires now)
  have "relay_ok (fst (connectControl env now (h\<lparr>reconnectTimer := False\<rparr>)))" if "reconnectTimer h"
    using assms that by (intro connect_ok) (auto simp: relay_ok_def registered_def tethered_def split: if_splits option.splits)
  with Reconnect_Fires assms show ?thesis by (simp add: reconnect_fires_def)
next
  case (Idle_Sweep now)
  then show ?thesis using assms relay_ok_teardown_all by (simp add: idle_sweep_def)
next
  case Stop
  then show ?thesis using assms relay_ok_stop by simp
qed

lemma relay_ok_start: "relay_ok (fst (startRelayHost env now))"
  unfolding startRelayHost_def by (rule connect_ok) (simp_all add: registered_def relay_start_def)

interpretation relay: invariant_system "fst (startRelayHost env now)" "\<lambda>h e h'. h' = fst (relay_step env h e)" relay_ok
  for env now
  by unfold_locales (simp_all add: relay_ok_start relay_ok_step)

lemma relay_reachable:
  "reachable s (\<lambda>h e h'. h' = fst (relay_step env h e)) h \<Longrightarrow> reachable s (\<lambda>h e h'. h' = fst (relay_step env h e)) (fst (relay_run env h evs))"
  by (induction evs arbitrary: h) (auto simp: case_prod_beta intro: reach_step)

section \<open>Properties\<close>

text \<open>
  C8. The host is never stuck and keeps no dead sockets: in every run, unless it was stopped, it has a control socket whose
  close it has not seen or a reconnect is scheduled, never both; once stopped it has neither and no data sockets. Every
  connection id has at most one socket, which is open, or connecting with its open timer running.
\<close>

theorem relay_host_invariant: "relay_ok (fst (relay_run env (fst (startRelayHost env started)) evs))"
  by (rule relay.reachable_inv [OF relay_reachable [OF reach_start]])

text \<open>
  C40. A late close ends the wrong socket: when a data socket was torn down and another opened for the same connection id, the
  \<open>close\<close> event of the first tears down the second, live one, since the listener goes by the id only. The witness is a run:
  the sweep closes an idle socket, the client is announced again, and the first socket's close ends the new connection.
\<close>

theorem late_close_ends_successor:
  assumes "entries h old = Some e" "ds_state e \<noteq> S_Closed"
    and "map_of (dataSockets h) (ds_id e) = Some new" "new \<noteq> old" "entries h new = Some e'" "ds_state e' = S_Open"
  shows "\<exists>h' outs. relay_step env h (Data old Data_Closed) = (h', outs) \<and> Terminate_Socket new \<in> set outs \<and>
    map_of (dataSockets h') (ds_id e) = None \<and> map_option ds_state (entries h' new) = Some S_Closing"
  using assms by (simp add: data_step_def teardownDataSocket_def put_entry_def)

theorem late_close_ends_successor_witness:
  "\<exists>h outs. relay_run (relay_toy_env toy_crypto True) (fst (startRelayHost (relay_toy_env toy_crypto True) 0))
      (one_client @ [Idle_Sweep 90002, Control 0 (Control_Message (announced ''c'') 90003), Data 2 Data_Opened]) = (h, outs) \<and>
    map_of (dataSockets h) ''c'' = Some 2 \<and>
    (\<exists>h' outs'. relay_step (relay_toy_env toy_crypto True) h (Data 1 Data_Closed) = (h', outs') \<and> Terminate_Socket 2 \<in> set outs' \<and>
       map_of (dataSockets h') ''c'' = None)"
proof -
  let ?env = "relay_toy_env toy_crypto True"
  obtain h outs where run: "relay_run ?env (fst (startRelayHost ?env 0))
      (one_client @ [Idle_Sweep 90002, Control 0 (Control_Message (announced ''c'') 90003), Data 2 Data_Opened]) = (h, outs)" by fastforce
  have "\<exists>e e'. entries h 1 = Some e \<and> ds_state e = S_Closing \<and> ds_id e = ''c'' \<and> map_of (dataSockets h) ''c'' = Some 2 \<and>
      entries h 2 = Some e' \<and> ds_state e' = S_Open"
    using run [symmetric]
    by (simp add: one_client_def relay_toy_env_def announced_def startRelayHost_def connectControl_def relay_start_def
      control_step_def put_control_def handleControlMessage_def own_prop_def openDataSocket_def put_entry_def data_step_def is_entry_def
      idle_sweep_def teardownDataSocket_def DATA_SOCKET_IDLE_TIMEOUT_MS_def)
  then obtain e e' where "entries h 1 = Some e" "ds_state e \<noteq> S_Closed" "map_of (dataSockets h) (ds_id e) = Some 2" "(2 :: nat) \<noteq> 1"
    "entries h 2 = Some e'" "ds_state e' = S_Open" "ds_id e = ''c''" by auto
  with late_close_ends_successor [of h 1 e 2 e' ?env] run show ?thesis by auto
qed

end
