(* ===== verification/Spec2Isabelle.thy ===== *)
theory Spec2Isabelle
  imports Frame_Batcher Tunnel_Client Permission_Patterns Thread_Scope Path_Merge Path_Lock Request_Window Trie_Walks Service_Routing Context_Expression Observation_Cursors Tunnel_Peers Terminal_History Output_Store Workspace_Lease Settings_Store
    Ssrf_Policy Branch_View Lease_Storage Tunnel_Host_Requests Relay_Host_Registry
begin

text \<open>
  A verification development for Varin, an agent workspace whose host process runs agent threads, keeps their working
  state, and serves remote clients through an encrypted relay.

  \<^bold>\<open>The program.\<close> The application host (\<^verbatim>\<open>src/packages/web/application-host\<close>) is a Node process. Agent threads run in the
  Pi host (\<^verbatim>\<open>src/packages/pi-host\<close>); their tools ask the application host to read and write documents, and every call passes
  a permission gate. What a thread writes goes to a working branch, a Merkle trie of file states, which is later merged
  into the workspace. Recovery history, settings and leases are files shared by several processes. Browsers and phones
  reach the host through a relay that is not trusted: a socket to the relay carries encrypted batches of tunnel frames, and
  the tunnel host turns them into requests to the loopback server. Below, \<open>lib/\<close> is
  \<^verbatim>\<open>src/packages/web/application-host/lib/\<close>.

  \<^bold>\<open>Relay and tunnel.\<close> From the socket inwards:
  \<^item> \<open>Relay_Host\<close> (\<^verbatim>\<open>lib/relay/host-client.ts\<close>): the control socket with its reconnects, and a data socket per client, as a
    machine of callbacks. \<open>Relay_Host_Channels\<close> proves that the tunnel is given a subsequence of what the client sealed and,
    for an honest client and relay, all of it; \<open>Relay_Host_Registry\<close> proves the invariant of the sockets.
  \<^item> \<open>Relay_E2ee\<close> (\<^verbatim>\<open>lib/relay/e2ee.ts\<close> and \<^verbatim>\<open>src/packages/ui/src/lib/relay/handshake.ts\<close>): both handshakes, base64url, the frame
    encryptor and decryptor. Agreement, no rekeying, no replay, reordering or forgery.
  \<^item> \<open>Frame_Batcher\<close>, \<open>Tunnel_Codec\<close> (\<^verbatim>\<open>lib/relay/tunnel-codec.ts\<close>), \<open>Tunnel_Client\<close>, \<open>Tunnel_Peers\<close>
    (\<^verbatim>\<open>src/packages/ui/src/lib/relay/tunnel-codec.ts\<close>): frames, fragments, batches, the assembler and the batcher of both
    sides, and the proof that messages cross the tunnel.
  \<^item> \<open>Tunnel_Host\<close> (\<^verbatim>\<open>lib/relay/tunnel-host.ts\<close>): the multiplexer of one connection. \<open>Tunnel_Host_Protocol\<close> states the protocol
    a client sees as a machine of sessions and proves a simulation; \<open>Tunnel_Host_Requests\<close> holds what it asks of the
    loopback server and how uploads reach it.

  \<^bold>\<open>Working state of threads.\<close>
  \<^item> \<open>Recovery_State\<close> (\<^verbatim>\<open>lib/recovery/journal-files.ts\<close>): the stored states of files, their parser and identity.
  \<^item> \<open>State_Trie\<close>, \<open>Trie_Map\<close>, \<open>Trie_Walks\<close> (\<^verbatim>\<open>lib/harness/working-state/state-trie.ts\<close>): the trie implements a map from
    paths to states, two roots agree exactly when the maps do, the difference and the verification are exact.
  \<^item> \<open>Branch_View\<close> (\<^verbatim>\<open>branch-view.ts\<close>): reading through symbolic links, against the relation of following them.
  \<^item> \<open>Text_Merge\<close>, \<open>Path_Merge\<close> (\<^verbatim>\<open>three-way-merge.ts\<close>): the line merge for every valid edit script, and the merge plan.
  \<^item> \<open>Observation_Cursors\<close> (\<^verbatim>\<open>observation-cursors.ts\<close>), \<open>Path_Lock\<close> (\<^verbatim>\<open>path-lock.ts\<close>), \<open>Thread_Scope\<close>
    (\<^verbatim>\<open>thread-nesting.ts\<close>), \<open>Output_Store\<close> (\<^verbatim>\<open>output-store.ts\<close>), all under \<^verbatim>\<open>lib/harness\<close>.

  \<^bold>\<open>Policies and contracts.\<close>
  \<^item> \<open>Permission_Gate\<close>, \<open>Permission_Patterns\<close> (\<^verbatim>\<open>src/packages/protocol/src/permission-gate.ts\<close>, \<^verbatim>\<open>harness-tools.ts\<close>): rules,
    frozen policies, merging, and what the pattern scanner decides.
  \<^item> \<open>Ssrf_Policy\<close> (\<^verbatim>\<open>lib/harness/ssrf-policy.ts\<close>): classification of addresses in every textual form.
  \<^item> \<open>Service_Routing\<close>, \<open>Context_Expression\<close> (\<^verbatim>\<open>src/packages/extension-contract/src\<close>): routing of services to providers,
    the condition language and contract versions.

  \<^bold>\<open>Shared files and processes.\<close>
  \<^item> \<open>Settings_Store\<close> (\<^verbatim>\<open>src/packages/settings-store/src/index.ts\<close>): lock files and atomic replacement, every interleaving and
    every failure of an operation. \<open>Workspace_Lease\<close> (\<^verbatim>\<open>lib/recovery/workspace-lease.ts\<close>): leases across processes;
    \<open>Lease_Storage\<close> composes the two.
  \<^item> \<open>Request_Window\<close> (\<^verbatim>\<open>lib/kernel/request-window.ts\<close>), \<open>Terminal_History\<close> (\<^verbatim>\<open>lib/terminal/history.ts\<close>), \<open>Utf8\<close>
    (\<^verbatim>\<open>src/packages/protocol/src/utf8.ts\<close>).

  \<^bold>\<open>How the code is modelled.\<close> \<open>Varin_Prelude\<close> holds the vocabulary: JavaScript values (\<open>jsval\<close>) and property access,
  failures as a sum (\<open>outcome\<close>), strings as character lists, byte arrays as lists of 8 bit words, and the locale
  \<open>invariant_system\<close> with reachability. Objects are records, closures over variables are records passed and returned, unions
  of string literals are datatypes. Asynchronous code is a machine: a step runs from one await to the next, and properties
  quantify over all sequences of steps. Numbers are integers where the code keeps them below \<open>2 ^ 53\<close>, words where it
  works on bits, and counters of the encrypted channel are naturals with their bound of \<open>2 ^ 64\<close> in the statements.

  \<^bold>\<open>Parameters.\<close> What is not code of the repository is an argument: SHA-256 and HMAC, the operations of WebCrypto (elliptic
  curve, HKDF, AES-GCM), \<open>fetch\<close>, sockets and the loopback server (events), regular expressions, \<open>Date.parse\<close>, \<open>net.isIP\<close> and
  the URL parser, the diff of the \<open>diff\<close> package, \<open>process.kill\<close> and file operations (events that may fail). Theorems that
  need something of them assume their documented behaviour: no collisions of the digest, an authentic and invertible
  AEAD, agreement of the key exchange, an edit script that transforms one text to the other.

  \<^bold>\<open>Termination.\<close> Recursions over data are structural or have a measure. Walks over a trie take a stack depth, as a pool may be
  cyclic: they fail when it is exhausted, and \<open>Trie_Walks\<close> proves that a depth above that of the trie suffices and that
  verification ends for every pool. Following symbolic links is a \<open>partial_function\<close>, proved total.

  \<^bold>\<open>Abstractions.\<close> The tunnel host and the relay host run WebCrypto and JSON work in the step that starts it; a frame given to
  \<open>sendFrame\<close> leaves at once; an aborted fetch rejects; case conversion is that of ASCII. A data socket that is closed while
  its handshake is being computed is not modelled. Log output, status callbacks and metrics are left out.

  \<^bold>\<open>Not modelled.\<close> Of \<^verbatim>\<open>journal-files.ts\<close> the effects on the file system. The thread runtime, the document authority, the
  recovery journal and the materialisation of branches orchestrate the parts above over effects and events whose meaning
  is that of the file system, the kernel process and the agent SDK. The session host drives that SDK; git, language servers
  and terminals are other programs; the kernel is written in Rust. The user interface, the desktop and mobile shells,
  translations, route wrappers and build scripts hold no logic with a contract of its own. The browser's tunnel client
  implements DOM interfaces on the modelled codec and handshake.
\<close>

end
